theory Spec2Isabelle
  imports Main "HOL-Library.Word"
begin

unbundle bit_operations_syntax

section \<open>Visual Leak Detector: the heap/block ledger, the leak reporter, the capture
  context and the loader hook of \<^verbatim>\<open>src/src/vld.cpp\<close>\<close>

text \<open>
  The embedding follows the 64-bit build (\<^verbatim>\<open>_WIN64\<close>, \<^verbatim>\<open>_M_X64\<close>) with
  assertions compiled out: \<^verbatim>\<open>SIZE_T\<close>, \<^verbatim>\<open>UINT_PTR\<close>, handles and pointers are
  64-bit words, \<^verbatim>\<open>DWORD\<close> and \<^verbatim>\<open>UINT32\<close> are 32-bit words, \<^verbatim>\<open>BYTE\<close> is an 8-bit
  word. Arithmetic on them wraps exactly as the machine arithmetic does.

  The ledger lock \<^verbatim>\<open>g_heapMapLock\<close> serialises every operation modelled here, so each
  operation is a function from the state before it to the state after it.
\<close>

type_synonym SIZE_T = "64 word"
type_synonym UINT_PTR = "64 word"
type_synonym HANDLE = "64 word"
type_synonym LPCVOID = "64 word"
type_synonym DWORD = "32 word"
type_synonym BYTE = "8 word"

definition SIZE_MAX :: SIZE_T where
  "SIZE_MAX = - 1"

subsection \<open>Option bits\<close>

text \<open>
  The masks \<^verbatim>\<open>VLD_OPT_*\<close> and \<^verbatim>\<open>VLD_TLS_*\<close> are declared in headers that are not
  among the sources. The code only ever tests, sets and clears single flags
  (\<^verbatim>\<open>m_options & VLD_OPT_X\<close>), so an option word is the set of its flags and the test
  is membership.
\<close>

datatype vld_opt =
    VLD_OPT_AGGREGATE_DUPLICATES
  | VLD_OPT_SKIP_CRTSTARTUP_LEAKS
  | VLD_OPT_TRACE_INTERNAL_FRAMES
  | VLD_OPT_UNICODE_REPORT
  | VLD_OPT_VALIDATE_HEAPFREE
  | VLD_OPT_VLDOFF

datatype tls_flag =
    VLD_TLS_DEBUGCRTALLOC
  | VLD_TLS_UCRT
  | VLD_TLS_DISABLED
  | VLD_TLS_ENABLED

subsection \<open>Call stacks and capture contexts\<close>

text \<open>
  Modelled from the spec: the class \<^verbatim>\<open>CallStack\<close> (callstack.h) is not among the sources.
  A call stack is its sequence of frame addresses, and \<^verbatim>\<open>operator==\<close> is frame-for-frame
  address identity, as the leak reporter's description says.
\<close>

datatype CallStack = CallStack (frames: "UINT_PTR list")

definition CallStack_eq :: "CallStack \<Rightarrow> CallStack \<Rightarrow> bool" where
  "CallStack_eq a b = (frames a = frames b)"

text \<open>
  \<^verbatim>\<open>context_t\<close>: the fields are those that \<^verbatim>\<open>CaptureContext::Reset\<close> clears on x64.
\<close>

record context_t =
  fp :: UINT_PTR
  func :: UINT_PTR
  Rbp :: UINT_PTR
  Rsp :: UINT_PTR
  Rip :: UINT_PTR

subsection \<open>Block and heap records\<close>

record blockinfo_t =
  callStack :: "CallStack option"
  threadId :: DWORD
  serialNumber :: SIZE_T
  size' :: SIZE_T
  reported :: bool
  debugCrtAlloc :: bool
  ucrt :: bool

text \<open>
  The block maps hold \<^verbatim>\<open>blockinfo_t*\<close>: the records live in the free store, and the leak
  reporter's aggregation set is a set of such pointers. A pointer is a natural number and
  the free store is a partial map; \<^verbatim>\<open>new\<close> hands out \<open>nextBlock\<close>, \<^verbatim>\<open>delete\<close> removes
  the record.
\<close>

type_synonym bptr = nat

text \<open>
  Modelled from the spec: the containers \<^verbatim>\<open>Map\<close> and \<^verbatim>\<open>Set\<close> (map.h, set.h) are not among
  the sources. A map is an association list with unique keys, iterated in insertion
  order; \<^verbatim>\<open>insert\<close> of a key that is already present changes nothing and returns
  \<^verbatim>\<open>end()\<close> (here \<open>None\<close>), which is how \<^verbatim>\<open>mapBlock\<close> and \<^verbatim>\<open>mapHeap\<close> use it.
\<close>

type_synonym ('k, 'v) Map = "('k \<times> 'v) list"

definition Map_find :: "('k, 'v) Map \<Rightarrow> 'k \<Rightarrow> 'v option" where
  "Map_find m k = map_of m k"

definition Map_insert :: "('k, 'v) Map \<Rightarrow> 'k \<Rightarrow> 'v \<Rightarrow> ('k, 'v) Map option" where
  "Map_insert m k v = (case map_of m k of None \<Rightarrow> Some (m @ [(k, v)]) | Some _ \<Rightarrow> None)"

definition Map_erase :: "('k, 'v) Map \<Rightarrow> 'k \<Rightarrow> ('k, 'v) Map" where
  "Map_erase m k = filter (\<lambda>e. fst e \<noteq> k) m"

definition Map_update :: "('k, 'v) Map \<Rightarrow> 'k \<Rightarrow> 'v \<Rightarrow> ('k, 'v) Map" where
  "Map_update m k v = map (\<lambda>e. if fst e = k then (k, v) else e) m"

type_synonym BlockMap = "(LPCVOID, bptr) Map"

record heapinfo_t =
  blockMap :: BlockMap
  flags :: DWORD

type_synonym HeapMap = "(HANDLE, heapinfo_t) Map"

subsection \<open>Report lines\<close>

text \<open>
  Every call of \<^verbatim>\<open>Report\<close>, of \<^verbatim>\<open>CallStack::dump\<close> and of \<^verbatim>\<open>DumpMemoryA/W\<close> appends
  one line to the output. The lines that \<^verbatim>\<open>reportLeaks\<close> prints for one leak are kept
  together in one \<open>leak_entry\<close>; \<open>le_info\<close> is the \<^verbatim>\<open>blockinfo_t\<close> they are printed from.
\<close>

record leak_entry =
  le_info :: bptr
  le_serialNumber :: SIZE_T
  le_address :: LPCVOID
  le_size :: SIZE_T
  le_hash :: DWORD
  le_count :: SIZE_T
  le_total :: SIZE_T
  le_tid :: "DWORD option"
  le_stack :: "(CallStack \<times> bool) option"
  le_data :: "(bool \<times> LPCVOID \<times> SIZE_T) option"

datatype report =
    R_NewAllocAtAllocated LPCVOID SIZE_T SIZE_T
  | R_DuplicateHeap HANDLE
  | R_CrossHeapFree
  | R_BlockHeader SIZE_T LPCVOID SIZE_T
  | R_TID DWORD
  | R_CallStackHeading
  | R_DeallocationHeading
  | R_Dump CallStack bool
  | R_DebugBreak
  | R_LeaksDetected
  | R_Leak leak_entry

subsection \<open>The detector's state\<close>

record vld =
  m_heapMap :: HeapMap
  blocks :: "bptr \<Rightarrow> blockinfo_t option"
  nextBlock :: bptr
  m_requestCurr :: SIZE_T
  m_totalAlloc :: SIZE_T
  m_curAlloc :: SIZE_T
  m_maxAlloc :: SIZE_T
  m_options :: "vld_opt set"
  m_maxTraceFrames :: DWORD
  m_maxDataDump :: SIZE_T
  reportLog :: "report list"

text \<open>
  The services the ledger and the reporter call but do not implement: the stack walker,
  the debugger test, the symbol-based classification of a call stack, the hash of a leak,
  and the reads of the CRT debug header in front of a block (the header layouts and the
  \<^verbatim>\<open>crtdbg.h\<close> macros are not among the sources).
\<close>

record env =
  getStackTrace :: "DWORD \<Rightarrow> context_t \<Rightarrow> CallStack"
  IsDebuggerPresent :: bool
  isCrtStartupAlloc :: "CallStack \<Rightarrow> bool"
  leakHash :: "SIZE_T \<Rightarrow> CallStack \<Rightarrow> DWORD"
  validCrtHeader :: "LPCVOID \<Rightarrow> SIZE_T \<Rightarrow> bool"
  validUcrtHeader :: "LPCVOID \<Rightarrow> SIZE_T \<Rightarrow> bool"
  crtUseFreeOrInternal :: "LPCVOID \<Rightarrow> bool \<Rightarrow> bool"
  getCrtBlockSize :: "LPCVOID \<Rightarrow> bool \<Rightarrow> SIZE_T"
  CRTDBGBLOCKDATA :: "LPCVOID \<Rightarrow> LPCVOID"
  IsExcludedModule :: "UINT_PTR \<Rightarrow> bool"

subsection \<open>The ledger operations\<close>

definition Report :: "report \<Rightarrow> vld \<Rightarrow> vld" where
  "Report r s = s\<lparr>reportLog := reportLog s @ [r]\<rparr>"

text \<open>The body of the loop of \<^verbatim>\<open>unmapHeap\<close>, for one entry of the block map.\<close>

definition unmapHeap_block :: "vld \<Rightarrow> LPCVOID \<times> bptr \<Rightarrow> vld" where
  "unmapHeap_block s e =
     (case blocks s (snd e) of
        None \<Rightarrow> s
      | Some info \<Rightarrow> s\<lparr>m_curAlloc := m_curAlloc s - size' info,
                        blocks := (blocks s)(snd e := None)\<rparr>)"

definition unmapHeap :: "HANDLE \<Rightarrow> vld \<Rightarrow> vld" where
  "unmapHeap heap s =
     (case Map_find (m_heapMap s) heap of
        None \<Rightarrow> s
      | Some heapinfo \<Rightarrow>
          (let s1 = foldl unmapHeap_block s (blockMap heapinfo)
           in s1\<lparr>m_heapMap := Map_erase (m_heapMap s1) heap\<rparr>))"

definition mapHeap :: "HANDLE \<Rightarrow> vld \<Rightarrow> vld" where
  "mapHeap heap s =
     (let heapinfo = \<lparr>blockMap = [], flags = 0\<rparr>
      in case Map_insert (m_heapMap s) heap heapinfo of
           Some hm \<Rightarrow> s\<lparr>m_heapMap := hm\<rparr>
         | None \<Rightarrow>
             (let s1 = Report (R_DuplicateHeap heap) s;
                  s2 = unmapHeap heap s1
              in case Map_insert (m_heapMap s2) heap heapinfo of
                   Some hm \<Rightarrow> s2\<lparr>m_heapMap := hm\<rparr>
                 | None \<Rightarrow> s2))"

text \<open>
  \<^verbatim>\<open>mapBlock\<close>, first half: the new record is created at \<open>nextBlock\<close> with an empty
  call stack and the reported flag cleared, and the three byte counters are updated.
\<close>

definition mapBlock_record :: "SIZE_T \<Rightarrow> bool \<Rightarrow> bool \<Rightarrow> DWORD \<Rightarrow> vld \<Rightarrow> vld" where
  "mapBlock_record sz debugcrtalloc ucrt' tid s =
     (let blockinfo = nextBlock s;
          s1 = s\<lparr>blocks := (blocks s)(blockinfo \<mapsto>
                     \<lparr>callStack = None, threadId = tid, serialNumber = m_requestCurr s,
                      size' = sz, reported = False, debugCrtAlloc = debugcrtalloc,
                      ucrt = ucrt'\<rparr>),
                 nextBlock := Suc (nextBlock s),
                 m_requestCurr := m_requestCurr s + 1\<rparr>;
          s2 = s1\<lparr>m_totalAlloc :=
                     (if SIZE_MAX - m_totalAlloc s1 > sz then m_totalAlloc s1 + sz
                      else SIZE_MAX)\<rparr>;
          s3 = s2\<lparr>m_curAlloc := m_curAlloc s2 + sz\<rparr>
      in if m_curAlloc s3 > m_maxAlloc s3 then s3\<lparr>m_maxAlloc := m_curAlloc s3\<rparr> else s3)"

text \<open>
  \<^verbatim>\<open>mapBlock\<close>, second half: the record is inserted into the heap's block map; an entry
  already at that address is reported, deleted and replaced.
\<close>

definition mapBlock_insert :: "HANDLE \<Rightarrow> LPCVOID \<Rightarrow> SIZE_T \<Rightarrow> bptr \<Rightarrow> vld \<Rightarrow> vld" where
  "mapBlock_insert heap mem sz blockinfo s =
     (let s5 = (case Map_find (m_heapMap s) heap of
                  None \<Rightarrow> mapHeap heap s
                | Some _ \<Rightarrow> s)
      in case Map_find (m_heapMap s5) heap of
           None \<Rightarrow> s5
         | Some heapinfo \<Rightarrow>
             (case Map_insert (blockMap heapinfo) mem blockinfo of
                Some bm \<Rightarrow>
                  s5\<lparr>m_heapMap :=
                       Map_update (m_heapMap s5) heap (heapinfo\<lparr>blockMap := bm\<rparr>)\<rparr>
              | None \<Rightarrow>
                  (case Map_find (blockMap heapinfo) mem of
                     None \<Rightarrow> s5
                   | Some old \<Rightarrow>
                       (case blocks s5 old of
                          None \<Rightarrow> s5
                        | Some info \<Rightarrow>
                            (let s6 = s5\<lparr>m_curAlloc := m_curAlloc s5 - size' info\<rparr>;
                                 s7 = Report (R_NewAllocAtAllocated mem (size' info) sz) s6;
                                 s8 = s7\<lparr>blocks := (blocks s7)(old := None)\<rparr>;
                                 bm1 = Map_erase (blockMap heapinfo) mem;
                                 bm2 = (case Map_insert bm1 mem blockinfo of
                                          Some bm \<Rightarrow> bm | None \<Rightarrow> bm1)
                             in s8\<lparr>m_heapMap :=
                                     Map_update (m_heapMap s8) heap
                                       (heapinfo\<lparr>blockMap := bm2\<rparr>)\<rparr>)))))"

text \<open>
  \<^verbatim>\<open>mapBlock\<close> returns the new record's pointer through its reference parameter
  \<^verbatim>\<open>pblockInfo\<close>; here it is the second component of the result.
\<close>

definition mapBlock ::
  "HANDLE \<Rightarrow> LPCVOID \<Rightarrow> SIZE_T \<Rightarrow> bool \<Rightarrow> bool \<Rightarrow> DWORD \<Rightarrow> vld \<Rightarrow> vld \<times> bptr" where
  "mapBlock heap mem sz debugcrtalloc ucrt' tid s =
     (let blockinfo = nextBlock s
      in (mapBlock_insert heap mem sz blockinfo (mapBlock_record sz debugcrtalloc ucrt' tid s),
          blockinfo))"

text \<open>
  \<^verbatim>\<open>findAllocedBlock\<close>: the first heap, in iteration order, whose block map has the
  address. The result is the record's pointer (\<open>None\<close> for \<^verbatim>\<open>NULL\<close>) and the out
  parameter \<^verbatim>\<open>heap\<close>, which stays \<^verbatim>\<open>NULL\<close> when nothing is found.
\<close>

fun findAllocedBlock_loop :: "HeapMap \<Rightarrow> LPCVOID \<Rightarrow> bptr option \<times> HANDLE" where
  "findAllocedBlock_loop [] mem = (None, 0)"
| "findAllocedBlock_loop (it # rest) mem =
     (case Map_find (blockMap (snd it)) mem of
        Some alloc_block \<Rightarrow> (Some alloc_block, fst it)
      | None \<Rightarrow> findAllocedBlock_loop rest mem)"

definition findAllocedBlock :: "vld \<Rightarrow> LPCVOID \<Rightarrow> bptr option \<times> HANDLE" where
  "findAllocedBlock s mem = findAllocedBlock_loop (m_heapMap s) mem"

text \<open>
  The lines of the cross-heap diagnostic of \<^verbatim>\<open>unmapBlock\<close>, in the order the code
  prints them.
\<close>

definition reportCrossHeapFree :: "env \<Rightarrow> LPCVOID \<Rightarrow> context_t \<Rightarrow> blockinfo_t \<Rightarrow> CallStack \<Rightarrow> vld \<Rightarrow> vld" where
  "reportCrossHeapFree e mem context alloc_block cs s =
     (let stack_here = getStackTrace e (m_maxTraceFrames s) context;
          ls = [R_CrossHeapFree,
                R_BlockHeader (serialNumber alloc_block) mem (size' alloc_block),
                R_TID (threadId alloc_block),
                R_CallStackHeading,
                R_Dump cs (VLD_OPT_TRACE_INTERNAL_FRAMES \<in> m_options s),
                R_DeallocationHeading,
                R_BlockHeader (serialNumber alloc_block) mem (size' alloc_block),
                R_CallStackHeading,
                R_Dump stack_here False]
               @ (if IsDebuggerPresent e then [R_DebugBreak] else [])
      in s\<lparr>reportLog := reportLog s @ ls\<rparr>)"

text \<open>
  A block-map entry whose pointer has no record in the free store cannot be dereferenced;
  it does not occur in a ledger built by these operations (see \<open>wf\<close> below), and the
  model leaves the state as it is there.
\<close>

definition unmapBlock :: "env \<Rightarrow> HANDLE \<Rightarrow> LPCVOID \<Rightarrow> context_t \<Rightarrow> vld \<Rightarrow> vld" where
  "unmapBlock e heap mem context s =
     (if mem = 0 then s
      else case Map_find (m_heapMap s) heap of
        None \<Rightarrow> s
      | Some heapinfo \<Rightarrow>
          (case Map_find (blockMap heapinfo) mem of
             None \<Rightarrow>
               (if VLD_OPT_VALIDATE_HEAPFREE \<in> m_options s then
                  (let (alloc_block, other_heap) = findAllocedBlock s mem;
                       diff = (other_heap \<noteq> heap)
                   in case alloc_block of
                        None \<Rightarrow> s
                      | Some p \<Rightarrow>
                          (case blocks s p of
                             None \<Rightarrow> s
                           | Some info \<Rightarrow>
                               (case callStack info of
                                  None \<Rightarrow> s
                                | Some cs \<Rightarrow>
                                    if diff then reportCrossHeapFree e mem context info cs s
                                    else s)))
                else s)
           | Some p \<Rightarrow>
               (case blocks s p of
                  None \<Rightarrow> s
                | Some info \<Rightarrow>
                    s\<lparr>m_curAlloc := m_curAlloc s - size' info,
                      blocks := (blocks s)(p := None),
                      m_heapMap :=
                        Map_update (m_heapMap s) heap
                          (heapinfo\<lparr>blockMap := Map_erase (blockMap heapinfo) mem\<rparr>)\<rparr>)))"

text \<open>
  \<^verbatim>\<open>remapBlock\<close>, the in-place update of the record \<open>info\<close> found at pointer \<open>p\<close>: the
  call stack is reset, the counters are adjusted, and the thread id and the size are
  overwritten.
\<close>

definition remapBlock_inplace :: "bptr \<Rightarrow> blockinfo_t \<Rightarrow> SIZE_T \<Rightarrow> DWORD \<Rightarrow> vld \<Rightarrow> vld" where
  "remapBlock_inplace p info sz tid s =
     (let info1 = info\<lparr>callStack := None\<rparr>;
          s1 = (if m_totalAlloc s < SIZE_MAX then
                  (let s0 = s\<lparr>m_totalAlloc := m_totalAlloc s - size' info1\<rparr>
                   in s0\<lparr>m_totalAlloc :=
                          (if SIZE_MAX - m_totalAlloc s0 > sz then m_totalAlloc s0 + sz
                           else SIZE_MAX)\<rparr>)
                else s);
          s2 = s1\<lparr>m_curAlloc := m_curAlloc s1 - size' info1\<rparr>;
          s3 = s2\<lparr>m_curAlloc := m_curAlloc s2 + sz\<rparr>;
          s4 = (if m_curAlloc s3 > m_maxAlloc s3 then s3\<lparr>m_maxAlloc := m_curAlloc s3\<rparr>
                else s3);
          info2 = info1\<lparr>threadId := tid\<rparr>;
          info3 = info2\<lparr>size' := sz\<rparr>
      in s4\<lparr>blocks := (blocks s4)(p \<mapsto> info3)\<rparr>)"

text \<open>
  \<^verbatim>\<open>remapBlock\<close> returns through \<^verbatim>\<open>pblockInfo\<close> the record it created or updated.
\<close>

definition remapBlock ::
  "env \<Rightarrow> HANDLE \<Rightarrow> LPCVOID \<Rightarrow> LPCVOID \<Rightarrow> SIZE_T \<Rightarrow> bool \<Rightarrow> bool \<Rightarrow> DWORD \<Rightarrow> context_t
     \<Rightarrow> vld \<Rightarrow> vld \<times> bptr option" where
  "remapBlock e heap mem newmem sz debugcrtalloc ucrt' tid context s =
     (let asNew = (\<lambda>s0. case mapBlock heap newmem sz debugcrtalloc ucrt' tid s0 of
                           (s1, p) \<Rightarrow> (s1, Some p))
      in if newmem \<noteq> mem then asNew (unmapBlock e heap mem context s)
         else case Map_find (m_heapMap s) heap of
           None \<Rightarrow> asNew s
         | Some heapinfo \<Rightarrow>
             (case Map_find (blockMap heapinfo) mem of
                None \<Rightarrow> asNew s
              | Some p \<Rightarrow>
                  (case blocks s p of
                     None \<Rightarrow> (s, None)
                   | Some info \<Rightarrow> (remapBlock_inplace p info sz tid s, Some p))))"

subsection \<open>Ledgers built by the operations\<close>

text \<open>
  The constructor \<^verbatim>\<open>VisualLeakDetector::VisualLeakDetector\<close>: an empty heap map, the
  serial counter at 1 and the three byte counters at 0. The options and limits come from
  the configuration.
\<close>

definition vld_init :: "vld_opt set \<Rightarrow> DWORD \<Rightarrow> SIZE_T \<Rightarrow> vld" where
  "vld_init opts maxTraceFrames maxDataDump =
     \<lparr>m_heapMap = [], blocks = Map.empty, nextBlock = 0, m_requestCurr = 1,
      m_totalAlloc = 0, m_curAlloc = 0, m_maxAlloc = 0, m_options = opts,
      m_maxTraceFrames = maxTraceFrames, m_maxDataDump = maxDataDump, reportLog = []\<rparr>"

datatype ledger_op =
    MapHeap HANDLE
  | MapBlock HANDLE LPCVOID SIZE_T bool bool DWORD
  | UnmapBlock HANDLE LPCVOID context_t
  | UnmapHeap HANDLE
  | RemapBlock HANDLE LPCVOID LPCVOID SIZE_T bool bool DWORD context_t

fun ledger_step :: "env \<Rightarrow> vld \<Rightarrow> ledger_op \<Rightarrow> vld" where
  "ledger_step e s (MapHeap heap) = mapHeap heap s"
| "ledger_step e s (MapBlock heap mem sz d u tid) = fst (mapBlock heap mem sz d u tid s)"
| "ledger_step e s (UnmapBlock heap mem c) = unmapBlock e heap mem c s"
| "ledger_step e s (UnmapHeap heap) = unmapHeap heap s"
| "ledger_step e s (RemapBlock heap mem newmem sz d u tid c) =
     fst (remapBlock e heap mem newmem sz d u tid c s)"

definition ledger_run :: "env \<Rightarrow> vld \<Rightarrow> ledger_op list \<Rightarrow> vld" where
  "ledger_run e s ops = foldl (ledger_step e) s ops"

text \<open>The pointers held by one block map, and by all of them, in iteration order.\<close>

definition heap_ptrs :: "heapinfo_t \<Rightarrow> bptr list" where
  "heap_ptrs heapinfo = map snd (blockMap heapinfo)"

definition block_ptrs :: "vld \<Rightarrow> bptr list" where
  "block_ptrs s = concat (map (\<lambda>it. heap_ptrs (snd it)) (m_heapMap s))"

definition size_at :: "(bptr \<Rightarrow> blockinfo_t option) \<Rightarrow> bptr \<Rightarrow> SIZE_T" where
  "size_at st p = (case st p of None \<Rightarrow> 0 | Some info \<Rightarrow> size' info)"

text \<open>The sum of the \<^verbatim>\<open>size\<close> fields of the records of a list of pointers, in \<^verbatim>\<open>SIZE_T\<close>.\<close>

definition sizes :: "(bptr \<Rightarrow> blockinfo_t option) \<Rightarrow> bptr list \<Rightarrow> SIZE_T" where
  "sizes st ps = sum_list (map (size_at st) ps)"

definition live_bytes :: "vld \<Rightarrow> SIZE_T" where
  "live_bytes s = sizes (blocks s) (block_ptrs s)"

definition heap_bytes :: "vld \<Rightarrow> HANDLE \<Rightarrow> SIZE_T" where
  "heap_bytes s heap =
     (case Map_find (m_heapMap s) heap of
        None \<Rightarrow> 0
      | Some heapinfo \<Rightarrow> sizes (blocks s) (heap_ptrs heapinfo))"

text \<open>
  Well-formed ledgers: keys are unique in the heap map and in every block map, every
  record of the free store is owned by exactly one block-map entry, and the allocator's
  next pointer is fresh.
\<close>

definition wf :: "vld \<Rightarrow> bool" where
  "wf s \<longleftrightarrow>
     distinct (map fst (m_heapMap s)) \<and>
     (\<forall>it \<in> set (m_heapMap s). distinct (map fst (blockMap (snd it)))) \<and>
     distinct (block_ptrs s) \<and>
     set (block_ptrs s) = dom (blocks s) \<and>
     (\<forall>p \<in> dom (blocks s). p < nextBlock s)"

subsection \<open>The leak reporter\<close>

text \<open>
  \<^verbatim>\<open>isDebugCrtAlloc\<close> may set the record's \<^verbatim>\<open>debugCrtAlloc\<close> and \<^verbatim>\<open>ucrt\<close> flags; the
  result is the returned flag and the record as it is left. The two header tests
  (\<^verbatim>\<open>_BLOCK_TYPE_IS_VALID(crtheader->use) && nValid && nSize == info->size\<close>, for the two
  header layouts) read the block's memory and are services of the environment.
\<close>

definition isDebugCrtAlloc :: "env \<Rightarrow> LPCVOID \<Rightarrow> blockinfo_t \<Rightarrow> bool \<times> blockinfo_t" where
  "isDebugCrtAlloc e block info =
     (let info1 = (if \<not> debugCrtAlloc info \<and> validCrtHeader e block (size' info)
                   then info\<lparr>debugCrtAlloc := True, ucrt := False\<rparr> else info);
          info2 = (if \<not> debugCrtAlloc info1 \<and> validUcrtHeader e block (size' info1)
                   then info1\<lparr>debugCrtAlloc := True, ucrt := True\<rparr> else info1)
      in (debugCrtAlloc info2, info2))"

text \<open>
  \<^verbatim>\<open>eraseDuplicates\<close>: the body of the inner loop for one entry \<open>blockit\<close> of the block
  map of heap \<open>h\<close>. An iterator is identified by the heap's handle and the block's
  address (keys are unique in both maps); \<open>element\<close> is the iterator of the leak whose
  duplicates are collected, \<open>elementinfo\<close> its record and \<open>ecs\<close> its call stack.
\<close>

definition eraseDuplicates_block ::
  "(bptr \<Rightarrow> blockinfo_t option) \<Rightarrow> HANDLE \<times> LPCVOID \<Rightarrow> blockinfo_t \<Rightarrow> CallStack \<Rightarrow> HANDLE
     \<Rightarrow> SIZE_T \<times> bptr set \<Rightarrow> LPCVOID \<times> bptr \<Rightarrow> SIZE_T \<times> bptr set" where
  "eraseDuplicates_block st element elementinfo ecs h acc blockit =
     (if (h, fst blockit) = element then acc
      else case st (snd blockit) of
        None \<Rightarrow> acc
      | Some info \<Rightarrow>
          (case callStack info of
             None \<Rightarrow> acc
           | Some cs \<Rightarrow>
               if snd blockit \<in> snd acc then acc
               else if size' info = size' elementinfo \<and> CallStack_eq cs ecs
                    then (fst acc + 1, insert (snd blockit) (snd acc))
                    else acc))"

text \<open>
  The result is the number of duplicates found and the aggregation set with them added.
\<close>

definition eraseDuplicates ::
  "vld \<Rightarrow> HANDLE \<times> LPCVOID \<Rightarrow> bptr \<Rightarrow> bptr set \<Rightarrow> SIZE_T \<times> bptr set" where
  "eraseDuplicates s element ep aggregatedLeaks =
     (case blocks s ep of
        None \<Rightarrow> (0, aggregatedLeaks)
      | Some elementinfo \<Rightarrow>
          (case callStack elementinfo of
             None \<Rightarrow> (0, aggregatedLeaks)
           | Some ecs \<Rightarrow>
               foldl (\<lambda>acc heapit.
                        foldl (eraseDuplicates_block (blocks s) element elementinfo ecs (fst heapit))
                          acc (blockMap (snd heapit)))
                 (0, aggregatedLeaks) (m_heapMap s)))"

text \<open>
  The variables of \<^verbatim>\<open>reportLeaks\<close> that live across iterations: the two reference
  parameters and the local counter.
\<close>

record report_vars =
  firstLeak :: bool
  aggregatedLeaks :: "bptr set"
  leaksFound :: SIZE_T

text \<open>
  \<^verbatim>\<open>reportLeaks\<close>, the part of the loop body after the filters (``It looks like a real
  memory leak''), for the entry \<open>blockit\<close> of the block map of heap \<open>heap\<close>: \<open>info\<close> is the
  entry's record, \<open>address\<close> and \<open>sz\<close> are the address and size to print.
\<close>

definition reportLeaks_leak ::
  "env \<Rightarrow> HANDLE \<Rightarrow> vld \<times> report_vars \<Rightarrow> LPCVOID \<times> bptr \<Rightarrow> blockinfo_t \<Rightarrow> LPCVOID \<Rightarrow> SIZE_T
     \<Rightarrow> vld \<times> report_vars" where
  "reportLeaks_leak e heap st blockit info address sz =
     (let s2 = (if firstLeak (snd st) then Report R_LeaksDetected (fst st) else fst st);
          v1 = (snd st)\<lparr>firstLeak := False\<rparr>;
          dup = (if VLD_OPT_AGGREGATE_DUPLICATES \<in> m_options s2
                 then eraseDuplicates s2 (heap, fst blockit) (snd blockit) (aggregatedLeaks v1)
                 else (0, aggregatedLeaks v1));
          blockLeaksCount = 1 + fst dup;
          callstackCRC = (case callStack info of None \<Rightarrow> 0
                          | Some cs \<Rightarrow> leakHash e (size' info) cs);
          entry = \<lparr>le_info = snd blockit,
                   le_serialNumber = serialNumber info,
                   le_address = address,
                   le_size = sz,
                   le_hash = callstackCRC,
                   le_count = blockLeaksCount,
                   le_total = sz * blockLeaksCount,
                   le_tid = (if blockLeaksCount = 1 then Some (threadId info) else None),
                   le_stack =
                     map_option (\<lambda>cs. (cs, VLD_OPT_TRACE_INTERNAL_FRAMES \<in> m_options s2))
                       (callStack info),
                   le_data =
                     (if m_maxDataDump s2 \<noteq> 0
                      then Some (VLD_OPT_UNICODE_REPORT \<in> m_options s2, address,
                                 if m_maxDataDump s2 < sz then m_maxDataDump s2 else sz)
                      else None)\<rparr>
      in (Report (R_Leak entry) s2,
          v1\<lparr>aggregatedLeaks := snd dup, leaksFound := leaksFound v1 + blockLeaksCount\<rparr>))"

text \<open>
  The body of the loop of \<^verbatim>\<open>reportLeaks\<close> for the entry \<open>blockit\<close> of the block map of
  heap \<open>heap\<close>; \<open>tid\<close> is the \<^verbatim>\<open>threadId\<close> parameter, \<open>(DWORD)-1\<close> meaning all threads.
  Each \<^verbatim>\<open>continue\<close> is a branch that returns the state reached so far.
\<close>

definition reportLeaks_block ::
  "env \<Rightarrow> DWORD \<Rightarrow> HANDLE \<Rightarrow> vld \<times> report_vars \<Rightarrow> LPCVOID \<times> bptr \<Rightarrow> vld \<times> report_vars" where
  "reportLeaks_block e tid heap st blockit =
     (let s = fst st; v = snd st; block = fst blockit; p = snd blockit
      in case blocks s p of
        None \<Rightarrow> st
      | Some info \<Rightarrow>
          if reported info then st
          else if tid \<noteq> - 1 \<and> threadId info \<noteq> tid then st
          else if p \<in> aggregatedLeaks v then st
          else
            (let crt = isDebugCrtAlloc e block info;
                 info1 = snd crt;
                 s1 = s\<lparr>blocks := (blocks s)(p \<mapsto> info1)\<rparr>
             in if fst crt \<and> crtUseFreeOrInternal e block (ucrt info1) then (s1, v)
                else
                  (let address = (if fst crt then CRTDBGBLOCKDATA e block else block);
                       sz = (if fst crt then getCrtBlockSize e block (ucrt info1)
                             else size' info1)
                   in if VLD_OPT_SKIP_CRTSTARTUP_LEAKS \<in> m_options s1 \<and>
                         (case callStack info1 of None \<Rightarrow> False
                          | Some cs \<Rightarrow> isCrtStartupAlloc e cs)
                      then (s1\<lparr>blocks := (blocks s1)(p \<mapsto> info1\<lparr>reported := True\<rparr>)\<rparr>, v)
                      else reportLeaks_leak e heap (s1, v) blockit info1 address sz)))"

text \<open>
  \<^verbatim>\<open>reportLeaks\<close> for the heap-map entry \<open>heapit\<close>: the result is the state, the two
  reference parameters as they are left, and the returned \<^verbatim>\<open>leaksFound\<close>.
\<close>

definition reportLeaks ::
  "env \<Rightarrow> DWORD \<Rightarrow> HANDLE \<times> heapinfo_t \<Rightarrow> vld \<times> bool \<times> bptr set
     \<Rightarrow> (vld \<times> bool \<times> bptr set) \<times> SIZE_T" where
  "reportLeaks e tid heapit st =
     (case st of (s, first, agg) \<Rightarrow>
        (case foldl (reportLeaks_block e tid (fst heapit))
                (s, \<lparr>firstLeak = first, aggregatedLeaks = agg, leaksFound = 0\<rparr>)
                (blockMap (snd heapit)) of
           (s', v) \<Rightarrow> ((s', firstLeak v, aggregatedLeaks v), leaksFound v)))"

text \<open>
  \<^verbatim>\<open>ReportLeaks\<close>: the state after the report and the returned count. The report covers
  all threads: \<^verbatim>\<open>reportLeaks\<close> is called without a thread id, and its tests against
  \<^verbatim>\<open>(DWORD)-1\<close> show that this is the value the omitted argument stands for.
\<close>

definition ReportLeaks_heap ::
  "env \<Rightarrow> (vld \<times> bool \<times> bptr set) \<times> SIZE_T \<Rightarrow> HANDLE \<times> heapinfo_t
     \<Rightarrow> (vld \<times> bool \<times> bptr set) \<times> SIZE_T" where
  "ReportLeaks_heap e acc heapit =
     (case reportLeaks e (- 1) heapit (fst acc) of
        (st, n) \<Rightarrow> (st, snd acc + n))"

definition ReportLeaks :: "env \<Rightarrow> vld \<Rightarrow> vld \<times> SIZE_T" where
  "ReportLeaks e s =
     (if VLD_OPT_VLDOFF \<in> m_options s then (s, 0)
      else case foldl (ReportLeaks_heap e) ((s, True, {}), 0) (m_heapMap s) of
             ((s', first, agg), leaksCount) \<Rightarrow> (s', leaksCount))"

text \<open>\<^verbatim>\<open>markAllLeaksAsReported\<close>: the loop body, the loop, and the public entry point.\<close>

definition markAllLeaksAsReported_block :: "DWORD \<Rightarrow> vld \<Rightarrow> LPCVOID \<times> bptr \<Rightarrow> vld" where
  "markAllLeaksAsReported_block tid s blockit =
     (case blocks s (snd blockit) of
        None \<Rightarrow> s
      | Some info \<Rightarrow>
          if tid = - 1 \<or> threadId info = tid
          then s\<lparr>blocks := (blocks s)(snd blockit \<mapsto> info\<lparr>reported := True\<rparr>)\<rparr>
          else s)"

definition markAllLeaksAsReported :: "DWORD \<Rightarrow> vld \<Rightarrow> HANDLE \<times> heapinfo_t \<Rightarrow> vld" where
  "markAllLeaksAsReported tid s heapit =
     foldl (markAllLeaksAsReported_block tid) s (blockMap (snd heapit))"

definition MarkAllLeaksAsReported :: "vld \<Rightarrow> vld" where
  "MarkAllLeaksAsReported s =
     (if VLD_OPT_VLDOFF \<in> m_options s then s
      else foldl (markAllLeaksAsReported (- 1)) s (m_heapMap s))"

text \<open>The leak entries among report lines, in order.\<close>

fun leak_entries :: "report list \<Rightarrow> leak_entry list" where
  "leak_entries [] = []"
| "leak_entries (R_Leak le # rs) = le # leak_entries rs"
| "leak_entries (r # rs) = leak_entries rs"

section \<open>The capture context\<close>









section \<open>The loader hook\<close>

text \<open>
  Process memory is a map from addresses to bytes. \<^verbatim>\<open>memset\<close> and \<^verbatim>\<open>memcpy\<close> write the
  \<open>n\<close> bytes from \<open>dst\<close> on (addresses wrap modulo \<open>2 ^ 64\<close>); \<^verbatim>\<open>memcpy\<close> reads its source
  from the memory as it is before the copy. \<open>store_bytes\<close> is \<^verbatim>\<open>memcpy\<close> from a local
  array, and \<open>load_DWORD\<close>, \<open>DWORD_bytes\<close> and \<open>SIZE_T_bytes\<close> are the little-endian
  accesses \<^verbatim>\<open>*(LPDWORD)p\<close>, \<^verbatim>\<open>*(DWORD*)p = v\<close> and \<^verbatim>\<open>*(PSIZE_T)p = v\<close>.
\<close>

type_synonym PBYTE = "64 word"
type_synonym memory = "PBYTE \<Rightarrow> BYTE"

definition memset :: "memory \<Rightarrow> PBYTE \<Rightarrow> BYTE \<Rightarrow> SIZE_T \<Rightarrow> memory" where
  "memset m dst v n = (\<lambda>a. if a - dst < n then v else m a)"

definition memcpy :: "memory \<Rightarrow> PBYTE \<Rightarrow> PBYTE \<Rightarrow> SIZE_T \<Rightarrow> memory" where
  "memcpy m dst src n = (\<lambda>a. if a - dst < n then m (src + (a - dst)) else m a)"

definition store_bytes :: "memory \<Rightarrow> PBYTE \<Rightarrow> BYTE list \<Rightarrow> memory" where
  "store_bytes m dst bs =
     (\<lambda>a. if unat (a - dst) < length bs then bs ! unat (a - dst) else m a)"

definition load_DWORD :: "memory \<Rightarrow> PBYTE \<Rightarrow> DWORD" where
  "load_DWORD m p =
     ucast (m p) OR push_bit 8 (ucast (m (p + 1))) OR push_bit 16 (ucast (m (p + 2)))
       OR push_bit 24 (ucast (m (p + 3)))"

definition DWORD_bytes :: "DWORD \<Rightarrow> BYTE list" where
  "DWORD_bytes v = map (\<lambda>i. ucast (drop_bit (8 * i) v)) [0..<4]"

definition SIZE_T_bytes :: "SIZE_T \<Rightarrow> BYTE list" where
  "SIZE_T_bytes v = map (\<lambda>i. ucast (drop_bit (8 * i) v)) [0..<8]"

text \<open>
  \<^verbatim>\<open>NTDLL_LDR_PATCH\<close>; \<open>pBackup\<close> is the array of \<open>0x20\<close> bytes.
\<close>

record NTDLL_LDR_PATCH =
  pPatchAddress :: PBYTE
  nPatchSize :: SIZE_T
  pBackup :: "BYTE list"
  pDetourAddress :: PBYTE
  nDetourSize :: SIZE_T
  bState :: bool

text \<open>
  The services of the operating system: \<^verbatim>\<open>VirtualQuery\<close> yields the base address and
  the size of the region of an address, or fails; \<^verbatim>\<open>VirtualProtect\<close> to
  \<^verbatim>\<open>PAGE_EXECUTE_READWRITE\<close> succeeds or fails for a range (the calls that put the old
  protection back have their result ignored by the code and are left out);
  \<^verbatim>\<open>LdrpCallInitRoutine\<close> is the address of the hook.
\<close>

record os =
  VirtualQuery :: "PBYTE \<Rightarrow> (PBYTE \<times> SIZE_T) option"
  VirtualProtect :: "PBYTE \<Rightarrow> SIZE_T \<Rightarrow> bool"
  LdrpCallInitRoutine :: SIZE_T

text \<open>
  \<^verbatim>\<open>NtDllFindDetourAddress\<close>: the loop walks \<open>begin\<close> down from the end of the region until
  \<open>dwSize\<close> zero bytes lie between \<open>begin\<close> and \<open>end\<close>, or \<open>begin\<close> reaches \<open>pAddress\<close>.
\<close>

function NtDllFindDetourAddress_loop ::
  "memory \<Rightarrow> PBYTE \<Rightarrow> SIZE_T \<Rightarrow> PBYTE \<Rightarrow> PBYTE \<Rightarrow> PBYTE" where
  "NtDllFindDetourAddress_loop m pAddress dwSize begin' end' =
     (if end' - begin' < dwSize \<and> begin' \<noteq> pAddress then
        (let begin1 = begin' - 1
         in NtDllFindDetourAddress_loop m pAddress dwSize begin1
              (if m begin1 \<noteq> 0 then begin1 else end'))
      else begin')"
  by pat_completeness auto

termination NtDllFindDetourAddress_loop
proof (relation "measure (\<lambda>(m, pAddress, dwSize, b, e). unat (b - pAddress))")
  show "Wellfounded.wf (measure (\<lambda>(m, pAddress, dwSize, b, e). unat (b - pAddress)))" by simp
next
  fix m :: memory and pAddress dwSize begin' end' begin1 :: PBYTE
  assume c: "end' - begin' < dwSize \<and> begin' \<noteq> pAddress" and b: "begin1 = begin' - 1"
  have "begin' - pAddress \<noteq> 0" using c by simp
  from measure_unat [OF this] have "unat (begin' - pAddress - 1) < unat (begin' - pAddress)" .
  moreover have "begin' - 1 - pAddress = begin' - pAddress - 1" by simp
  ultimately have "unat (begin' - 1 - pAddress) < unat (begin' - pAddress)" by (simp only:)
  then show "((m, pAddress, dwSize, begin1, if m begin1 \<noteq> 0 then begin1 else end'),
        (m, pAddress, dwSize, begin', end'))
      \<in> measure (\<lambda>(m, pAddress, dwSize, b, e). unat (b - pAddress))"
    by (simp add: b)
qed

definition NtDllFindDetourAddress :: "os \<Rightarrow> memory \<Rightarrow> PBYTE \<Rightarrow> SIZE_T \<Rightarrow> PBYTE" where
  "NtDllFindDetourAddress E m pAddress dwSize =
     (case VirtualQuery E pAddress of
        None \<Rightarrow> 0
      | Some (BaseAddress, RegionSize) \<Rightarrow>
          (let end' = BaseAddress + RegionSize;
               begin' = NtDllFindDetourAddress_loop m pAddress dwSize end' end'
           in if begin' \<noteq> pAddress then begin' else 0))"

text \<open>
  \<^verbatim>\<open>NtDllFindParamAddress\<close> and \<^verbatim>\<open>NtDllFindCallAddress\<close> (64-bit patterns): \<open>ptr\<close> is
  decremented first, and the loop runs while the signed distance \<^verbatim>\<open>pAddress - ptr\<close> is
  below \<open>0x20\<close>.
\<close>

definition param_pattern :: "memory \<Rightarrow> PBYTE \<Rightarrow> bool" where
  "param_pattern m ptr \<longleftrightarrow>
     (m ptr AND 0x4D) \<ge> 0x4C \<and> m (ptr + 1) = 0x8B \<and> (m (ptr + 2) AND 0xC7) = m (ptr + 2)"

function NtDllFindParamAddress_loop :: "memory \<Rightarrow> PBYTE \<Rightarrow> PBYTE \<Rightarrow> PBYTE" where
  "NtDllFindParamAddress_loop m pAddress ptr =
     (let ptr1 = ptr - 1
      in if pAddress - ptr1 <s 0x20 then
           (if param_pattern m ptr1 then ptr1
            else NtDllFindParamAddress_loop m pAddress ptr1)
         else 0)"
  by pat_completeness auto

termination NtDllFindParamAddress_loop
proof (relation "measure (\<lambda>(m, pAddress, ptr). nat (0x20 - sint (pAddress - (ptr - 1))))")
  show "Wellfounded.wf (measure (\<lambda>(m, pAddress, ptr). nat (0x20 - sint (pAddress - (ptr - 1)))))" by simp
next
  fix m :: memory and pAddress ptr ptr1 :: PBYTE
  assume p: "ptr1 = ptr - 1" and c: "pAddress - ptr1 <s 0x20"
  have s: "sint (pAddress - ptr1) < 0x20" using c by (simp add: word_sless_alt)
  have lo: "- (2 ^ 63) \<le> sint (pAddress - ptr1)" using sint_ge [of "pAddress - ptr1"] by simp
  have e: "pAddress - (ptr1 - 1) = (pAddress - ptr1) + 1" by simp
  have "sint (pAddress - ptr1 + 1) = signed_take_bit 63 (sint (pAddress - ptr1) + 1)"
    by (simp add: sint_word_add)
  also have "\<dots> = sint (pAddress - ptr1) + 1"
    by (rule signed_take_bit_int_eq_self) (use lo s in simp_all)
  finally have "sint (pAddress - (ptr1 - 1)) = sint (pAddress - ptr1) + 1" by (simp only: e)
  then have "nat (0x20 - sint (pAddress - (ptr1 - 1))) < nat (0x20 - sint (pAddress - ptr1))"
    using s by simp
  then show "((m, pAddress, ptr1), (m, pAddress, ptr))
      \<in> measure (\<lambda>(m, pAddress, ptr). nat (0x20 - sint (pAddress - (ptr - 1))))"
    by (simp add: p)
qed

definition NtDllFindParamAddress :: "memory \<Rightarrow> PBYTE \<Rightarrow> PBYTE" where
  "NtDllFindParamAddress m pAddress = NtDllFindParamAddress_loop m pAddress pAddress"

definition call_pattern :: "memory \<Rightarrow> PBYTE \<Rightarrow> bool" where
  "call_pattern m ptr \<longleftrightarrow> m ptr = 0xFF \<and> (m (ptr + 1) AND 0xD7) = m (ptr + 1)"

function NtDllFindCallAddress_loop :: "memory \<Rightarrow> PBYTE \<Rightarrow> PBYTE \<Rightarrow> PBYTE" where
  "NtDllFindCallAddress_loop m pAddress ptr =
     (let ptr1 = ptr - 1
      in if pAddress - ptr1 <s 0x20 then
           (if call_pattern m ptr1 then
              (if (m (ptr1 - 1) AND 0x41) = m (ptr1 - 1) then ptr1 - 1 else ptr1)
            else NtDllFindCallAddress_loop m pAddress ptr1)
         else 0)"
  by pat_completeness auto

termination NtDllFindCallAddress_loop
proof (relation "measure (\<lambda>(m, pAddress, ptr). nat (0x20 - sint (pAddress - (ptr - 1))))")
  show "Wellfounded.wf (measure (\<lambda>(m, pAddress, ptr). nat (0x20 - sint (pAddress - (ptr - 1)))))" by simp
next
  fix m :: memory and pAddress ptr ptr1 :: PBYTE
  assume p: "ptr1 = ptr - 1" and c: "pAddress - ptr1 <s 0x20"
  have s: "sint (pAddress - ptr1) < 0x20" using c by (simp add: word_sless_alt)
  have lo: "- (2 ^ 63) \<le> sint (pAddress - ptr1)" using sint_ge [of "pAddress - ptr1"] by simp
  have e: "pAddress - (ptr1 - 1) = (pAddress - ptr1) + 1" by simp
  have "sint (pAddress - ptr1 + 1) = signed_take_bit 63 (sint (pAddress - ptr1) + 1)"
    by (simp add: sint_word_add)
  also have "\<dots> = sint (pAddress - ptr1) + 1"
    by (rule signed_take_bit_int_eq_self) (use lo s in simp_all)
  finally have "sint (pAddress - (ptr1 - 1)) = sint (pAddress - ptr1) + 1" by (simp only: e)
  then have "nat (0x20 - sint (pAddress - (ptr1 - 1))) < nat (0x20 - sint (pAddress - ptr1))"
    using s by simp
  then show "((m, pAddress, ptr1), (m, pAddress, ptr))
      \<in> measure (\<lambda>(m, pAddress, ptr). nat (0x20 - sint (pAddress - (ptr - 1))))"
    by (simp add: p)
qed

definition NtDllFindCallAddress :: "memory \<Rightarrow> PBYTE \<Rightarrow> PBYTE" where
  "NtDllFindCallAddress m pAddress = NtDllFindCallAddress_loop m pAddress pAddress"

text \<open>
  \<^verbatim>\<open>NtDllPatch\<close> (64-bit build) on the memory and the patch record; the result is the
  memory and the record as they are left, and the returned \<^verbatim>\<open>BOOL\<close>. \<open>write_detour\<close> is
  the block that fills the detour, \<open>write_patch\<close> the block that overwrites the call
  site. \<open>backup_bytes\<close> is \<^verbatim>\<open>memcpy(pBackup, pPatchAddress, nPatchSize)\<close>: the patch
  address was found at most \<open>0x1F\<close> bytes below the return address, so the copy fits the
  array.
\<close>

definition backup_bytes :: "memory \<Rightarrow> PBYTE \<Rightarrow> SIZE_T \<Rightarrow> BYTE list \<Rightarrow> BYTE list" where
  "backup_bytes m src n old =
     map (\<lambda>i. if of_nat i < n then m (src + of_nat i) else old ! i) [0..<length old]"

definition write_detour ::
  "os \<Rightarrow> PBYTE \<Rightarrow> PBYTE \<Rightarrow> SIZE_T \<Rightarrow> NTDLL_LDR_PATCH \<Rightarrow> memory \<Rightarrow> memory" where
  "write_detour E pReturnAddress pCallAddress nParamSize p m =
     (let m1 = memset m (pDetourAddress p) 0x90 (nDetourSize p);
          m2 = memcpy m1 (pDetourAddress p) (pPatchAddress p) nParamSize;
          icall = pPatchAddress p + nParamSize - 7;
          guarded = (load_DWORD m2 icall AND 0x000D8B4C = 0x000D8B4C);
          fptr = load_DWORD m2 (icall + 3) + 7 - ucast (pDetourAddress p - pPatchAddress p);
          m3 = (if guarded
                then store_bytes m2 (pDetourAddress p + nParamSize - 4) (DWORD_bytes fptr)
                else m2);
          reg = (if guarded
                 then (if m3 (icall - 3) AND 0xF1 = 0x41 then 0x08 else 0x00)
                        + (m3 (icall - 1) AND 0x07)
                 else (if m3 pCallAddress AND 0xF1 = 0x41 then 0x08 else 0x00)
                        + (m3 (pCallAddress + (pReturnAddress - pCallAddress - 1)) AND 0x07));
          ptr = [0x4C + (if reg AND 0x08 \<noteq> 0 then 0x01 else 0x00), 0x8B, 0xC8 + (reg AND 0x07)];
          m4 = store_bytes m3 (pDetourAddress p + nParamSize) ptr;
          mov = [0x48, 0xB8] @ SIZE_T_bytes (LdrpCallInitRoutine E);
          m5 = store_bytes m4 (pDetourAddress p + (3 + nParamSize)) mov;
          jmp = [0xE9] @ DWORD_bytes
                  (ucast (pReturnAddress - 2 - (pDetourAddress p + nDetourSize p)))
      in store_bytes m5 (pDetourAddress p + (3 + nParamSize + 10)) jmp)"

definition write_patch :: "PBYTE \<Rightarrow> NTDLL_LDR_PATCH \<Rightarrow> memory \<Rightarrow> memory" where
  "write_patch pReturnAddress p m =
     (let m1 = memset m (pPatchAddress p) 0x90 (nPatchSize p);
          jmp = [0xE9] @ DWORD_bytes (ucast (pDetourAddress p - (pReturnAddress - 2)));
          m2 = store_bytes m1 (pReturnAddress - 2 - 5) jmp
      in store_bytes m2 (pReturnAddress - 2) [0xFF, 0xD0])"

definition NtDllPatch ::
  "os \<Rightarrow> PBYTE \<Rightarrow> memory \<times> NTDLL_LDR_PATCH \<Rightarrow> (memory \<times> NTDLL_LDR_PATCH) \<times> bool" where
  "NtDllPatch E pReturnAddress st =
     (let m = fst st; p = snd st
      in if \<not> bState p then
           (let p1 = p\<lparr>pPatchAddress := NtDllFindParamAddress m pReturnAddress\<rparr>;
                pCallAddress = NtDllFindCallAddress m pReturnAddress;
                p2 = p1\<lparr>nPatchSize := pReturnAddress - pPatchAddress p1\<rparr>;
                nParamSize = pCallAddress - pPatchAddress p2;
                p3 = p2\<lparr>nDetourSize := 3 + nParamSize + 10 + 5\<rparr>;
                p4 = p3\<lparr>pDetourAddress :=
                          NtDllFindDetourAddress E m pReturnAddress (nDetourSize p3)\<rparr>
            in if pPatchAddress p4 \<noteq> 0 \<and> pDetourAddress p4 \<noteq> 0 \<and> 5 + 2 \<le> nPatchSize p4 then
                 (let p5 = p4\<lparr>pBackup :=
                              backup_bytes m (pPatchAddress p4) (nPatchSize p4) (pBackup p4)\<rparr>
                  in if VirtualProtect E (pDetourAddress p5) (nDetourSize p5) then
                       (let m1 = write_detour E pReturnAddress pCallAddress nParamSize p5 m
                        in if VirtualProtect E (pPatchAddress p5) (nPatchSize p5) then
                             (let m2 = write_patch pReturnAddress p5 m1;
                                  p6 = p5\<lparr>bState := True\<rparr>
                              in ((m2, p6), bState p6))
                           else ((m1, p5), bState p5))
                     else ((m, p5), bState p5))
               else ((m, p4), bState p4))
         else ((m, p), bState p))"

text \<open>
  \<^verbatim>\<open>NtDllRestore\<close>. The test \<^verbatim>\<open>&NtDllPatch.pBackup[0]\<close> is true of every record. The copy
  reads \<open>nPatchSize\<close> bytes of \<open>pBackup\<close>; beyond the array the behaviour of the source is
  undefined, and the result is \<open>None\<close>.
\<close>

definition NtDllRestore ::
  "os \<Rightarrow> memory \<times> NTDLL_LDR_PATCH \<Rightarrow> ((memory \<times> NTDLL_LDR_PATCH) \<times> bool) option" where
  "NtDllRestore E st =
     (let m = fst st; p = snd st
      in if bState p \<and> nPatchSize p \<noteq> 0 then
           (if VirtualProtect E (pPatchAddress p) (nPatchSize p) then
              (if unat (nPatchSize p) \<le> length (pBackup p) then
                 (let m1 = store_bytes m (pPatchAddress p) (take (unat (nPatchSize p)) (pBackup p))
                  in if VirtualProtect E (pDetourAddress p) (nDetourSize p) then
                       Some ((memset m1 (pDetourAddress p) 0x00 (nDetourSize p), p), True)
                     else Some ((m1, p), False))
               else None)
            else Some ((m, p), False))
         else Some ((m, p), False))"

subsection \<open>Example data\<close>

text \<open>
  An environment without CRT debug headers or CRT-startup stacks, whose stack walker
  returns the one frame address of the context.
\<close>

definition env0 :: env where
  "env0 = \<lparr>getStackTrace = (\<lambda>n c. CallStack [fp c]), IsDebuggerPresent = False,
     isCrtStartupAlloc = (\<lambda>cs. False), leakHash = (\<lambda>sz cs. 0),
     validCrtHeader = (\<lambda>b sz. False), validUcrtHeader = (\<lambda>b sz. False),
     crtUseFreeOrInternal = (\<lambda>b u. False), getCrtBlockSize = (\<lambda>b u. 0),
     CRTDBGBLOCKDATA = (\<lambda>b. b), IsExcludedModule = (\<lambda>a. False)\<rparr>"

definition ctx0 :: context_t where
  "ctx0 = \<lparr>fp = 0, func = 0, Rbp = 0, Rsp = 0, Rip = 0\<rparr>"

definition info0 :: blockinfo_t where
  "info0 = \<lparr>callStack = Some (CallStack [1, 2, 3]), threadId = 1, serialNumber = 1,
     size' = 64, reported = False, debugCrtAlloc = False, ucrt = False\<rparr>"

text \<open>One heap 0x10 holding one block of 64 bytes at 0x1000, allocated by thread 1.\<close>

definition ledger0 :: vld where
  "ledger0 = \<lparr>m_heapMap = [(0x10, \<lparr>blockMap = [(0x1000, 0)], flags = 0\<rparr>)],
     blocks = [0 \<mapsto> info0], nextBlock = 1, m_requestCurr = 2,
     m_totalAlloc = 64, m_curAlloc = 64, m_maxAlloc = 64, m_options = {},
     m_maxTraceFrames = 64, m_maxDataDump = 256, reportLog = []\<rparr>"

text \<open>Four operations on the single heap 0x10; 32 + 128 bytes stay live.\<close>

definition ops0 :: "ledger_op list" where
  "ops0 = [MapBlock 0x10 0x1000 64 False False 1, MapBlock 0x10 0x2000 32 False False 1,
           UnmapBlock 0x10 0x1000 ctx0, MapBlock 0x10 0x1000 128 False False 2]"

text \<open>The example ledger after a further block of \<^verbatim>\<open>SIZE_MAX\<close> bytes is mapped at 0x2000.\<close>

definition ledger_big :: vld where
  "ledger_big = fst (mapBlock 0x10 0x2000 (- 1) False False 1 ledger0)"

text \<open>
  Cross-heap validation enabled: the example ledger with a second, empty heap 0x20; the
  example ledger as it is (heap 0x20 has no block map); and the two-heap ledger with the
  block's call stack not yet attached.
\<close>

definition ledger_two :: vld where
  "ledger_two = ledger0\<lparr>m_heapMap := m_heapMap ledger0 @ [(0x20, \<lparr>blockMap = [], flags = 0\<rparr>)],
                         m_options := {VLD_OPT_VALIDATE_HEAPFREE}\<rparr>"

definition ledger_validate :: vld where
  "ledger_validate = ledger0\<lparr>m_options := {VLD_OPT_VALIDATE_HEAPFREE}\<rparr>"

definition ledger_two_nostack :: vld where
  "ledger_two_nostack = ledger_two\<lparr>blocks := [0 \<mapsto> info0\<lparr>callStack := None\<rparr>]\<rparr>"

text \<open>
  The example ledger after all leaks are marked as reported and thread 2 then maps 32
  bytes at 0x2000; the new record; and the same ledger with the new record's call stack
  attached.
\<close>

definition ledger_marked :: vld where
  "ledger_marked = fst (mapBlock 0x10 0x2000 32 False False 2 (MarkAllLeaksAsReported ledger0))"

definition info_new :: blockinfo_t where
  "info_new = \<lparr>callStack = None, threadId = 2, serialNumber = 2, size' = 32,
     reported = False, debugCrtAlloc = False, ucrt = False\<rparr>"

definition ledger_stacked :: vld where
  "ledger_stacked =
     ledger_marked\<lparr>blocks := (blocks ledger_marked)(1 \<mapsto> info_new\<lparr>callStack := Some (CallStack [7])\<rparr>)\<rparr>"









text \<open>
  A memory with the parameter move \<^verbatim>\<open>4C 8B C3\<close> at 0xFF4 and the call \<^verbatim>\<open>FF D0\<close> at
  0xFFE, before the return address 0x1000, no-ops around them and zero bytes elsewhere;
  an operating system whose regions all end at 0x2000 and whose protection changes
  succeed; and the patch record as it is initialised.
\<close>

definition mem0 :: memory where
  "mem0 = (\<lambda>a. if a = 0xFF4 then 0x4C else if a = 0xFF5 then 0x8B else if a = 0xFF6 then 0xC3
           else if a = 0xFFE then 0xFF else if a = 0xFFF then 0xD0
           else if 0xF00 \<le> a \<and> a < 0x1000 then 0x90 else 0)"

definition os0 :: os where
  "os0 = \<lparr>VirtualQuery = (\<lambda>a. Some (0, 0x2000)), VirtualProtect = (\<lambda>a n. True),
     LdrpCallInitRoutine = 0x1122334455667788\<rparr>"

definition patch0 :: NTDLL_LDR_PATCH where
  "patch0 = \<lparr>pPatchAddress = 0, nPatchSize = 0, pBackup = replicate 0x20 0, pDetourAddress = 0,
     nDetourSize = 0, bState = False\<rparr>"

subsection \<open>Auxiliary notions for the proofs\<close>

text \<open>The pointers held by the block maps of a heap map, in iteration order.\<close>

definition ptrs_of :: "HeapMap \<Rightarrow> bptr list" where
  "ptrs_of hm = concat (map (\<lambda>it. heap_ptrs (snd it)) hm)"

text \<open>Keys are unique in the heap map and in each of its block maps.\<close>

definition keys_ok :: "HeapMap \<Rightarrow> bool" where
  "keys_ok hm \<longleftrightarrow> distinct (map fst hm) \<and> (\<forall>it \<in> set hm. distinct (map fst (blockMap (snd it))))"

text \<open>
  The ledger is well formed and the live-bytes counter is the sum of the live sizes plus
  a fixed offset \<open>k\<close> (0 for ledgers built from the constructor's state).
\<close>

definition ledger_inv :: "SIZE_T \<Rightarrow> vld \<Rightarrow> bool" where
  "ledger_inv k s \<longleftrightarrow> wf s \<and> m_curAlloc s = live_bytes s + k"

text \<open>The heap an operation is applied to.\<close>

fun op_heap :: "ledger_op \<Rightarrow> HANDLE" where
  "op_heap (MapHeap heap) = heap"
| "op_heap (MapBlock heap mem sz d u tid) = heap"
| "op_heap (UnmapBlock heap mem c) = heap"
| "op_heap (UnmapHeap heap) = heap"
| "op_heap (RemapBlock heap mem newmem sz d u tid c) = heap"

text \<open>A record that is absent or already reported makes the loop body a no-op.\<close>

definition skipped :: "vld \<Rightarrow> bptr \<Rightarrow> bool" where
  "skipped s p \<longleftrightarrow> (case blocks s p of None \<Rightarrow> True | Some info \<Rightarrow> reported info)"

text \<open>
  A record that passes the two filters of \<^verbatim>\<open>reportLeaks\<close>: it is not a CRT block in
  free or internal use, and it is not a CRT-startup allocation while these are skipped.
\<close>

definition genuine :: "env \<Rightarrow> vld_opt set \<Rightarrow> LPCVOID \<Rightarrow> blockinfo_t \<Rightarrow> bool" where
  "genuine e opts block info \<longleftrightarrow>
     \<not> (fst (isDebugCrtAlloc e block info) \<and>
        crtUseFreeOrInternal e block (ucrt (snd (isDebugCrtAlloc e block info)))) \<and>
     \<not> (VLD_OPT_SKIP_CRTSTARTUP_LEAKS \<in> opts \<and>
        (case callStack info of None \<Rightarrow> False | Some cs \<Rightarrow> isCrtStartupAlloc e cs))"

text \<open>
  The entries of all block maps in the order \<^verbatim>\<open>ReportLeaks\<close> visits them, each with its
  heap's handle, and the loop body of \<^verbatim>\<open>reportLeaks\<close> on such an entry.
\<close>

definition heap_entries :: "HANDLE \<times> heapinfo_t \<Rightarrow> (HANDLE \<times> LPCVOID \<times> bptr) list" where
  "heap_entries heapit = map (\<lambda>b. (fst heapit, b)) (blockMap (snd heapit))"

definition all_entries :: "HeapMap \<Rightarrow> (HANDLE \<times> LPCVOID \<times> bptr) list" where
  "all_entries hm = concat (map heap_entries hm)"

definition report_step ::
  "env \<Rightarrow> vld \<times> report_vars \<Rightarrow> HANDLE \<times> LPCVOID \<times> bptr \<Rightarrow> vld \<times> report_vars" where
  "report_step e st en = reportLeaks_block e (- 1) (fst en) st (snd en)"

definition pack :: "(vld \<times> bool \<times> bptr set) \<times> SIZE_T \<Rightarrow> vld \<times> report_vars" where
  "pack acc =
     (fst (fst acc),
      \<lparr>firstLeak = fst (snd (fst acc)), aggregatedLeaks = snd (snd (fst acc)),
       leaksFound = snd acc\<rparr>)"

text \<open>
  What \<^verbatim>\<open>reportLeaks\<close> does with a record that reaches the filters, in terms of the
  record \<open>j\<close> that \<^verbatim>\<open>isDebugCrtAlloc\<close> leaves: \<open>after_filters\<close> is the record left behind,
  \<open>visit\<close> the whole effect. \<open>touch\<close> is the record left behind by a visit that is not
  stopped by the aggregation set.
\<close>

definition crt_filtered :: "env \<Rightarrow> LPCVOID \<Rightarrow> blockinfo_t \<Rightarrow> bool" where
  "crt_filtered e a j \<longleftrightarrow> debugCrtAlloc j \<and> crtUseFreeOrInternal e a (ucrt j)"

definition crt_startup :: "env \<Rightarrow> vld_opt set \<Rightarrow> blockinfo_t \<Rightarrow> bool" where
  "crt_startup e opts j \<longleftrightarrow>
     VLD_OPT_SKIP_CRTSTARTUP_LEAKS \<in> opts \<and>
     (case callStack j of None \<Rightarrow> False | Some cs \<Rightarrow> isCrtStartupAlloc e cs)"

definition after_filters :: "env \<Rightarrow> vld_opt set \<Rightarrow> LPCVOID \<Rightarrow> blockinfo_t \<Rightarrow> blockinfo_t" where
  "after_filters e opts a j =
     (if crt_filtered e a j then j
      else if crt_startup e opts j then j\<lparr>reported := True\<rparr> else j)"

definition touch :: "env \<Rightarrow> vld_opt set \<Rightarrow> LPCVOID \<Rightarrow> blockinfo_t \<Rightarrow> blockinfo_t" where
  "touch e opts a i =
     (if reported i then i else after_filters e opts a (snd (isDebugCrtAlloc e a i)))"

definition visit ::
  "env \<Rightarrow> HANDLE \<Rightarrow> LPCVOID \<Rightarrow> bptr \<Rightarrow> vld \<times> report_vars \<Rightarrow> blockinfo_t \<Rightarrow> vld \<times> report_vars" where
  "visit e h a p st j =
     (let s1 = (fst st)\<lparr>blocks := (blocks (fst st))(p \<mapsto> j)\<rparr>
      in if crt_filtered e a j then (s1, snd st)
         else if crt_startup e (m_options (fst st)) j
              then (s1\<lparr>blocks := (blocks s1)(p \<mapsto> j\<lparr>reported := True\<rparr>)\<rparr>, snd st)
              else reportLeaks_leak e h (s1, snd st) (a, p) j
                     (if debugCrtAlloc j then CRTDBGBLOCKDATA e a else a)
                     (if debugCrtAlloc j then getCrtBlockSize e a (ucrt j) else size' j))"

text \<open>The fields of a record that \<^verbatim>\<open>eraseDuplicates\<close> reads.\<close>

definition dup_key :: "blockinfo_t \<Rightarrow> SIZE_T \<times> CallStack option" where
  "dup_key i = (size' i, callStack i)"

text \<open>The pointer and the address of an entry.\<close>

definition en_ptr :: "HANDLE \<times> LPCVOID \<times> bptr \<Rightarrow> bptr" where
  "en_ptr en = snd (snd en)"

definition en_addr :: "HANDLE \<times> LPCVOID \<times> bptr \<Rightarrow> LPCVOID" where
  "en_addr en = fst (snd en)"

text \<open>
  Two stores that agree, for every entry, up to what a visit of that entry would leave.
\<close>

definition touch_eq ::
  "env \<Rightarrow> vld_opt set \<Rightarrow> (HANDLE \<times> LPCVOID \<times> bptr) list
     \<Rightarrow> (bptr \<Rightarrow> blockinfo_t option) \<Rightarrow> (bptr \<Rightarrow> blockinfo_t option) \<Rightarrow> bool" where
  "touch_eq e opts ents st st' \<longleftrightarrow>
     (\<forall>en \<in> set ents.
        map_option (touch e opts (en_addr en)) (st (en_ptr en))
          = map_option (touch e opts (en_addr en)) (st' (en_ptr en)))"

text \<open>
  The record, with its pointer, that the ledger holds for an address of a heap, if any.
\<close>

definition tracked :: "vld \<Rightarrow> HANDLE \<Rightarrow> LPCVOID \<Rightarrow> (bptr \<times> blockinfo_t) option" where
  "tracked s heap mem =
     (case Map_find (m_heapMap s) heap of
        None \<Rightarrow> None
      | Some heapinfo \<Rightarrow>
          (case Map_find (blockMap heapinfo) mem of
             None \<Rightarrow> None
           | Some p \<Rightarrow> map_option (Pair p) (blocks s p)))"

text \<open>
  The exact (unbounded) sum of the sizes of the records in the free store, and the
  invariant that the total-allocated counter is saturated or at least that sum.
\<close>

definition store_nat :: "(bptr \<Rightarrow> blockinfo_t option) \<Rightarrow> nat" where
  "store_nat st = (\<Sum>p \<in> dom st. unat (size_at st p))"

definition total_inv :: "vld \<Rightarrow> bool" where
  "total_inv s \<longleftrightarrow>
     wf s \<and> (m_totalAlloc s = SIZE_MAX \<or> store_nat (blocks s) \<le> unat (m_totalAlloc s))"

text \<open>
  The second store holds the same records as the first, with the same call stacks, and
  the \<^verbatim>\<open>reported\<close> flag newly set only on records that are CRT-startup allocations
  while these are skipped.
\<close>

definition flag_rel ::
  "env \<Rightarrow> vld_opt set \<Rightarrow> (bptr \<Rightarrow> blockinfo_t option) \<Rightarrow> (bptr \<Rightarrow> blockinfo_t option) \<Rightarrow> bool" where
  "flag_rel e opts st st' \<longleftrightarrow>
     (\<forall>p. case st p of
            None \<Rightarrow> st' p = None
          | Some i \<Rightarrow>
              (\<exists>i1. st' p = Some i1 \<and> callStack i1 = callStack i \<and>
                    (reported i1 \<longrightarrow> reported i \<or> crt_startup e opts i)))"

text \<open>
  The duplicates of a leak, as \<^verbatim>\<open>eraseDuplicates\<close> recognises them: the records with a
  given size and a call stack equal to a given one; and the pointers of all such
  records of the ledger, in iteration order.
\<close>

definition has_key :: "(bptr \<Rightarrow> blockinfo_t option) \<Rightarrow> SIZE_T \<Rightarrow> CallStack \<Rightarrow> bptr \<Rightarrow> bool" where
  "has_key st sz cs p \<longleftrightarrow>
     (case st p of
        None \<Rightarrow> False
      | Some i \<Rightarrow> size' i = sz \<and>
          (case callStack i of None \<Rightarrow> False | Some cs' \<Rightarrow> CallStack_eq cs' cs))"

definition duplicates :: "vld \<Rightarrow> SIZE_T \<Rightarrow> CallStack \<Rightarrow> bptr list" where
  "duplicates s sz cs = filter (has_key (blocks s) sz cs) (block_ptrs s)"

text \<open>The step of \<^verbatim>\<open>eraseDuplicates\<close> on an entry of the flattened heap map.\<close>

definition erase_step ::
  "(bptr \<Rightarrow> blockinfo_t option) \<Rightarrow> HANDLE \<times> LPCVOID \<Rightarrow> blockinfo_t \<Rightarrow> CallStack
     \<Rightarrow> SIZE_T \<times> bptr set \<Rightarrow> HANDLE \<times> LPCVOID \<times> bptr \<Rightarrow> SIZE_T \<times> bptr set" where
  "erase_step st element elementinfo ecs acc en =
     eraseDuplicates_block st element elementinfo ecs (fst en) acc (snd en)"

text \<open>The leak entries that the report has gained between two states.\<close>

definition new_entries :: "vld \<Rightarrow> vld \<Rightarrow> leak_entry list" where
  "new_entries s s' = leak_entries (drop (length (reportLog s)) (reportLog s'))"

section \<open>The ledger invariant\<close>

lemma Map_find_split:
  "distinct (map fst m) \<Longrightarrow> Map_find m k = Some v \<Longrightarrow>
   \<exists>xs ys. m = xs @ (k, v) # ys \<and> k \<notin> fst ` set xs \<and> k \<notin> fst ` set ys"
proof -
  assume d: "distinct (map fst m)" and f: "Map_find m k = Some v"
  from f have "(k, v) \<in> set m" by (simp add: Map_find_def map_of_SomeD)
  then obtain xs ys where m: "m = xs @ (k, v) # ys" by (auto dest: split_list)
  from d have "k \<notin> set (map fst xs)" "k \<notin> set (map fst ys)" unfolding m by auto
  with m show ?thesis by auto
qed

lemma Map_update_absent: "k \<notin> fst ` set xs \<Longrightarrow> Map_update xs k v = xs"
  by (induction xs) (auto simp: Map_update_def)

lemma Map_erase_absent: "k \<notin> fst ` set xs \<Longrightarrow> Map_erase xs k = xs"
  by (induction xs) (auto simp: Map_erase_def)

lemma Map_update_append: "Map_update (xs @ ys) k v = Map_update xs k v @ Map_update ys k v"
  by (simp add: Map_update_def)

lemma Map_erase_append: "Map_erase (xs @ ys) k = Map_erase xs k @ Map_erase ys k"
  by (simp add: Map_erase_def)

lemma Map_update_Cons:
  "Map_update (e # ys) k v = (if fst e = k then (k, v) else e) # Map_update ys k v"
  by (simp add: Map_update_def)

lemma Map_erase_Cons:
  "Map_erase (e # ys) k = (if fst e = k then Map_erase ys k else e # Map_erase ys k)"
  by (simp add: Map_erase_def)

lemma Map_update_split:
  "k \<notin> fst ` set xs \<Longrightarrow> k \<notin> fst ` set ys \<Longrightarrow>
   Map_update (xs @ (k, v) # ys) k v' = xs @ (k, v') # ys"
  by (simp add: Map_update_append Map_update_Cons Map_update_absent)

lemma Map_erase_split:
  "k \<notin> fst ` set xs \<Longrightarrow> k \<notin> fst ` set ys \<Longrightarrow>
   Map_erase (xs @ (k, v) # ys) k = xs @ ys"
  by (simp add: Map_erase_append Map_erase_Cons Map_erase_absent)

lemma Map_find_None: "Map_find m k = None \<longleftrightarrow> k \<notin> fst ` set m"
  by (simp add: Map_find_def map_of_eq_None_iff)

lemma Map_find_Some_mem: "Map_find m k = Some v \<Longrightarrow> (k, v) \<in> set m"
  by (simp add: Map_find_def map_of_SomeD)

lemma Map_insert_Some:
  "Map_insert m k v = Some m' \<longleftrightarrow> k \<notin> fst ` set m \<and> m' = m @ [(k, v)]"
  by (auto simp: Map_insert_def map_of_eq_None_iff [symmetric] split: option.splits)

lemma Map_insert_None: "Map_insert m k v = None \<longleftrightarrow> k \<in> fst ` set m"
  using map_of_eq_None_iff [of m k] by (cases "map_of m k") (auto simp: Map_insert_def)

lemma sizes_Nil [simp]: "sizes st [] = 0"
  by (simp add: sizes_def)

lemma sizes_Cons [simp]: "sizes st (p # ps) = size_at st p + sizes st ps"
  by (simp add: sizes_def)

lemma sizes_append [simp]: "sizes st (ps @ qs) = sizes st ps + sizes st qs"
  by (simp add: sizes_def)

lemma sizes_upd_other: "p \<notin> set ps \<Longrightarrow> sizes (st(p := x)) ps = sizes st ps"
  by (induction ps) (auto simp: size_at_def)

lemma wf_init: "wf (vld_init opts a b)"
  by (simp add: wf_def vld_init_def block_ptrs_def)

lemma live_init: "live_bytes (vld_init opts a b) = 0"
  by (simp add: live_bytes_def vld_init_def block_ptrs_def)

lemma sizes_cong: "(\<And>p. p \<in> set ps \<Longrightarrow> st' p = st p) \<Longrightarrow> sizes st' ps = sizes st ps"
  by (induction ps) (auto simp: size_at_def)

lemma block_ptrs_ptrs_of: "block_ptrs s = ptrs_of (m_heapMap s)"
  by (simp add: block_ptrs_def ptrs_of_def)

lemma ptrs_of_simps [simp]:
  "ptrs_of [] = []"
  "ptrs_of (it # hm) = heap_ptrs (snd it) @ ptrs_of hm"
  "ptrs_of (xs @ ys) = ptrs_of xs @ ptrs_of ys"
  by (simp_all add: ptrs_of_def)

lemma unmapHeap_loop:
  "distinct (map snd es) \<Longrightarrow> snd ` set es \<subseteq> dom (blocks s) \<Longrightarrow>
   foldl unmapHeap_block s es =
     s\<lparr>m_curAlloc := m_curAlloc s - sizes (blocks s) (map snd es),
       blocks := (\<lambda>p. if p \<in> snd ` set es then None else blocks s p)\<rparr>"
proof (induction es arbitrary: s)
  case Nil
  then show ?case by simp
next
  case (Cons e es)
  from Cons.prems obtain info where i: "blocks s (snd e) = Some info" by auto
  let ?s1 = "unmapHeap_block s e"
  have s1: "?s1 = s\<lparr>m_curAlloc := m_curAlloc s - size' info, blocks := (blocks s)(snd e := None)\<rparr>"
    by (simp add: unmapHeap_block_def i)
  have d: "distinct (map snd es)" and n: "snd e \<notin> snd ` set es"
    using Cons.prems(1) by auto
  have sub: "snd ` set es \<subseteq> dom (blocks ?s1)"
  proof
    fix p assume p: "p \<in> snd ` set es"
    with n have "p \<noteq> snd e" by blast
    moreover from p Cons.prems(2) have "p \<in> dom (blocks s)" by auto
    ultimately show "p \<in> dom (blocks ?s1)" by (simp add: s1)
  qed
  have sz: "sizes (blocks ?s1) (map snd es) = sizes (blocks s) (map snd es)"
    using n by (simp add: s1 sizes_upd_other)
  have "foldl unmapHeap_block s (e # es) = foldl unmapHeap_block ?s1 es" by simp
  also have "\<dots> = ?s1\<lparr>m_curAlloc := m_curAlloc ?s1 - sizes (blocks ?s1) (map snd es),
       blocks := (\<lambda>p. if p \<in> snd ` set es then None else blocks ?s1 p)\<rparr>"
    by (rule Cons.IH [OF d sub])
  also have "\<dots> = s\<lparr>m_curAlloc := m_curAlloc s - sizes (blocks s) (map snd (e # es)),
       blocks := (\<lambda>p. if p \<in> snd ` set (e # es) then None else blocks s p)\<rparr>"
    unfolding sz using n by (force simp: s1 size_at_def i fun_eq_iff)
  finally show ?case .
qed

lemma wf_heap_ptrs:
  assumes "wf s" "m_heapMap s = xs @ (h, hi) # ys"
  shows "distinct (heap_ptrs hi)" "set (heap_ptrs hi) \<subseteq> dom (blocks s)"
    "set (heap_ptrs hi) \<inter> set (ptrs_of xs) = {}" "set (heap_ptrs hi) \<inter> set (ptrs_of ys) = {}"
    "distinct (ptrs_of xs @ ptrs_of ys)" "distinct (map fst (blockMap hi))"
    "h \<notin> fst ` set xs" "h \<notin> fst ` set ys" "distinct (map fst (xs @ ys))"
  using assms by (auto simp: wf_def block_ptrs_ptrs_of)

lemma unmapHeap_inv:
  assumes "ledger_inv k s"
  shows "ledger_inv k (unmapHeap heap s)"
proof (cases "Map_find (m_heapMap s) heap")
  case None
  then show ?thesis using assms by (simp add: unmapHeap_def)
next
  case (Some hi)
  from assms have w: "wf s" and c: "m_curAlloc s = live_bytes s + k" by (simp_all add: ledger_inv_def)
  from w have "distinct (map fst (m_heapMap s))" by (simp add: wf_def)
  from Map_find_split [OF this Some] obtain xs ys where
    hm: "m_heapMap s = xs @ (heap, hi) # ys" and nx: "heap \<notin> fst ` set xs" and ny: "heap \<notin> fst ` set ys"
    by blast
  note f = wf_heap_ptrs [OF w hm]
  have loop: "foldl unmapHeap_block s (blockMap hi) =
     s\<lparr>m_curAlloc := m_curAlloc s - sizes (blocks s) (heap_ptrs hi),
       blocks := (\<lambda>p. if p \<in> set (heap_ptrs hi) then None else blocks s p)\<rparr>"
    using unmapHeap_loop [of "blockMap hi" s] f(1,2) by (simp add: heap_ptrs_def)
  have res: "unmapHeap heap s =
     s\<lparr>m_curAlloc := m_curAlloc s - sizes (blocks s) (heap_ptrs hi),
       blocks := (\<lambda>p. if p \<in> set (heap_ptrs hi) then None else blocks s p),
       m_heapMap := xs @ ys\<rparr>"
    using Map_erase_split [OF nx ny, of hi]
    by (simp add: unmapHeap_def Some loop Let_def) (simp add: hm)
  have dom: "set (block_ptrs s) = dom (blocks s)" using w by (simp add: wf_def)
  have w': "wf (unmapHeap heap s)"
    unfolding res wf_def using w f dom
    by (auto simp: wf_def block_ptrs_ptrs_of hm dom_def split: if_splits)
  have "live_bytes (unmapHeap heap s) = sizes (blocks s) (ptrs_of xs @ ptrs_of ys)"
    unfolding res live_bytes_def using f(3,4)
    by (auto simp: block_ptrs_ptrs_of intro!: arg_cong2 [where f = "(+)"] sizes_cong)
  moreover have "m_curAlloc (unmapHeap heap s) = sizes (blocks s) (ptrs_of xs @ ptrs_of ys) + k"
    unfolding res using c by (simp add: live_bytes_def block_ptrs_ptrs_of hm)
  ultimately show ?thesis using w' by (simp add: ledger_inv_def)
qed

lemma ledger_inv_Report [simp]: "ledger_inv k (Report r s) = ledger_inv k s"
  by (simp add: ledger_inv_def Report_def wf_def live_bytes_def block_ptrs_def)

lemma unmapHeap_loop_heapMap [simp]: "m_heapMap (foldl unmapHeap_block s es) = m_heapMap s"
  by (induction es arbitrary: s) (auto simp: unmapHeap_block_def split: option.splits)

lemma Map_erase_keys: "k \<notin> fst ` set (Map_erase m k)"
  by (auto simp: Map_erase_def)

lemma unmapHeap_absent: "heap \<notin> fst ` set (m_heapMap (unmapHeap heap s))"
proof (cases "Map_find (m_heapMap s) heap")
  case None
  then show ?thesis by (simp add: unmapHeap_def) (simp add: Map_find_None)
next
  case (Some hi)
  then show ?thesis by (simp add: unmapHeap_def Let_def Map_erase_keys)
qed

lemma ledger_inv_add_heap:
  assumes "ledger_inv k s" "heap \<notin> fst ` set (m_heapMap s)"
  shows "ledger_inv k (s\<lparr>m_heapMap := m_heapMap s @ [(heap, \<lparr>blockMap = [], flags = 0\<rparr>)]\<rparr>)"
  using assms
  by (auto simp: ledger_inv_def wf_def live_bytes_def block_ptrs_ptrs_of heap_ptrs_def)

lemma mapHeap_absent:
  "heap \<notin> fst ` set (m_heapMap s) \<Longrightarrow>
   mapHeap heap s = s\<lparr>m_heapMap := m_heapMap s @ [(heap, \<lparr>blockMap = [], flags = 0\<rparr>)]\<rparr>"
  by (simp add: mapHeap_def Map_insert_def Map_find_None [unfolded Map_find_def, symmetric])

lemma mapHeap_inv:
  assumes "ledger_inv k s"
  shows "ledger_inv k (mapHeap heap s)"
proof (cases "heap \<in> fst ` set (m_heapMap s)")
  case False
  then show ?thesis using ledger_inv_add_heap [OF assms] by (simp add: mapHeap_absent)
next
  case True
  let ?s2 = "unmapHeap heap (Report (R_DuplicateHeap heap) s)"
  have i2: "ledger_inv k ?s2" using assms by (simp add: unmapHeap_inv)
  have a2: "heap \<notin> fst ` set (m_heapMap ?s2)" by (rule unmapHeap_absent)
  have "Map_insert (m_heapMap s) heap \<lparr>blockMap = [], flags = 0\<rparr> = None"
    using True by (simp add: Map_insert_None)
  moreover have "Map_insert (m_heapMap ?s2) heap \<lparr>blockMap = [], flags = 0\<rparr>
      = Some (m_heapMap ?s2 @ [(heap, \<lparr>blockMap = [], flags = 0\<rparr>)])"
    using a2 by (simp add: Map_insert_Some)
  ultimately have "mapHeap heap s =
      ?s2\<lparr>m_heapMap := m_heapMap ?s2 @ [(heap, \<lparr>blockMap = [], flags = 0\<rparr>)]\<rparr>"
    by (simp add: mapHeap_def Let_def)
  then show ?thesis using ledger_inv_add_heap [OF i2 a2] by simp
qed


lemma Map_find_append_new: "k \<notin> fst ` set xs \<Longrightarrow> Map_find (xs @ (k, v) # ys) k = Some v"
  by (induction xs) (auto simp: Map_find_def)

lemma mapBlock_record_eq:
  "mapBlock_record sz d u tid s =
     s\<lparr>blocks := (blocks s)(nextBlock s \<mapsto>
           \<lparr>callStack = None, threadId = tid, serialNumber = m_requestCurr s,
            size' = sz, reported = False, debugCrtAlloc = d, ucrt = u\<rparr>),
       nextBlock := Suc (nextBlock s),
       m_requestCurr := m_requestCurr s + 1,
       m_totalAlloc := (if SIZE_MAX - m_totalAlloc s > sz then m_totalAlloc s + sz else SIZE_MAX),
       m_curAlloc := m_curAlloc s + sz,
       m_maxAlloc := (if m_curAlloc s + sz > m_maxAlloc s then m_curAlloc s + sz else m_maxAlloc s)\<rparr>"
  by (simp add: mapBlock_record_def Let_def)

lemma mapBlock_insert_new_heap:
  assumes "heap \<notin> fst ` set (m_heapMap c)"
  shows "mapBlock_insert heap mem sz p c =
     c\<lparr>m_heapMap := m_heapMap c @ [(heap, \<lparr>blockMap = [(mem, p)], flags = 0\<rparr>)]\<rparr>"
proof -
  have a: "Map_find (m_heapMap c) heap = None" using assms by (simp add: Map_find_None)
  have f: "Map_find (m_heapMap c @ [(heap, \<lparr>blockMap = [], flags = 0\<rparr>)]) heap
       = Some \<lparr>blockMap = [], flags = 0\<rparr>"
    using assms by (rule Map_find_append_new)
  have u: "Map_update (m_heapMap c @ [(heap, \<lparr>blockMap = [], flags = 0\<rparr>)]) heap v
       = m_heapMap c @ [(heap, v)]" for v
    using Map_update_split [OF assms, of "[]"] by simp
  show ?thesis
    by (simp add: mapBlock_insert_def a mapHeap_absent [OF assms] f Map_insert_def u)
qed

lemma mapBlock_insert_new_block:
  assumes "m_heapMap c = xs @ (heap, hi) # ys" "heap \<notin> fst ` set xs" "heap \<notin> fst ` set ys"
    and "mem \<notin> fst ` set (blockMap hi)"
  shows "mapBlock_insert heap mem sz p c =
     c\<lparr>m_heapMap := xs @ (heap, hi\<lparr>blockMap := blockMap hi @ [(mem, p)]\<rparr>) # ys\<rparr>"
proof -
  have a: "Map_find (m_heapMap c) heap = Some hi"
    using assms(1,2) by (simp add: Map_find_append_new)
  have i: "Map_insert (blockMap hi) mem p = Some (blockMap hi @ [(mem, p)])"
    using assms(4) by (simp add: Map_insert_Some)
  show ?thesis
    using Map_update_split [OF assms(2,3)]
    by (simp add: mapBlock_insert_def a i) (simp add: assms(1))
qed

lemma mapBlock_insert_collide:
  assumes "m_heapMap c = xs @ (heap, hi) # ys" "heap \<notin> fst ` set xs" "heap \<notin> fst ` set ys"
    and "Map_find (blockMap hi) mem = Some old" "blocks c old = Some info"
  shows "mapBlock_insert heap mem sz p c =
     c\<lparr>m_curAlloc := m_curAlloc c - size' info,
       reportLog := reportLog c @ [R_NewAllocAtAllocated mem (size' info) sz],
       blocks := (blocks c)(old := None),
       m_heapMap := xs @ (heap, hi\<lparr>blockMap := Map_erase (blockMap hi) mem @ [(mem, p)]\<rparr>) # ys\<rparr>"
proof -
  have a: "Map_find (m_heapMap c) heap = Some hi"
    using assms(1,2) by (simp add: Map_find_append_new)
  have "mem \<in> fst ` set (blockMap hi)"
    using assms(4) Map_find_None [of "blockMap hi" mem] by auto
  then have i: "Map_insert (blockMap hi) mem p = None"
    by (simp add: Map_insert_None)
  have j: "Map_insert (Map_erase (blockMap hi) mem) mem p = Some (Map_erase (blockMap hi) mem @ [(mem, p)])"
    by (simp add: Map_insert_Some Map_erase_keys)
  show ?thesis
    using Map_update_split [OF assms(2,3)]
    by (simp add: mapBlock_insert_def a i j assms(4,5) Let_def Report_def) (simp add: assms(1))
qed


lemma wf_alt:
  "wf s \<longleftrightarrow> keys_ok (m_heapMap s) \<and> distinct (ptrs_of (m_heapMap s)) \<and>
     set (ptrs_of (m_heapMap s)) = dom (blocks s) \<and> (\<forall>p \<in> dom (blocks s). p < nextBlock s)"
  by (simp add: wf_def keys_ok_def block_ptrs_ptrs_of)

lemma keys_ok_replace:
  "keys_ok (xs @ (h, hi) # ys) \<Longrightarrow> distinct (map fst (blockMap hi')) \<Longrightarrow>
   keys_ok (xs @ (h, hi') # ys)"
  by (simp add: keys_ok_def)

lemma keys_ok_add:
  "keys_ok hm \<Longrightarrow> h \<notin> fst ` set hm \<Longrightarrow> distinct (map fst (blockMap hi)) \<Longrightarrow>
   keys_ok (hm @ [(h, hi)])"
  by (simp add: keys_ok_def)

lemma keys_ok_split:
  assumes "keys_ok (xs @ (h, hi) # ys)"
  shows "h \<notin> fst ` set xs" "h \<notin> fst ` set ys" "distinct (map fst (blockMap hi))"
  using assms by (auto simp: keys_ok_def)

lemma wf_fresh:
  assumes "wf s"
  shows "nextBlock s \<notin> dom (blocks s)" "nextBlock s \<notin> set (ptrs_of (m_heapMap s))"
  using assms by (auto simp: wf_alt)

lemma heap_ptrs_simps [simp]:
  "heap_ptrs (hi\<lparr>blockMap := bm\<rparr>) = map snd bm"
  by (simp add: heap_ptrs_def)

lemma mapBlock_inv:
  assumes inv: "ledger_inv k s"
  shows "ledger_inv k (fst (mapBlock heap mem sz d u tid s))"
proof -
  let ?p = "nextBlock s"
  let ?new = "\<lparr>callStack = None, threadId = tid, serialNumber = m_requestCurr s,
            size' = sz, reported = False, debugCrtAlloc = d, ucrt = u\<rparr>"
  let ?c = "mapBlock_record sz d u tid s"
  let ?r = "mapBlock_insert heap mem sz ?p ?c"
  from inv have w: "wf s" and cur: "m_curAlloc s = live_bytes s + k" by (simp_all add: ledger_inv_def)
  note fresh = wf_fresh [OF w]
  have c_hm: "m_heapMap ?c = m_heapMap s" and c_bl: "blocks ?c = (blocks s)(?p \<mapsto> ?new)"
    and c_nx: "nextBlock ?c = Suc ?p" and c_cur: "m_curAlloc ?c = m_curAlloc s + sz"
    by (simp_all add: mapBlock_record_eq)
  have res: "fst (mapBlock heap mem sz d u tid s) = ?r"
    by (simp add: mapBlock_def Let_def)
  have ko: "keys_ok (m_heapMap s)" and dom: "set (ptrs_of (m_heapMap s)) = dom (blocks s)"
    and bound: "\<forall>q \<in> dom (blocks s). q < ?p" and dp: "distinct (ptrs_of (m_heapMap s))"
    using w by (simp_all add: wf_alt)
  have live: "live_bytes s = sizes (blocks s) (ptrs_of (m_heapMap s))"
    by (simp add: live_bytes_def block_ptrs_ptrs_of)
  show ?thesis
  proof (cases "heap \<in> fst ` set (m_heapMap s)")
    case False
    then have r: "?r = ?c\<lparr>m_heapMap := m_heapMap s @ [(heap, \<lparr>blockMap = [(mem, ?p)], flags = 0\<rparr>)]\<rparr>"
      using mapBlock_insert_new_heap [of heap ?c mem sz ?p] by (simp add: c_hm)
    have hm': "m_heapMap ?r = m_heapMap s @ [(heap, \<lparr>blockMap = [(mem, ?p)], flags = 0\<rparr>)]"
      by (simp add: r)
    have ptrs: "ptrs_of (m_heapMap ?r) = ptrs_of (m_heapMap s) @ [?p]"
      by (simp add: hm' heap_ptrs_def)
    have bl: "blocks ?r = (blocks s)(?p \<mapsto> ?new)" by (simp add: r c_bl)
    have nx: "nextBlock ?r = Suc ?p" by (simp add: r c_nx)
    have w1: "keys_ok (m_heapMap ?r)"
      unfolding hm' by (rule keys_ok_add [OF ko False]) simp
    have w2: "distinct (ptrs_of (m_heapMap ?r))" unfolding ptrs using dp fresh(2) by simp
    have w3: "set (ptrs_of (m_heapMap ?r)) = dom (blocks ?r)" unfolding ptrs bl using dom by simp
    have w4: "\<forall>q \<in> dom (blocks ?r). q < nextBlock ?r"
      unfolding bl nx using bound by (simp add: less_Suc_eq)
    have "wf ?r" using w1 w2 w3 w4 by (simp add: wf_alt)
    moreover have "live_bytes ?r = live_bytes s + sz"
      unfolding live_bytes_def block_ptrs_ptrs_of ptrs bl using fresh(2)
      by (simp add: sizes_upd_other size_at_def)
    moreover have "m_curAlloc ?r = m_curAlloc s + sz"
      by (simp add: r c_cur)
    ultimately show ?thesis by (simp add: ledger_inv_def res cur)
  next
    case True
    then obtain hi where f: "Map_find (m_heapMap s) heap = Some hi"
      using Map_find_None [of "m_heapMap s" heap] by auto
    from ko have dist: "distinct (map fst (m_heapMap s))" by (simp add: keys_ok_def)
    from Map_find_split [OF dist f] obtain xs ys where
      hm: "m_heapMap s = xs @ (heap, hi) # ys" and nx: "heap \<notin> fst ` set xs" and ny: "heap \<notin> fst ` set ys"
      by blast
    have ko': "keys_ok (xs @ (heap, hi) # ys)" using ko by (simp add: hm)
    have dhi: "distinct (map fst (blockMap hi))" by (rule keys_ok_split(3) [OF ko'])
    have chm: "m_heapMap ?c = xs @ (heap, hi) # ys" by (simp add: c_hm hm)
    have ps: "ptrs_of (m_heapMap s) = ptrs_of xs @ heap_ptrs hi @ ptrs_of ys"
      by (simp add: hm)
    show ?thesis
    proof (cases "mem \<in> fst ` set (blockMap hi)")
      case False
      have r: "?r = ?c\<lparr>m_heapMap := xs @ (heap, hi\<lparr>blockMap := blockMap hi @ [(mem, ?p)]\<rparr>) # ys\<rparr>"
        by (rule mapBlock_insert_new_block [OF chm nx ny False])
      have hm': "m_heapMap ?r = xs @ (heap, hi\<lparr>blockMap := blockMap hi @ [(mem, ?p)]\<rparr>) # ys"
        by (simp add: r)
      have ptrs: "ptrs_of (m_heapMap ?r) = ptrs_of xs @ (heap_ptrs hi @ [?p]) @ ptrs_of ys"
        by (simp add: hm' heap_ptrs_def)
      have bl: "blocks ?r = (blocks s)(?p \<mapsto> ?new)" by (simp add: r c_bl)
      have nxt: "nextBlock ?r = Suc ?p" by (simp add: r c_nx)
      have w1: "keys_ok (m_heapMap ?r)"
        unfolding hm' using False dhi by (intro keys_ok_replace [OF ko']) simp
      have w2: "distinct (ptrs_of (m_heapMap ?r))"
        unfolding ptrs using dp fresh(2) unfolding ps by auto
      have w3: "set (ptrs_of (m_heapMap ?r)) = dom (blocks ?r)"
        unfolding ptrs bl using dom unfolding ps by auto
      have w4: "\<forall>q \<in> dom (blocks ?r). q < nextBlock ?r"
        unfolding bl nxt using bound by (simp add: less_Suc_eq)
      have "wf ?r" using w1 w2 w3 w4 by (simp add: wf_alt)
      moreover have "live_bytes ?r = live_bytes s + sz"
        unfolding live_bytes_def block_ptrs_ptrs_of ptrs bl using fresh(2) unfolding ps
        by (simp add: sizes_upd_other size_at_def)
      moreover have "m_curAlloc ?r = m_curAlloc s + sz"
        by (simp add: r c_cur)
      ultimately show ?thesis by (simp add: ledger_inv_def res cur)
    next
      case True
      then obtain old where fo: "Map_find (blockMap hi) mem = Some old"
        using Map_find_None [of "blockMap hi" mem] by auto
      from Map_find_split [OF dhi fo] obtain us vs where
        bm: "blockMap hi = us @ (mem, old) # vs" and nu: "mem \<notin> fst ` set us" and nv: "mem \<notin> fst ` set vs"
        by blast
      have er: "Map_erase (blockMap hi) mem = us @ vs"
        by (simp add: bm Map_erase_split [OF nu nv])
      have hp: "heap_ptrs hi = map snd us @ old # map snd vs"
        by (simp add: heap_ptrs_def bm)
      have "old \<in> dom (blocks s)" using dom unfolding ps hp by auto
      then obtain info where oi: "blocks s old = Some info" by auto
      have op: "old \<noteq> ?p" using fresh(1) oi by auto
      have coi: "blocks ?c old = Some info" using op by (simp add: c_bl oi)
      have r: "?r = ?c\<lparr>m_curAlloc := m_curAlloc ?c - size' info,
         reportLog := reportLog ?c @ [R_NewAllocAtAllocated mem (size' info) sz],
         blocks := (blocks ?c)(old := None),
         m_heapMap := xs @ (heap, hi\<lparr>blockMap := Map_erase (blockMap hi) mem @ [(mem, ?p)]\<rparr>) # ys\<rparr>"
        by (rule mapBlock_insert_collide [OF chm nx ny fo coi])
      have hm': "m_heapMap ?r = xs @ (heap, hi\<lparr>blockMap := us @ vs @ [(mem, ?p)]\<rparr>) # ys"
        by (simp add: r er)
      have ptrs: "ptrs_of (m_heapMap ?r) = ptrs_of xs @ (map snd us @ map snd vs @ [?p]) @ ptrs_of ys"
        by (simp add: hm')
      have bl: "blocks ?r = (blocks s)(?p \<mapsto> ?new, old := None)"
        by (simp add: r c_bl)
      have nxt: "nextBlock ?r = Suc ?p" by (simp add: r c_nx)
      have dd: "distinct (map fst (us @ vs @ [(mem, ?p)]))"
        using dhi nu nv by (auto simp: bm)
      have o1: "old \<notin> set (ptrs_of xs)" "old \<notin> set (ptrs_of ys)" "old \<notin> snd ` set us" "old \<notin> snd ` set vs"
        using dp unfolding ps hp by auto
      have p1: "?p \<notin> set (ptrs_of xs)" "?p \<notin> set (ptrs_of ys)" "?p \<notin> snd ` set us" "?p \<notin> snd ` set vs"
        using fresh(2) unfolding ps hp by auto
      have w1: "keys_ok (m_heapMap ?r)"
        unfolding hm' using dd by (intro keys_ok_replace [OF ko']) simp
      have w2: "distinct (ptrs_of (m_heapMap ?r))"
        unfolding ptrs using dp p1 unfolding ps hp by auto
      have w3: "set (ptrs_of (m_heapMap ?r)) = dom (blocks ?r)"
      proof -
        have "dom (blocks ?r) = insert ?p (dom (blocks s) - {old})"
          unfolding bl using op by auto
        also have "\<dots> = insert ?p (set (ptrs_of (m_heapMap s)) - {old})" by (simp add: dom)
        also have "set (ptrs_of (m_heapMap s)) - {old} =
            set (ptrs_of xs) \<union> snd ` set us \<union> snd ` set vs \<union> set (ptrs_of ys)"
          unfolding ps hp using o1 by auto
        finally show ?thesis unfolding ptrs by auto
      qed
      have w4: "\<forall>q \<in> dom (blocks ?r). q < nextBlock ?r"
        unfolding bl nxt using bound by (auto simp: less_Suc_eq split: if_splits)
      have "wf ?r" using w1 w2 w3 w4 by (simp add: wf_alt)
      moreover have "live_bytes ?r = live_bytes s + sz - size' info"
        unfolding live_bytes_def block_ptrs_ptrs_of ptrs bl ps hp using o1 p1 op
        by (simp add: sizes_upd_other size_at_def oi)
      moreover have "m_curAlloc ?r = m_curAlloc s + sz - size' info"
        by (simp add: r c_cur)
      ultimately show ?thesis by (simp add: ledger_inv_def res cur)
    qed
  qed
qed



lemma reportCrossHeapFree_ledger:
  "\<exists>ls. reportCrossHeapFree e mem c info cs s = s\<lparr>reportLog := reportLog s @ ls\<rparr>"
  unfolding reportCrossHeapFree_def Let_def by (rule exI) (rule refl)

lemma ledger_inv_log [simp]: "ledger_inv k (s\<lparr>reportLog := l\<rparr>) = ledger_inv k s"
  by (simp add: ledger_inv_def wf_def live_bytes_def block_ptrs_def)

lemma unmapBlock_tracked:
  assumes "m_heapMap s = xs @ (heap, hi) # ys" "heap \<notin> fst ` set xs" "heap \<notin> fst ` set ys"
    and "Map_find (blockMap hi) mem = Some p" "blocks s p = Some info" "mem \<noteq> 0"
  shows "unmapBlock e heap mem c s =
     s\<lparr>m_curAlloc := m_curAlloc s - size' info,
       blocks := (blocks s)(p := None),
       m_heapMap := xs @ (heap, hi\<lparr>blockMap := Map_erase (blockMap hi) mem\<rparr>) # ys\<rparr>"
proof -
  have a: "Map_find (m_heapMap s) heap = Some hi"
    using assms(1,2) by (simp add: Map_find_append_new)
  show ?thesis
    using Map_update_split [OF assms(2,3)]
    by (simp add: unmapBlock_def a assms(4,5,6)) (simp add: assms(1))
qed

lemma unmapBlock_miss:
  assumes "mem = 0 \<or> Map_find (m_heapMap s) heap = None \<or>
           (\<exists>hi. Map_find (m_heapMap s) heap = Some hi \<and> Map_find (blockMap hi) mem = None)"
  shows "\<exists>ls. unmapBlock e heap mem c s = s\<lparr>reportLog := reportLog s @ ls\<rparr>"
proof -
  have triv: "\<exists>ls. s = s\<lparr>reportLog := reportLog s @ ls\<rparr>"
    by (rule exI [of _ "[]"]) simp
  from assms consider "mem = 0" | "mem \<noteq> 0" "Map_find (m_heapMap s) heap = None"
    | hi where "mem \<noteq> 0" "Map_find (m_heapMap s) heap = Some hi" "Map_find (blockMap hi) mem = None"
    by (cases "mem = 0") auto
  then show ?thesis
  proof cases
    case 1
    then show ?thesis using triv by (simp add: unmapBlock_def)
  next
    case 2
    then show ?thesis using triv by (simp add: unmapBlock_def)
  next
    case 3
    show ?thesis
    proof (cases "VLD_OPT_VALIDATE_HEAPFREE \<in> m_options s")
      case False
      then show ?thesis using 3 triv by (simp add: unmapBlock_def)
    next
      case True
      obtain ab oh where fa: "findAllocedBlock s mem = (ab, oh)" by (cases "findAllocedBlock s mem")
      show ?thesis
        using 3 True triv reportCrossHeapFree_ledger
        by (simp add: unmapBlock_def fa split: option.splits)
    qed
  qed
qed

lemma unmapBlock_inv:
  assumes inv: "ledger_inv k s"
  shows "ledger_inv k (unmapBlock e heap mem c s)"
proof -
  from inv have w: "wf s" and cur: "m_curAlloc s = live_bytes s + k" by (simp_all add: ledger_inv_def)
  have ko: "keys_ok (m_heapMap s)" and dom: "set (ptrs_of (m_heapMap s)) = dom (blocks s)"
    and bound: "\<forall>q \<in> dom (blocks s). q < nextBlock s" and dp: "distinct (ptrs_of (m_heapMap s))"
    using w by (simp_all add: wf_alt)
  let ?r = "unmapBlock e heap mem c s"
  show ?thesis
  proof (cases "mem \<noteq> 0 \<and> (\<exists>hi p. Map_find (m_heapMap s) heap = Some hi \<and> Map_find (blockMap hi) mem = Some p)")
    case False
    then have "mem = 0 \<or> Map_find (m_heapMap s) heap = None \<or>
           (\<exists>hi. Map_find (m_heapMap s) heap = Some hi \<and> Map_find (blockMap hi) mem = None)"
      by (cases "Map_find (m_heapMap s) heap") auto
    from unmapBlock_miss [OF this] obtain ls where "?r = s\<lparr>reportLog := reportLog s @ ls\<rparr>"
      by blast
    then show ?thesis using inv by simp
  next
    case True
    then obtain hi p where m0: "mem \<noteq> 0" and f: "Map_find (m_heapMap s) heap = Some hi"
      and fo: "Map_find (blockMap hi) mem = Some p" by blast
    from ko have dist: "distinct (map fst (m_heapMap s))" by (simp add: keys_ok_def)
    from Map_find_split [OF dist f] obtain xs ys where
      hm: "m_heapMap s = xs @ (heap, hi) # ys" and nx: "heap \<notin> fst ` set xs" and ny: "heap \<notin> fst ` set ys"
      by blast
    have ko': "keys_ok (xs @ (heap, hi) # ys)" using ko by (simp add: hm)
    have dhi: "distinct (map fst (blockMap hi))" by (rule keys_ok_split(3) [OF ko'])
    have ps: "ptrs_of (m_heapMap s) = ptrs_of xs @ heap_ptrs hi @ ptrs_of ys"
      by (simp add: hm)
    from Map_find_split [OF dhi fo] obtain us vs where
      bm: "blockMap hi = us @ (mem, p) # vs" and nu: "mem \<notin> fst ` set us" and nv: "mem \<notin> fst ` set vs"
      by blast
    have er: "Map_erase (blockMap hi) mem = us @ vs"
      by (simp add: bm Map_erase_split [OF nu nv])
    have hp: "heap_ptrs hi = map snd us @ p # map snd vs"
      by (simp add: heap_ptrs_def bm)
    have "p \<in> dom (blocks s)" using dom unfolding ps hp by auto
    then obtain info where oi: "blocks s p = Some info" by auto
    have r: "?r = s\<lparr>m_curAlloc := m_curAlloc s - size' info,
       blocks := (blocks s)(p := None),
       m_heapMap := xs @ (heap, hi\<lparr>blockMap := Map_erase (blockMap hi) mem\<rparr>) # ys\<rparr>"
      by (rule unmapBlock_tracked [OF hm nx ny fo oi m0])
    have hm': "m_heapMap ?r = xs @ (heap, hi\<lparr>blockMap := us @ vs\<rparr>) # ys"
      by (simp add: r er)
    have ptrs: "ptrs_of (m_heapMap ?r) = ptrs_of xs @ (map snd us @ map snd vs) @ ptrs_of ys"
      by (simp add: hm')
    have bl: "blocks ?r = (blocks s)(p := None)" by (simp add: r)
    have nxt: "nextBlock ?r = nextBlock s" by (simp add: r)
    have dd: "distinct (map fst (us @ vs))" using dhi by (auto simp: bm)
    have o1: "p \<notin> set (ptrs_of xs)" "p \<notin> set (ptrs_of ys)" "p \<notin> snd ` set us" "p \<notin> snd ` set vs"
      using dp unfolding ps hp by auto
    have w1: "keys_ok (m_heapMap ?r)"
      unfolding hm' using dd by (intro keys_ok_replace [OF ko']) simp
    have w2: "distinct (ptrs_of (m_heapMap ?r))"
      unfolding ptrs using dp unfolding ps hp by auto
    have w3: "set (ptrs_of (m_heapMap ?r)) = dom (blocks ?r)"
    proof -
      have "dom (blocks ?r) = dom (blocks s) - {p}" unfolding bl by auto
      also have "\<dots> = set (ptrs_of (m_heapMap s)) - {p}" by (simp add: dom)
      also have "\<dots> = set (ptrs_of xs) \<union> snd ` set us \<union> snd ` set vs \<union> set (ptrs_of ys)"
        unfolding ps hp using o1 by auto
      finally show ?thesis unfolding ptrs by auto
    qed
    have w4: "\<forall>q \<in> dom (blocks ?r). q < nextBlock ?r"
      unfolding bl nxt using bound by (auto split: if_splits)
    have "wf ?r" using w1 w2 w3 w4 by (simp add: wf_alt)
    moreover have "live_bytes ?r = live_bytes s - size' info"
      unfolding live_bytes_def block_ptrs_ptrs_of ptrs bl ps hp using o1
      by (simp add: sizes_upd_other size_at_def oi)
    moreover have "m_curAlloc ?r = m_curAlloc s - size' info"
      by (simp add: r)
    ultimately show ?thesis by (simp add: ledger_inv_def cur)
  qed
qed

lemma remapBlock_inplace_eq:
  "remapBlock_inplace p info sz tid s =
     s\<lparr>m_totalAlloc :=
         (if m_totalAlloc s < SIZE_MAX then
            (if SIZE_MAX - (m_totalAlloc s - size' info) > sz
             then m_totalAlloc s - size' info + sz else SIZE_MAX)
          else m_totalAlloc s),
       m_curAlloc := m_curAlloc s - size' info + sz,
       m_maxAlloc := (if m_curAlloc s - size' info + sz > m_maxAlloc s
                      then m_curAlloc s - size' info + sz else m_maxAlloc s),
       blocks := (blocks s)(p \<mapsto> info\<lparr>callStack := None, threadId := tid, size' := sz\<rparr>)\<rparr>"
  by (simp add: remapBlock_inplace_def Let_def)

lemma remapBlock_inplace_inv:
  assumes inv: "ledger_inv k s" and f: "Map_find (m_heapMap s) heap = Some hi"
    and fo: "Map_find (blockMap hi) mem = Some p" and oi: "blocks s p = Some info"
  shows "ledger_inv k (remapBlock_inplace p info sz tid s)"
proof -
  from inv have w: "wf s" and cur: "m_curAlloc s = live_bytes s + k" by (simp_all add: ledger_inv_def)
  have ko: "keys_ok (m_heapMap s)" and dom: "set (ptrs_of (m_heapMap s)) = dom (blocks s)"
    and bound: "\<forall>q \<in> dom (blocks s). q < nextBlock s" and dp: "distinct (ptrs_of (m_heapMap s))"
    using w by (simp_all add: wf_alt)
  let ?r = "remapBlock_inplace p info sz tid s"
  let ?i = "info\<lparr>callStack := None, threadId := tid, size' := sz\<rparr>"
  have pd: "p \<in> dom (blocks s)" using oi by auto
  then have "p \<in> set (ptrs_of (m_heapMap s))" by (simp add: dom)
  then obtain as bs where sp: "ptrs_of (m_heapMap s) = as @ p # bs" by (auto dest: split_list)
  have na: "p \<notin> set as" "p \<notin> set bs" using dp unfolding sp by auto
  have hm': "m_heapMap ?r = m_heapMap s" and bl: "blocks ?r = (blocks s)(p \<mapsto> ?i)"
    and nxt: "nextBlock ?r = nextBlock s" and c': "m_curAlloc ?r = m_curAlloc s - size' info + sz"
    by (simp_all add: remapBlock_inplace_eq)
  have w3: "set (ptrs_of (m_heapMap ?r)) = dom (blocks ?r)"
    unfolding hm' bl using dom pd by auto
  have w4: "\<forall>q \<in> dom (blocks ?r). q < nextBlock ?r"
    unfolding bl nxt using bound pd by auto
  have "wf ?r" using ko dp w3 w4 by (simp add: wf_alt hm')
  moreover have "live_bytes ?r = live_bytes s - size' info + sz"
    unfolding live_bytes_def block_ptrs_ptrs_of hm' bl sp using na
    by (simp add: sizes_upd_other size_at_def oi)
  ultimately show ?thesis by (simp add: ledger_inv_def cur c')
qed

lemma remapBlock_inv:
  assumes inv: "ledger_inv k s"
  shows "ledger_inv k (fst (remapBlock e heap mem newmem sz d u tid c s))"
proof -
  have asNew: "ledger_inv k (fst (case mapBlock heap newmem sz d u tid s0 of (s1, p) \<Rightarrow> (s1, Some p)))"
    if "ledger_inv k s0" for s0
    using mapBlock_inv [OF that, of heap newmem sz d u tid]
    by (simp add: case_prod_beta)
  show ?thesis
  proof (cases "newmem \<noteq> mem")
    case True
    then show ?thesis
      using asNew [OF unmapBlock_inv [OF inv, of e heap mem c]]
      by (simp add: remapBlock_def)
  next
    case False
    then have eq: "newmem = mem" by simp
    show ?thesis
    proof (cases "Map_find (m_heapMap s) heap")
      case None
      then show ?thesis using asNew [OF inv] by (simp add: remapBlock_def eq)
    next
      case (Some hi)
      note f = this
      show ?thesis
      proof (cases "Map_find (blockMap hi) mem")
        case None
        then show ?thesis using asNew [OF inv] f by (simp add: remapBlock_def eq)
      next
        case (Some p)
        show ?thesis
        proof (cases "blocks s p")
          case None
          then show ?thesis using inv f Some by (simp add: remapBlock_def eq)
        next
          case (Some info)
          then show ?thesis
            using remapBlock_inplace_inv [OF inv f \<open>Map_find (blockMap hi) mem = Some p\<close> Some]
              f \<open>Map_find (blockMap hi) mem = Some p\<close>
            by (simp add: remapBlock_def eq)
        qed
      qed
    qed
  qed
qed

lemma ledger_step_inv: "ledger_inv k s \<Longrightarrow> ledger_inv k (ledger_step e s op)"
  by (cases op) (simp_all add: mapHeap_inv mapBlock_inv unmapBlock_inv unmapHeap_inv remapBlock_inv)

lemma ledger_run_inv: "ledger_inv k s \<Longrightarrow> ledger_inv k (ledger_run e s ops)"
  unfolding ledger_run_def
  by (induction ops arbitrary: s) (simp_all add: ledger_step_inv)

lemma ledger_inv_init: "ledger_inv 0 (vld_init opts a b)"
  by (simp add: ledger_inv_def wf_init live_init) (simp add: vld_init_def)

lemma wf_ledger_inv: "wf s \<Longrightarrow> ledger_inv (m_curAlloc s - live_bytes s) s"
  by (simp add: ledger_inv_def)

lemma wf_ledger_step: "wf s \<Longrightarrow> wf (ledger_step e s op)"
  using ledger_step_inv [OF wf_ledger_inv] by (simp add: ledger_inv_def)

lemma keys_Map_update [simp]: "map fst (Map_update m k v) = map fst m"
  by (induction m) (auto simp: Map_update_def)

lemma keys_set_Map_update [simp]: "fst ` set (Map_update m k v) = fst ` set m"
  using keys_Map_update [of m k v] by (metis set_map)

lemma keys_Map_erase: "fst ` set (Map_erase m k) \<subseteq> fst ` set m"
  by (auto simp: Map_erase_def)

lemma unmapHeap_keys: "fst ` set (m_heapMap (unmapHeap heap s)) \<subseteq> fst ` set (m_heapMap s)"
  using keys_Map_erase [of "m_heapMap s" heap]
  by (cases "Map_find (m_heapMap s) heap") (simp_all add: unmapHeap_def Let_def)

lemma mapHeap_keys:
  "fst ` set (m_heapMap (mapHeap heap s)) \<subseteq> insert heap (fst ` set (m_heapMap s))"
proof (cases "heap \<in> fst ` set (m_heapMap s)")
  case False
  then show ?thesis by (auto simp: mapHeap_absent)
next
  case True
  let ?s2 = "unmapHeap heap (Report (R_DuplicateHeap heap) s)"
  have k2: "fst ` set (m_heapMap ?s2) \<subseteq> fst ` set (m_heapMap s)"
    using unmapHeap_keys [of heap "Report (R_DuplicateHeap heap) s"] by (simp add: Report_def)
  have a2: "heap \<notin> fst ` set (m_heapMap ?s2)" by (rule unmapHeap_absent)
  have "Map_insert (m_heapMap s) heap \<lparr>blockMap = [], flags = 0\<rparr> = None"
    using True by (simp add: Map_insert_None)
  moreover have "Map_insert (m_heapMap ?s2) heap \<lparr>blockMap = [], flags = 0\<rparr>
      = Some (m_heapMap ?s2 @ [(heap, \<lparr>blockMap = [], flags = 0\<rparr>)])"
    using a2 by (simp add: Map_insert_Some)
  ultimately have "mapHeap heap s =
      ?s2\<lparr>m_heapMap := m_heapMap ?s2 @ [(heap, \<lparr>blockMap = [], flags = 0\<rparr>)]\<rparr>"
    by (simp add: mapHeap_def Let_def)
  then show ?thesis using k2 by auto
qed

lemma mapBlock_insert_keys:
  "fst ` set (m_heapMap (mapBlock_insert heap mem sz p c))
     \<subseteq> insert heap (fst ` set (m_heapMap c))"
proof -
  let ?s5 = "case Map_find (m_heapMap c) heap of None \<Rightarrow> mapHeap heap c | Some _ \<Rightarrow> c"
  have k5: "fst ` set (m_heapMap ?s5) \<subseteq> insert heap (fst ` set (m_heapMap c))"
    using mapHeap_keys [of heap c] by (cases "Map_find (m_heapMap c) heap") auto
  have "fst ` set (m_heapMap (mapBlock_insert heap mem sz p c)) = fst ` set (m_heapMap ?s5)"
    unfolding mapBlock_insert_def Let_def
    by (simp add: Report_def split: option.splits)
  then show ?thesis using k5 by simp
qed

lemma mapBlock_keys:
  "fst ` set (m_heapMap (fst (mapBlock heap mem sz d u tid s)))
     \<subseteq> insert heap (fst ` set (m_heapMap s))"
  using mapBlock_insert_keys [of heap mem sz "nextBlock s" "mapBlock_record sz d u tid s"]
  by (simp add: mapBlock_def Let_def mapBlock_record_eq)

lemma unmapBlock_keys:
  "map fst (m_heapMap (unmapBlock e heap mem c s)) = map fst (m_heapMap s)"
  unfolding unmapBlock_def reportCrossHeapFree_def Let_def
  by (simp split: option.splits prod.splits)

lemma remapBlock_keys:
  "fst ` set (m_heapMap (fst (remapBlock e heap mem newmem sz d u tid c s)))
     \<subseteq> insert heap (fst ` set (m_heapMap s))"
proof -
  have asNew: "fst ` set (m_heapMap (fst (case mapBlock heap newmem sz d u tid s0 of (s1, p) \<Rightarrow> (s1, Some p))))
      \<subseteq> insert heap (fst ` set (m_heapMap s0))" for s0
    using mapBlock_keys [of heap newmem sz d u tid s0] by (simp add: case_prod_beta)
  have ub: "fst ` set (m_heapMap (unmapBlock e heap mem c s)) = fst ` set (m_heapMap s)"
    using unmapBlock_keys [of e heap mem c s] by (metis set_map)
  show ?thesis
    unfolding remapBlock_def Let_def
    using asNew [of s] asNew [of "unmapBlock e heap mem c s"] ub
    by (auto simp: remapBlock_inplace_eq split: option.splits)
qed

lemma ledger_step_keys:
  "fst ` set (m_heapMap (ledger_step e s op)) \<subseteq> insert (op_heap op) (fst ` set (m_heapMap s))"
proof (cases op)
  case (MapHeap h)
  then show ?thesis using mapHeap_keys [of h s] by simp
next
  case (MapBlock h mem sz d u tid)
  then show ?thesis using mapBlock_keys [of h mem sz d u tid s] by simp
next
  case (UnmapBlock h mem c)
  then show ?thesis using unmapBlock_keys [of e h mem c s] by (metis ledger_step.simps(3) set_map subset_insertI)
next
  case (UnmapHeap h)
  then show ?thesis using unmapHeap_keys [of h s] by auto
next
  case (RemapBlock h mem newmem sz d u tid c)
  then show ?thesis using remapBlock_keys [of e h mem newmem sz d u tid c s] by simp
qed

lemma ledger_run_keys:
  "\<forall>op \<in> set ops. op_heap op = heap \<Longrightarrow> fst ` set (m_heapMap s) \<subseteq> {heap} \<Longrightarrow>
   fst ` set (m_heapMap (ledger_run e s ops)) \<subseteq> {heap}"
  unfolding ledger_run_def
proof (induction ops arbitrary: s)
  case Nil
  then show ?case by simp
next
  case (Cons op ops)
  have "fst ` set (m_heapMap (ledger_step e s op)) \<subseteq> {heap}"
    using ledger_step_keys [of e s op] Cons.prems by auto
  then show ?case using Cons.IH [of "ledger_step e s op"] Cons.prems(1) by simp
qed

lemma single_heap_live:
  assumes "wf s" "fst ` set (m_heapMap s) \<subseteq> {heap}"
  shows "live_bytes s = heap_bytes s heap"
proof (cases "m_heapMap s")
  case Nil
  then show ?thesis by (simp add: live_bytes_def heap_bytes_def block_ptrs_def Map_find_def)
next
  case (Cons it rest)
  from assms(2) Cons have k: "fst it = heap" and kr: "\<forall>x \<in> set rest. fst x = heap" by auto
  from assms(1) Cons have "fst it \<notin> fst ` set rest" by (simp add: wf_def)
  with k kr have "rest = []" by (cases rest) auto
  then show ?thesis
    using Cons k by (cases it) (simp add: live_bytes_def heap_bytes_def block_ptrs_def Map_find_def)
qed

lemma wf_mapBlock: "wf s \<Longrightarrow> wf (fst (mapBlock heap mem sz d u tid s))"
  using mapBlock_inv [OF wf_ledger_inv] by (simp add: ledger_inv_def)

lemma wf_ledger0: "wf ledger0"
  by (simp add: wf_def ledger0_def block_ptrs_def heap_ptrs_def)

lemma sat_add_unat:
  fixes t sz :: SIZE_T
  shows "unat (if SIZE_MAX - t > sz then t + sz else SIZE_MAX) = min (unat t + unat sz) (2 ^ 64 - 1)"
proof -
  have m: "unat SIZE_MAX = 2 ^ 64 - 1" by (simp add: SIZE_MAX_def unsigned_minus_1_eq_mask mask_eq_exp_minus_1)
  have le: "t \<le> SIZE_MAX" by (simp add: SIZE_MAX_def)
  have sub: "unat (SIZE_MAX - t) = 2 ^ 64 - 1 - unat t"
    using le by (simp add: unat_sub m)
  have bt: "unat t < 2 ^ 64" "unat sz < 2 ^ 64" using unsigned_less [of t] unsigned_less [of sz] by simp_all
  show ?thesis
  proof (cases "SIZE_MAX - t > sz")
    case True
    then have "unat sz < 2 ^ 64 - 1 - unat t" by (simp add: word_less_nat_alt sub)
    then have "unat t + unat sz < 2 ^ 64 - 1" by simp
    moreover from this have "unat (t + sz) = unat t + unat sz"
      by (simp add: unat_add_lem [THEN iffD1])
    ultimately show ?thesis using True by simp
  next
    case False
    then have "\<not> unat sz < 2 ^ 64 - 1 - unat t" by (simp add: word_less_nat_alt sub)
    then have "2 ^ 64 - 1 \<le> unat t + unat sz" using bt by simp
    then show ?thesis using False by (simp add: m)
  qed
qed

lemma mapBlock_insert_counters:
  "m_totalAlloc (mapBlock_insert heap mem sz p c) = m_totalAlloc c"
  "m_maxAlloc (mapBlock_insert heap mem sz p c) = m_maxAlloc c"
proof -
  have "m_totalAlloc (mapBlock_insert heap mem sz p c) = m_totalAlloc c \<and>
        m_maxAlloc (mapBlock_insert heap mem sz p c) = m_maxAlloc c"
  proof (cases "Map_find (m_heapMap c) heap")
    case None
    then have "heap \<notin> fst ` set (m_heapMap c)" by (simp add: Map_find_None)
    then show ?thesis by (simp add: mapBlock_insert_new_heap)
  next
    case (Some hi)
    then show ?thesis
      unfolding mapBlock_insert_def Let_def
      by (simp add: Report_def split: option.splits)
  qed
  then show "m_totalAlloc (mapBlock_insert heap mem sz p c) = m_totalAlloc c"
    "m_maxAlloc (mapBlock_insert heap mem sz p c) = m_maxAlloc c" by simp_all
qed

lemma findAllocedBlock_loop_Some:
  "findAllocedBlock_loop hm mem = (Some p, h) \<Longrightarrow>
   \<exists>hi. (h, hi) \<in> set hm \<and> Map_find (blockMap hi) mem = Some p"
proof (induction hm)
  case Nil
  then show ?case by simp
next
  case (Cons it rest)
  show ?case
  proof (cases "Map_find (blockMap (snd it)) mem")
    case None
    then show ?thesis using Cons by auto
  next
    case (Some q)
    then have "q = p" "fst it = h" using Cons.prems by simp_all
    then show ?thesis using Some by (cases it) auto
  qed
qed

lemma findAllocedBlock_loop_None:
  "findAllocedBlock_loop hm mem = (None, h) \<Longrightarrow>
   \<forall>it \<in> set hm. Map_find (blockMap (snd it)) mem = None"
  by (induction hm) (auto split: option.splits)

lemma findAllocedBlock_loop_untracked:
  "\<forall>it \<in> set hm. Map_find (blockMap (snd it)) mem = None \<Longrightarrow>
   findAllocedBlock_loop hm mem = (None, 0)"
  by (induction hm) auto

lemma Map_find_mem_ptrs:
  "(h, hi) \<in> set hm \<Longrightarrow> Map_find (blockMap hi) mem = Some p \<Longrightarrow> p \<in> set (ptrs_of hm)"
proof -
  assume a: "(h, hi) \<in> set hm" and b: "Map_find (blockMap hi) mem = Some p"
  from b have "(mem, p) \<in> set (blockMap hi)" by (rule Map_find_Some_mem)
  then have "p \<in> set (heap_ptrs hi)" by (force simp: heap_ptrs_def)
  with a show ?thesis by (force simp: ptrs_of_def)
qed

lemma Map_find_distinct:
  "distinct (map fst m) \<Longrightarrow> (k, v) \<in> set m \<Longrightarrow> Map_find m k = Some v"
  by (simp add: Map_find_def)

lemma wf_ledger_two: "wf ledger_two"
  by (simp add: wf_def ledger_two_def ledger0_def block_ptrs_def heap_ptrs_def)

section \<open>The leak reporter: skipped records and marking\<close>

lemma reportLeaks_block_skip:
  "skipped (fst st) (snd blockit) \<Longrightarrow> reportLeaks_block e tid heap st blockit = st"
proof (cases "blocks (fst st) (snd blockit)")
  case None
  then show ?thesis by (simp add: reportLeaks_block_def)
next
  case (Some info)
  assume "skipped (fst st) (snd blockit)"
  with Some have "reported info" by (simp add: skipped_def)
  with Some show ?thesis by (simp add: reportLeaks_block_def)
qed

lemma reportLeaks_loop_skip:
  "\<forall>b \<in> set bs. skipped (fst st) (snd b) \<Longrightarrow>
   foldl (reportLeaks_block e tid heap) st bs = st"
  by (induction bs) (simp_all add: reportLeaks_block_skip)

lemma reportLeaks_skip:
  "\<forall>b \<in> set (blockMap (snd heapit)). skipped s (snd b) \<Longrightarrow>
   reportLeaks e tid heapit (s, first, agg) = ((s, first, agg), 0)"
  by (simp add: reportLeaks_def reportLeaks_loop_skip)

lemma ReportLeaks_loop_skip:
  "\<forall>it \<in> set hm. \<forall>b \<in> set (blockMap (snd it)). skipped s (snd b) \<Longrightarrow>
   foldl (ReportLeaks_heap e) ((s, first, agg), n) hm = ((s, first, agg), n)"
  by (induction hm) (simp_all add: ReportLeaks_heap_def reportLeaks_skip)

lemma mark_block_heapMap [simp]:
  "m_heapMap (markAllLeaksAsReported_block tid s b) = m_heapMap s"
  "m_options (markAllLeaksAsReported_block tid s b) = m_options s"
  by (simp_all add: markAllLeaksAsReported_block_def split: option.splits)

lemma mark_block_skipped_mono:
  "skipped s q \<Longrightarrow> skipped (markAllLeaksAsReported_block tid s b) q"
  by (auto simp: markAllLeaksAsReported_block_def skipped_def split: option.splits)

lemma mark_block_skipped:
  "skipped (markAllLeaksAsReported_block (- 1) s b) (snd b)"
  by (auto simp: markAllLeaksAsReported_block_def skipped_def split: option.splits)

lemma mark_loop_heapMap [simp]:
  "m_heapMap (foldl (markAllLeaksAsReported_block tid) s bs) = m_heapMap s"
  "m_options (foldl (markAllLeaksAsReported_block tid) s bs) = m_options s"
  by (induction bs arbitrary: s) simp_all

lemma mark_loop_skipped_mono:
  "skipped s q \<Longrightarrow> skipped (foldl (markAllLeaksAsReported_block tid) s bs) q"
  by (induction bs arbitrary: s) (simp_all add: mark_block_skipped_mono)

lemma mark_loop_skipped:
  "b \<in> set bs \<Longrightarrow> skipped (foldl (markAllLeaksAsReported_block (- 1)) s bs) (snd b)"
proof (induction bs arbitrary: s)
  case Nil
  then show ?case by simp
next
  case (Cons a bs)
  show ?case
  proof (cases "b = a")
    case True
    then show ?thesis by (simp add: mark_loop_skipped_mono mark_block_skipped)
  next
    case False
    then show ?thesis using Cons by simp
  qed
qed

lemma mark_heap_heapMap [simp]:
  "m_heapMap (markAllLeaksAsReported tid s it) = m_heapMap s"
  "m_options (markAllLeaksAsReported tid s it) = m_options s"
  by (simp_all add: markAllLeaksAsReported_def)

lemma mark_heaps_heapMap [simp]:
  "m_heapMap (foldl (markAllLeaksAsReported tid) s hm) = m_heapMap s"
  "m_options (foldl (markAllLeaksAsReported tid) s hm) = m_options s"
  by (induction hm arbitrary: s) simp_all

lemma mark_heap_skipped_mono:
  "skipped s q \<Longrightarrow> skipped (markAllLeaksAsReported tid s it) q"
  by (simp add: markAllLeaksAsReported_def mark_loop_skipped_mono)

lemma mark_heaps_skipped_mono:
  "skipped s q \<Longrightarrow> skipped (foldl (markAllLeaksAsReported tid) s hm) q"
  by (induction hm arbitrary: s) (simp_all add: mark_heap_skipped_mono)

lemma mark_heaps_skipped:
  "it \<in> set hm \<Longrightarrow> b \<in> set (blockMap (snd it)) \<Longrightarrow>
   skipped (foldl (markAllLeaksAsReported (- 1)) s hm) (snd b)"
proof (induction hm arbitrary: s)
  case Nil
  then show ?case by simp
next
  case (Cons a hm)
  show ?case
  proof (cases "it = a")
    case True
    with Cons.prems(2) have "skipped (markAllLeaksAsReported (- 1) s a) (snd b)"
      by (simp add: markAllLeaksAsReported_def mark_loop_skipped)
    then show ?thesis by (simp add: mark_heaps_skipped_mono)
  next
    case False
    then show ?thesis using Cons by simp
  qed
qed

lemma MarkAll_heapMap [simp]:
  "m_heapMap (MarkAllLeaksAsReported s) = m_heapMap s"
  "m_options (MarkAllLeaksAsReported s) = m_options s"
  by (simp_all add: MarkAllLeaksAsReported_def)

lemma MarkAll_skipped:
  "VLD_OPT_VLDOFF \<notin> m_options s \<Longrightarrow> it \<in> set (m_heapMap s) \<Longrightarrow>
   b \<in> set (blockMap (snd it)) \<Longrightarrow> skipped (MarkAllLeaksAsReported s) (snd b)"
  by (simp add: MarkAllLeaksAsReported_def mark_heaps_skipped)

lemma ReportLeaks_after_mark:
  "ReportLeaks e (MarkAllLeaksAsReported s) = (MarkAllLeaksAsReported s, 0)"
proof (cases "VLD_OPT_VLDOFF \<in> m_options s")
  case True
  then show ?thesis by (simp add: ReportLeaks_def)
next
  case False
  have "\<forall>it \<in> set (m_heapMap s). \<forall>b \<in> set (blockMap (snd it)).
          skipped (MarkAllLeaksAsReported s) (snd b)"
    using MarkAll_skipped [OF False] by blast
  then show ?thesis
    using False by (simp add: ReportLeaks_def ReportLeaks_loop_skip)
qed

lemma mark_block_dom [simp]:
  "dom (blocks (markAllLeaksAsReported_block tid s b)) = dom (blocks s)"
  "nextBlock (markAllLeaksAsReported_block tid s b) = nextBlock s"
  by (auto simp: markAllLeaksAsReported_block_def split: option.splits)

lemma mark_loop_dom [simp]:
  "dom (blocks (foldl (markAllLeaksAsReported_block tid) s bs)) = dom (blocks s)"
  "nextBlock (foldl (markAllLeaksAsReported_block tid) s bs) = nextBlock s"
  by (induction bs arbitrary: s) simp_all

lemma mark_heaps_dom [simp]:
  "dom (blocks (foldl (markAllLeaksAsReported tid) s hm)) = dom (blocks s)"
  "nextBlock (foldl (markAllLeaksAsReported tid) s hm) = nextBlock s"
  by (induction hm arbitrary: s) (simp_all add: markAllLeaksAsReported_def)

lemma MarkAll_dom [simp]:
  "dom (blocks (MarkAllLeaksAsReported s)) = dom (blocks s)"
  "nextBlock (MarkAllLeaksAsReported s) = nextBlock s"
  by (simp_all add: MarkAllLeaksAsReported_def)

lemma wf_MarkAll: "wf s \<Longrightarrow> wf (MarkAllLeaksAsReported s)"
  by (simp add: wf_def block_ptrs_def)

lemma in_ptrs_of:
  "p \<in> set (ptrs_of hm) \<Longrightarrow> \<exists>it \<in> set hm. \<exists>b \<in> set (blockMap (snd it)). snd b = p"
  by (auto simp: ptrs_of_def heap_ptrs_def)

lemma MarkAll_all_skipped:
  assumes "wf s" "VLD_OPT_VLDOFF \<notin> m_options s"
  shows "skipped (MarkAllLeaksAsReported s) q"
proof (cases "q \<in> dom (blocks s)")
  case False
  then have "q \<notin> dom (blocks (MarkAllLeaksAsReported s))" by simp
  then have "blocks (MarkAllLeaksAsReported s) q = None" by blast
  then show ?thesis by (simp add: skipped_def)
next
  case True
  then have "q \<in> set (ptrs_of (m_heapMap s))" using assms(1) by (simp add: wf_alt)
  from in_ptrs_of [OF this] obtain it b where "it \<in> set (m_heapMap s)"
    "b \<in> set (blockMap (snd it))" "snd b = q" by blast
  then show ?thesis using MarkAll_skipped [OF assms(2)] by blast
qed

text \<open>The shape of the ledger after mapBlock.\<close>

lemma mapBlock_shape:
  assumes w: "wf s"
  shows "\<exists>s' xs hi ys us.
     mapBlock heap mem sz d u tid s = (s', nextBlock s) \<and>
     m_heapMap s' = xs @ (heap, hi) # ys \<and> blockMap hi = us @ [(mem, nextBlock s)] \<and>
     blocks s' (nextBlock s) =
       Some \<lparr>callStack = None, threadId = tid, serialNumber = m_requestCurr s, size' = sz,
             reported = False, debugCrtAlloc = d, ucrt = u\<rparr> \<and>
     (\<forall>q. q \<noteq> nextBlock s \<longrightarrow> blocks s' q = blocks s q \<or> blocks s' q = None) \<and>
     m_options s' = m_options s \<and> m_maxDataDump s' = m_maxDataDump s \<and> wf s'"
proof -
  let ?p = "nextBlock s"
  let ?c = "mapBlock_record sz d u tid s"
  let ?r = "mapBlock_insert heap mem sz ?p ?c"
  let ?new = "\<lparr>callStack = None, threadId = tid, serialNumber = m_requestCurr s,
            size' = sz, reported = False, debugCrtAlloc = d, ucrt = u\<rparr>"
  have res: "mapBlock heap mem sz d u tid s = (?r, ?p)" by (simp add: mapBlock_def Let_def)
  have w': "wf ?r" using wf_mapBlock [OF w, of heap mem sz d u tid] by (simp add: res)
  have c_hm: "m_heapMap ?c = m_heapMap s" and c_bl: "blocks ?c = (blocks s)(?p \<mapsto> ?new)"
    and c_o: "m_options ?c = m_options s" "m_maxDataDump ?c = m_maxDataDump s"
    by (simp_all add: mapBlock_record_eq)
  note fresh = wf_fresh [OF w]
  have "\<exists>xs hi ys us. m_heapMap ?r = xs @ (heap, hi) # ys \<and> blockMap hi = us @ [(mem, ?p)] \<and>
     blocks ?r ?p = Some ?new \<and>
     (\<forall>q. q \<noteq> ?p \<longrightarrow> blocks ?r q = blocks s q \<or> blocks ?r q = None) \<and>
     m_options ?r = m_options s \<and> m_maxDataDump ?r = m_maxDataDump s"
  proof (cases "heap \<in> fst ` set (m_heapMap s)")
    case False
    then have r: "?r = ?c\<lparr>m_heapMap := m_heapMap s @ [(heap, \<lparr>blockMap = [(mem, ?p)], flags = 0\<rparr>)]\<rparr>"
      using mapBlock_insert_new_heap [of heap ?c mem sz ?p] by (simp add: c_hm)
    have "m_heapMap ?r = m_heapMap s @ (heap, \<lparr>blockMap = [(mem, ?p)], flags = 0\<rparr>) # []"
      "blockMap \<lparr>blockMap = [(mem, ?p)], flags = 0\<rparr> = [] @ [(mem, ?p)]"
      "blocks ?r ?p = Some ?new"
      "\<forall>q. q \<noteq> ?p \<longrightarrow> blocks ?r q = blocks s q \<or> blocks ?r q = None"
      "m_options ?r = m_options s \<and> m_maxDataDump ?r = m_maxDataDump s"
      by (simp_all add: r c_bl c_o)
    then show ?thesis by blast
  next
    case True
    then obtain hi where f: "Map_find (m_heapMap s) heap = Some hi"
      using Map_find_None [of "m_heapMap s" heap] by auto
    have dist: "distinct (map fst (m_heapMap s))" using w by (simp add: wf_def)
    from Map_find_split [OF dist f] obtain xs ys where
      hm: "m_heapMap s = xs @ (heap, hi) # ys" and nx: "heap \<notin> fst ` set xs" and ny: "heap \<notin> fst ` set ys"
      by blast
    have chm: "m_heapMap ?c = xs @ (heap, hi) # ys" by (simp add: c_hm hm)
    show ?thesis
    proof (cases "mem \<in> fst ` set (blockMap hi)")
      case False
      have r: "?r = ?c\<lparr>m_heapMap := xs @ (heap, hi\<lparr>blockMap := blockMap hi @ [(mem, ?p)]\<rparr>) # ys\<rparr>"
        by (rule mapBlock_insert_new_block [OF chm nx ny False])
      have "m_heapMap ?r = xs @ (heap, hi\<lparr>blockMap := blockMap hi @ [(mem, ?p)]\<rparr>) # ys"
        "blockMap (hi\<lparr>blockMap := blockMap hi @ [(mem, ?p)]\<rparr>) = blockMap hi @ [(mem, ?p)]"
        "blocks ?r ?p = Some ?new"
        "\<forall>q. q \<noteq> ?p \<longrightarrow> blocks ?r q = blocks s q \<or> blocks ?r q = None"
        "m_options ?r = m_options s \<and> m_maxDataDump ?r = m_maxDataDump s"
        by (simp_all add: r c_bl c_o)
      then show ?thesis by blast
    next
      case True
      then obtain old where fo: "Map_find (blockMap hi) mem = Some old"
        using Map_find_None [of "blockMap hi" mem] by auto
      have "old \<in> set (ptrs_of (m_heapMap s))"
        by (rule Map_find_mem_ptrs [of heap hi, OF _ fo]) (simp add: hm)
      then have "old \<in> dom (blocks s)" using w by (simp add: wf_alt)
      then obtain info where oi: "blocks s old = Some info" by auto
      have op: "old \<noteq> ?p" using fresh(1) oi by auto
      have coi: "blocks ?c old = Some info" using op by (simp add: c_bl oi)
      have r: "?r = ?c\<lparr>m_curAlloc := m_curAlloc ?c - size' info,
         reportLog := reportLog ?c @ [R_NewAllocAtAllocated mem (size' info) sz],
         blocks := (blocks ?c)(old := None),
         m_heapMap := xs @ (heap, hi\<lparr>blockMap := Map_erase (blockMap hi) mem @ [(mem, ?p)]\<rparr>) # ys\<rparr>"
        by (rule mapBlock_insert_collide [OF chm nx ny fo coi])
      have "m_heapMap ?r = xs @ (heap, hi\<lparr>blockMap := Map_erase (blockMap hi) mem @ [(mem, ?p)]\<rparr>) # ys"
        "blockMap (hi\<lparr>blockMap := Map_erase (blockMap hi) mem @ [(mem, ?p)]\<rparr>)
           = Map_erase (blockMap hi) mem @ [(mem, ?p)]"
        "blocks ?r ?p = Some ?new"
        "\<forall>q. q \<noteq> ?p \<longrightarrow> blocks ?r q = blocks s q \<or> blocks ?r q = None"
        "m_options ?r = m_options s \<and> m_maxDataDump ?r = m_maxDataDump s"
        using op by (simp_all add: r c_bl c_o)
      then show ?thesis by blast
    qed
  qed
  with res w' show ?thesis by blast
qed

lemma isDebugCrtAlloc_fields [simp]:
  "callStack (snd (isDebugCrtAlloc e b i)) = callStack i"
  "size' (snd (isDebugCrtAlloc e b i)) = size' i"
  "threadId (snd (isDebugCrtAlloc e b i)) = threadId i"
  "serialNumber (snd (isDebugCrtAlloc e b i)) = serialNumber i"
  "reported (snd (isDebugCrtAlloc e b i)) = reported i"
  by (simp_all add: isDebugCrtAlloc_def Let_def)

lemma isDebugCrtAlloc_fst: "fst (isDebugCrtAlloc e b i) = debugCrtAlloc (snd (isDebugCrtAlloc e b i))"
  by (simp add: isDebugCrtAlloc_def Let_def)

lemma isDebugCrtAlloc_idem:
  "isDebugCrtAlloc e b (snd (isDebugCrtAlloc e b i)) = isDebugCrtAlloc e b i"
  by (simp add: isDebugCrtAlloc_def Let_def)

lemma eraseDuplicates_no_stack:
  "blocks s p = Some info \<Longrightarrow> callStack info = None \<Longrightarrow> eraseDuplicates s el p agg = (0, agg)"
  by (simp add: eraseDuplicates_def)

lemma Report_fields [simp]:
  "blocks (Report r s) = blocks s" "m_heapMap (Report r s) = m_heapMap s"
  "m_options (Report r s) = m_options s" "m_maxDataDump (Report r s) = m_maxDataDump s"
  "reportLog (Report r s) = reportLog s @ [r]"
  by (simp_all add: Report_def)

lemma reportLeaks_leak_fields:
  "blocks (fst (reportLeaks_leak e heap st blockit info address sz)) = blocks (fst st)"
  "m_heapMap (fst (reportLeaks_leak e heap st blockit info address sz)) = m_heapMap (fst st)"
  "m_options (fst (reportLeaks_leak e heap st blockit info address sz)) = m_options (fst st)"
  "m_maxDataDump (fst (reportLeaks_leak e heap st blockit info address sz)) = m_maxDataDump (fst st)"
  "firstLeak (snd (reportLeaks_leak e heap st blockit info address sz)) = False"
  by (simp_all add: reportLeaks_leak_def Let_def)

lemma reportLeaks_leak_log:
  "\<exists>entry. reportLog (fst (reportLeaks_leak e heap st blockit info address sz))
       = reportLog (fst st) @ (if firstLeak (snd st) then [R_LeaksDetected] else []) @ [R_Leak entry] \<and>
     le_info entry = snd blockit \<and> le_size entry = sz \<and>
     le_serialNumber entry = serialNumber info \<and> le_address entry = address \<and>
     le_total entry = sz * le_count entry \<and>
     leaksFound (snd (reportLeaks_leak e heap st blockit info address sz))
       = leaksFound (snd st) + le_count entry \<and>
     le_count entry = 1 +
         fst (if VLD_OPT_AGGREGATE_DUPLICATES \<in> m_options (fst st)
              then eraseDuplicates (fst st) (heap, fst blockit) (snd blockit) (aggregatedLeaks (snd st))
              else (0, aggregatedLeaks (snd st))) \<and>
     aggregatedLeaks (snd (reportLeaks_leak e heap st blockit info address sz))
       = snd (if VLD_OPT_AGGREGATE_DUPLICATES \<in> m_options (fst st)
              then eraseDuplicates (fst st) (heap, fst blockit) (snd blockit) (aggregatedLeaks (snd st))
              else (0, aggregatedLeaks (snd st)))"
proof -
  have ed: "eraseDuplicates (Report r s) el p agg = eraseDuplicates s el p agg" for r s el p agg
    by (simp add: eraseDuplicates_def cong: option.case_cong)
  show ?thesis
    unfolding reportLeaks_leak_def Let_def
    by (cases "firstLeak (snd st)") (simp_all add: ed)
qed

lemma reportLeaks_block_leader:
  assumes "blocks s p = Some info" "\<not> reported info" "tid = - 1 \<or> threadId info = tid"
    and "p \<notin> aggregatedLeaks v" "genuine e (m_options s) block info"
  shows "reportLeaks_block e tid heap (s, v) (block, p) =
     reportLeaks_leak e heap
       (s\<lparr>blocks := (blocks s)(p \<mapsto> snd (isDebugCrtAlloc e block info))\<rparr>, v) (block, p)
       (snd (isDebugCrtAlloc e block info))
       (if fst (isDebugCrtAlloc e block info) then CRTDBGBLOCKDATA e block else block)
       (if fst (isDebugCrtAlloc e block info)
        then getCrtBlockSize e block (ucrt (snd (isDebugCrtAlloc e block info)))
        else size' info)"
  using assms unfolding reportLeaks_block_def genuine_def Let_def
  by (auto simp: )

lemma skipped_upd_other: "q \<noteq> p \<Longrightarrow> blocks s' q = blocks s q \<Longrightarrow> skipped s' q = skipped s q"
  by (simp add: skipped_def)

section \<open>The leak reporter as one loop over all entries\<close>

lemma reportLeaks_leak_shift:
  "reportLeaks_leak e h (s, v\<lparr>leaksFound := leaksFound v + n\<rparr>) b i a z =
     (fst (reportLeaks_leak e h (s, v) b i a z),
      (snd (reportLeaks_leak e h (s, v) b i a z))
        \<lparr>leaksFound := leaksFound (snd (reportLeaks_leak e h (s, v) b i a z)) + n\<rparr>)"
  by (simp add: reportLeaks_leak_def Let_def add.assoc add.commute add.left_commute)

lemma reportLeaks_block_shift:
  "reportLeaks_block e tid h (s, v\<lparr>leaksFound := leaksFound v + n\<rparr>) b =
     (fst (reportLeaks_block e tid h (s, v) b),
      (snd (reportLeaks_block e tid h (s, v) b))
        \<lparr>leaksFound := leaksFound (snd (reportLeaks_block e tid h (s, v) b)) + n\<rparr>)"
proof (cases "blocks s (snd b)")
  case None
  then show ?thesis by (simp add: reportLeaks_block_def)
next
  case (Some info)
  show ?thesis
    unfolding reportLeaks_block_def Let_def
    using reportLeaks_leak_shift
    by (simp add: Some)
qed

lemma block_loop_shift:
  "foldl (reportLeaks_block e tid h) (s, v\<lparr>leaksFound := leaksFound v + n\<rparr>) bs =
     (fst (foldl (reportLeaks_block e tid h) (s, v) bs),
      (snd (foldl (reportLeaks_block e tid h) (s, v) bs))
        \<lparr>leaksFound := leaksFound (snd (foldl (reportLeaks_block e tid h) (s, v) bs)) + n\<rparr>)"
proof (induction bs arbitrary: s v)
  case Nil
  then show ?case by simp
next
  case (Cons b bs)
  obtain s1 v1 where r: "reportLeaks_block e tid h (s, v) b = (s1, v1)"
    by (cases "reportLeaks_block e tid h (s, v) b")
  show ?case
    using Cons [of s1 v1] by (simp add: reportLeaks_block_shift r)
qed

lemma pack_heap:
  "pack (ReportLeaks_heap e acc it) = foldl (report_step e) (pack acc) (heap_entries it)"
proof -
  obtain s f g n where acc: "acc = ((s, f, g), n)" by (cases acc) auto
  let ?v0 = "\<lparr>firstLeak = f, aggregatedLeaks = g, leaksFound = 0\<rparr>"
  let ?R = "foldl (reportLeaks_block e (- 1) (fst it)) (s, ?v0) (blockMap (snd it))"
  have fm: "foldl (report_step e) st (heap_entries it)
      = foldl (reportLeaks_block e (- 1) (fst it)) st (blockMap (snd it))" for st
    by (simp add: heap_entries_def foldl_map report_step_def)
  have "pack acc = (s, ?v0\<lparr>leaksFound := leaksFound ?v0 + n\<rparr>)" by (simp add: pack_def acc)
  then have "foldl (report_step e) (pack acc) (heap_entries it)
      = (fst ?R, (snd ?R)\<lparr>leaksFound := leaksFound (snd ?R) + n\<rparr>)"
    by (simp only: fm block_loop_shift)
  moreover have "pack (ReportLeaks_heap e acc it)
      = (fst ?R, (snd ?R)\<lparr>leaksFound := leaksFound (snd ?R) + n\<rparr>)"
    by (simp add: ReportLeaks_heap_def reportLeaks_def acc pack_def case_prod_beta add.commute)
  ultimately show ?thesis by simp
qed

lemma pack_heaps:
  "pack (foldl (ReportLeaks_heap e) acc hm) = foldl (report_step e) (pack acc) (all_entries hm)"
  by (induction hm arbitrary: acc) (simp_all add: all_entries_def pack_heap)

lemma ReportLeaks_flat:
  assumes "VLD_OPT_VLDOFF \<notin> m_options s"
  shows "ReportLeaks e s =
     (fst (foldl (report_step e) (s, \<lparr>firstLeak = True, aggregatedLeaks = {}, leaksFound = 0\<rparr>)
             (all_entries (m_heapMap s))),
      leaksFound (snd (foldl (report_step e)
             (s, \<lparr>firstLeak = True, aggregatedLeaks = {}, leaksFound = 0\<rparr>)
             (all_entries (m_heapMap s)))))"
proof -
  let ?F = "foldl (ReportLeaks_heap e) ((s, True, {}), 0) (m_heapMap s)"
  have "pack ?F = foldl (report_step e) (s, \<lparr>firstLeak = True, aggregatedLeaks = {}, leaksFound = 0\<rparr>)
             (all_entries (m_heapMap s))"
    by (simp add: pack_heaps) (simp add: pack_def)
  moreover have "ReportLeaks e s = (fst (pack ?F), leaksFound (snd (pack ?F)))"
    using assms by (simp add: ReportLeaks_def pack_def case_prod_beta)
  ultimately show ?thesis by simp
qed

section \<open>Visiting a record\<close>

lemma reportLeaks_block_visit:
  assumes "blocks s p = Some i" "\<not> reported i" "p \<notin> aggregatedLeaks v"
  shows "reportLeaks_block e (- 1) h (s, v) (a, p) = visit e h a p (s, v) (snd (isDebugCrtAlloc e a i))"
  using assms
  by (simp add: reportLeaks_block_def visit_def Let_def crt_filtered_def crt_startup_def
      isDebugCrtAlloc_fst)

lemma reportLeaks_block_agg:
  assumes "p \<in> aggregatedLeaks v"
  shows "reportLeaks_block e tid h (s, v) (a, p) = (s, v)"
  using assms by (simp add: reportLeaks_block_def Let_def split: option.splits)

lemma reportLeaks_block_reported:
  assumes "blocks s p = Some i" "reported i"
  shows "reportLeaks_block e tid h (s, v) (a, p) = (s, v)"
  using assms by (simp add: reportLeaks_block_def Let_def)

lemma reportLeaks_block_none:
  assumes "blocks s p = None"
  shows "reportLeaks_block e tid h (s, v) (a, p) = (s, v)"
  using assms by (simp add: reportLeaks_block_def Let_def)

lemma after_filters_fields [simp]:
  "callStack (after_filters e opts a j) = callStack j"
  "size' (after_filters e opts a j) = size' j"
  "threadId (after_filters e opts a j) = threadId j"
  "serialNumber (after_filters e opts a j) = serialNumber j"
  "debugCrtAlloc (after_filters e opts a j) = debugCrtAlloc j"
  "ucrt (after_filters e opts a j) = ucrt j"
  by (simp_all add: after_filters_def)

lemma touch_fields [simp]:
  "callStack (touch e opts a i) = callStack i"
  "size' (touch e opts a i) = size' i"
  "threadId (touch e opts a i) = threadId i"
  "serialNumber (touch e opts a i) = serialNumber i"
  by (simp_all add: touch_def)

lemma touch_dup_key [simp]: "dup_key (touch e opts a i) = dup_key i"
  by (simp add: dup_key_def)

lemma isDebugCrtAlloc_snd_idem:
  "snd (isDebugCrtAlloc e a (snd (isDebugCrtAlloc e a i))) = snd (isDebugCrtAlloc e a i)"
  by (simp add: isDebugCrtAlloc_idem)

lemma isDebugCrtAlloc_reported_upd:
  "snd (isDebugCrtAlloc e a (i\<lparr>reported := r\<rparr>)) = (snd (isDebugCrtAlloc e a i))\<lparr>reported := r\<rparr>"
  by (simp add: isDebugCrtAlloc_def Let_def)

lemma crt_of_after_filters:
  "\<not> reported (after_filters e opts a (snd (isDebugCrtAlloc e a i))) \<Longrightarrow>
   snd (isDebugCrtAlloc e a (after_filters e opts a (snd (isDebugCrtAlloc e a i))))
     = snd (isDebugCrtAlloc e a i)"
  by (auto simp: after_filters_def isDebugCrtAlloc_snd_idem split: if_splits)

lemma touch_idem: "touch e opts a (touch e opts a i) = touch e opts a i"
proof (cases "reported (touch e opts a i)")
  case True
  then show ?thesis by (simp add: touch_def [of e opts a "touch e opts a i"])
next
  case False
  then have nr: "\<not> reported i" by (auto simp: touch_def split: if_splits)
  then have t: "touch e opts a i = after_filters e opts a (snd (isDebugCrtAlloc e a i))"
    by (simp add: touch_def)
  from False have "touch e opts a (touch e opts a i)
      = after_filters e opts a (snd (isDebugCrtAlloc e a (touch e opts a i)))"
    by (simp add: touch_def [of e opts a "touch e opts a i"])
  also have "\<dots> = after_filters e opts a (snd (isDebugCrtAlloc e a i))"
    using False crt_of_after_filters [of e opts a i] by (simp add: t)
  finally show ?thesis by (simp add: t)
qed

lemma record_eq_up_to_reported:
  fixes j j' :: blockinfo_t
  shows "j\<lparr>reported := True\<rparr> = j'\<lparr>reported := True\<rparr> \<Longrightarrow> reported j = reported j' \<Longrightarrow> j = j'"
  by (cases j, cases j') simp

lemma after_filters_reported:
  "\<not> reported j \<Longrightarrow> reported (after_filters e opts a j) \<longleftrightarrow> \<not> crt_filtered e a j \<and> crt_startup e opts j"
  by (simp add: after_filters_def)

lemma after_filters_inj:
  assumes "after_filters e opts a j = after_filters e opts a j'" "\<not> reported j" "\<not> reported j'"
  shows "j = j'"
proof (cases "reported (after_filters e opts a j)")
  case True
  then have a: "\<not> crt_filtered e a j \<and> crt_startup e opts j"
    using assms(2) by (simp add: after_filters_reported)
  from True assms(1) have "reported (after_filters e opts a j')" by simp
  then have b: "\<not> crt_filtered e a j' \<and> crt_startup e opts j'"
    using assms(3) by (simp add: after_filters_reported)
  from assms(1) a b have eq: "j\<lparr>reported := True\<rparr> = j'\<lparr>reported := True\<rparr>"
    by (simp add: after_filters_def)
  have "reported j = reported j'" using assms(2,3) by simp
  with eq show ?thesis by (rule record_eq_up_to_reported)
next
  case False
  then have a: "after_filters e opts a j = j"
    by (auto simp: after_filters_def split: if_splits)
  from False assms(1) have "\<not> reported (after_filters e opts a j')" by simp
  then have "after_filters e opts a j' = j'"
    by (auto simp: after_filters_def split: if_splits)
  with a assms(1) show ?thesis by simp
qed

lemma visit_fields:
  "m_heapMap (fst (visit e h a p st j)) = m_heapMap (fst st)"
  "m_options (fst (visit e h a p st j)) = m_options (fst st)"
  "m_maxDataDump (fst (visit e h a p st j)) = m_maxDataDump (fst st)"
  "blocks (fst (visit e h a p st j)) = (blocks (fst st))(p \<mapsto> after_filters e (m_options (fst st)) a j)"
  by (simp_all add: visit_def Let_def after_filters_def reportLeaks_leak_fields)

lemma in_all_entries:
  "it \<in> set hm \<Longrightarrow> b \<in> set (blockMap (snd it)) \<Longrightarrow> (fst it, b) \<in> set (all_entries hm)"
  by (force simp: all_entries_def heap_entries_def)

lemma eraseDuplicates_Report [simp]:
  "eraseDuplicates (Report r s) el p agg = eraseDuplicates s el p agg"
  by (simp add: eraseDuplicates_def cong: option.case_cong)

lemma eraseDuplicates_block_cong:
  assumes "map_option dup_key (st' (snd b)) = map_option dup_key (st (snd b))"
    and "size' ei' = size' ei"
  shows "eraseDuplicates_block st' el ei' ecs h acc b = eraseDuplicates_block st el ei ecs h acc b"
proof (cases "st (snd b)")
  case None
  with assms(1) have "st' (snd b) = None" by simp
  with None show ?thesis by (simp add: eraseDuplicates_block_def)
next
  case (Some i)
  with assms(1) obtain i' where i': "st' (snd b) = Some i'" and k: "dup_key i' = dup_key i"
    by (cases "st' (snd b)") auto
  from k have "callStack i' = callStack i" "size' i' = size' i" by (simp_all add: dup_key_def)
  then show ?thesis using Some i' assms(2)
    by (auto simp: eraseDuplicates_block_def split: option.splits)
qed

lemma eraseDuplicates_cong:
  assumes hm: "m_heapMap s' = m_heapMap s"
    and k: "\<forall>en \<in> set (all_entries (m_heapMap s)).
              map_option dup_key (blocks s' (en_ptr en)) = map_option dup_key (blocks s (en_ptr en))"
    and kp: "map_option dup_key (blocks s' p) = map_option dup_key (blocks s p)"
  shows "eraseDuplicates s' el p agg = eraseDuplicates s el p agg"
proof (cases "blocks s p")
  case None
  with kp have "blocks s' p = None" by simp
  with None show ?thesis by (simp add: eraseDuplicates_def)
next
  case (Some ei)
  with kp obtain ei' where ei': "blocks s' p = Some ei'" and ke: "dup_key ei' = dup_key ei"
    by (cases "blocks s' p") auto
  from ke have cs: "callStack ei' = callStack ei" and sz: "size' ei' = size' ei"
    by (simp_all add: dup_key_def)
  show ?thesis
  proof (cases "callStack ei")
    case None
    then show ?thesis using Some ei' cs by (simp add: eraseDuplicates_def)
  next
    case (Some ecs)
    have inner: "foldl (eraseDuplicates_block (blocks s') el ei' ecs (fst it)) acc (blockMap (snd it))
        = foldl (eraseDuplicates_block (blocks s) el ei ecs (fst it)) acc (blockMap (snd it))"
      if "it \<in> set (m_heapMap s)" for it acc
    proof (rule foldl_cong [OF refl refl])
      fix a b assume "b \<in> set (blockMap (snd it))"
      from in_all_entries [OF that this] k
      have "map_option dup_key (blocks s' (snd b)) = map_option dup_key (blocks s (snd b))"
        by (force simp: en_ptr_def)
      then show "eraseDuplicates_block (blocks s') el ei' ecs (fst it) a b
          = eraseDuplicates_block (blocks s) el ei ecs (fst it) a b"
        using sz by (rule eraseDuplicates_block_cong)
    qed
    have "foldl (\<lambda>acc heapit. foldl (eraseDuplicates_block (blocks s') el ei' ecs (fst heapit))
                acc (blockMap (snd heapit))) (0, agg) (m_heapMap s)
        = foldl (\<lambda>acc heapit. foldl (eraseDuplicates_block (blocks s) el ei ecs (fst heapit))
                acc (blockMap (snd heapit))) (0, agg) (m_heapMap s)"
      by (rule foldl_cong [OF refl refl]) (simp add: inner)
    then show ?thesis
      using \<open>blocks s p = Some ei\<close> ei' cs Some by (simp add: eraseDuplicates_def hm)
  qed
qed

lemma reportLeaks_leak_cong:
  assumes "m_options s' = m_options s" "m_maxDataDump s' = m_maxDataDump s"
    and "\<And>agg. eraseDuplicates s' (h, fst b) (snd b) agg = eraseDuplicates s (h, fst b) (snd b) agg"
  shows "snd (reportLeaks_leak e h (s', v) b j ad sz) = snd (reportLeaks_leak e h (s, v) b j ad sz)"
    and "\<exists>out. reportLog (fst (reportLeaks_leak e h (s, v) b j ad sz)) = reportLog s @ out \<and>
           reportLog (fst (reportLeaks_leak e h (s', v) b j ad sz)) = reportLog s' @ out"
  using assms by (simp_all add: reportLeaks_leak_def Let_def)

section \<open>Two runs of the reporter on stores that agree up to visits\<close>

lemma report_step_cases:
  "report_step e (s, v) (h, a, p) = (s, v) \<or>
   (\<exists>i. blocks s p = Some i \<and> \<not> reported i \<and> p \<notin> aggregatedLeaks v \<and>
        report_step e (s, v) (h, a, p) = visit e h a p (s, v) (snd (isDebugCrtAlloc e a i)))"
proof (cases "blocks s p")
  case None
  then show ?thesis by (simp add: report_step_def reportLeaks_block_none)
next
  case (Some i)
  show ?thesis
  proof (cases "reported i \<or> p \<in> aggregatedLeaks v")
    case True
    then show ?thesis
      using Some by (auto simp: report_step_def reportLeaks_block_reported reportLeaks_block_agg)
  next
    case False
    then show ?thesis
      using Some by (simp add: report_step_def reportLeaks_block_visit)
  qed
qed

lemma report_step_fields:
  "m_heapMap (fst (report_step e st en)) = m_heapMap (fst st)"
  "m_options (fst (report_step e st en)) = m_options (fst st)"
  "m_maxDataDump (fst (report_step e st en)) = m_maxDataDump (fst st)"
proof -
  obtain s v where st: "st = (s, v)" by (cases st)
  obtain h a p where en: "en = (h, a, p)" by (cases en)
  from report_step_cases [of e s v h a p]
  show "m_heapMap (fst (report_step e st en)) = m_heapMap (fst st)"
    "m_options (fst (report_step e st en)) = m_options (fst st)"
    "m_maxDataDump (fst (report_step e st en)) = m_maxDataDump (fst st)"
    unfolding st en by (auto simp: visit_fields)
qed

lemma report_step_store:
  "\<exists>y. blocks (fst (report_step e (s, v) (h, a, p))) = (blocks s)(p := y) \<and>
       (y = blocks s p \<or>
        (\<exists>i. blocks s p = Some i \<and> \<not> reported i \<and> y = Some (touch e (m_options s) a i)))"
proof -
  from report_step_cases [of e s v h a p]
  consider "report_step e (s, v) (h, a, p) = (s, v)"
    | i where "blocks s p = Some i" "\<not> reported i"
      "report_step e (s, v) (h, a, p) = visit e h a p (s, v) (snd (isDebugCrtAlloc e a i))"
    by blast
  then show ?thesis
  proof cases
    case 1
    then have "blocks (fst (report_step e (s, v) (h, a, p))) = (blocks s)(p := blocks s p)"
      by simp
    then show ?thesis by blast
  next
    case 2
    then have "blocks (fst (report_step e (s, v) (h, a, p)))
        = (blocks s)(p := Some (touch e (m_options s) a i))"
      by (simp add: visit_fields touch_def)
    with 2 show ?thesis by blast
  qed
qed

lemma touch_eq_dup_key:
  assumes "touch_eq e opts ents st st'" "en \<in> set ents"
  shows "map_option dup_key (st' (en_ptr en)) = map_option dup_key (st (en_ptr en))"
proof -
  from assms have t: "map_option (touch e opts (en_addr en)) (st (en_ptr en))
      = map_option (touch e opts (en_addr en)) (st' (en_ptr en))"
    by (simp add: touch_eq_def)
  show ?thesis
  proof (cases "st (en_ptr en)")
    case None
    with t show ?thesis by simp
  next
    case (Some i)
    with t obtain i' where i': "st' (en_ptr en) = Some i'"
      and e: "touch e opts (en_addr en) i = touch e opts (en_addr en) i'"
      by (cases "st' (en_ptr en)") auto
    from e have "dup_key (touch e opts (en_addr en) i) = dup_key (touch e opts (en_addr en) i')"
      by simp
    then show ?thesis using Some i' by simp
  qed
qed

lemma step_sim_obs:
  assumes hm: "m_heapMap s' = m_heapMap s" and o: "m_options s' = m_options s"
    and md: "m_maxDataDump s' = m_maxDataDump s"
    and te: "touch_eq e (m_options s) (all_entries (m_heapMap s)) (blocks s) (blocks s')"
    and en: "(h, a, p) \<in> set (all_entries (m_heapMap s))"
  shows "snd (report_step e (s', v) (h, a, p)) = snd (report_step e (s, v) (h, a, p)) \<and>
     (\<exists>out. reportLog (fst (report_step e (s, v) (h, a, p))) = reportLog s @ out \<and>
        reportLog (fst (report_step e (s', v) (h, a, p))) = reportLog s' @ out)"
proof -
  let ?T = "touch e (m_options s) a"
  from te en have t: "map_option ?T (blocks s p) = map_option ?T (blocks s' p)"
    by (force simp: touch_eq_def en_addr_def en_ptr_def)
  have skip: "?thesis" if "report_step e (s', v) (h, a, p) = (s', v)"
    "report_step e (s, v) (h, a, p) = (s, v)"
    using that by simp
  show ?thesis
  proof (cases "blocks s p")
    case None
    with t have "blocks s' p = None" by simp
    with None show ?thesis by (intro skip) (simp_all add: report_step_def reportLeaks_block_none)
  next
    case (Some i)
    with t obtain i' where i': "blocks s' p = Some i'" and tt: "?T i = ?T i'"
      by (cases "blocks s' p") auto
    show ?thesis
    proof (cases "p \<in> aggregatedLeaks v")
      case True
      then show ?thesis by (intro skip) (simp_all add: report_step_def reportLeaks_block_agg)
    next
      case False
      note na = this
      let ?j = "snd (isDebugCrtAlloc e a i)"
      let ?j' = "snd (isDebugCrtAlloc e a i')"
      have quiet: "snd (visit e h a p (x, v) j) = v \<and> reportLog (fst (visit e h a p (x, v) j)) = reportLog x"
        if "reported (after_filters e (m_options x) a j)" "\<not> reported j" for x j
        using that by (auto simp: visit_def Let_def after_filters_def split: if_splits)
      show ?thesis
      proof (cases "reported i")
        case True
        note ri = this
        then have s1: "report_step e (s, v) (h, a, p) = (s, v)"
          using Some by (simp add: report_step_def reportLeaks_block_reported)
        show ?thesis
        proof (cases "reported i'")
          case True
          then show ?thesis using i' s1 by (intro skip) (simp_all add: report_step_def reportLeaks_block_reported)
        next
          case False
          then have s2: "report_step e (s', v) (h, a, p) = visit e h a p (s', v) ?j'"
            using i' na by (simp add: report_step_def reportLeaks_block_visit)
          from tt ri False have "reported (after_filters e (m_options s') a ?j')"
            by (simp add: touch_def o)
          from quiet [OF this] False show ?thesis by (simp add: s1 s2)
        qed
      next
        case False
        note nri = this
        then have s1: "report_step e (s, v) (h, a, p) = visit e h a p (s, v) ?j"
          using Some na by (simp add: report_step_def reportLeaks_block_visit)
        show ?thesis
        proof (cases "reported i'")
          case True
          then have s2: "report_step e (s', v) (h, a, p) = (s', v)"
            using i' by (simp add: report_step_def reportLeaks_block_reported)
          from tt True nri have "reported (after_filters e (m_options s) a ?j)"
            by (simp add: touch_def)
          from quiet [OF this] nri show ?thesis by (simp add: s1 s2)
        next
          case False
          then have s2: "report_step e (s', v) (h, a, p) = visit e h a p (s', v) ?j'"
            using i' na by (simp add: report_step_def reportLeaks_block_visit)
          from tt nri False have af: "after_filters e (m_options s) a ?j = after_filters e (m_options s) a ?j'"
            by (simp add: touch_def)
          have nj: "\<not> reported ?j" "\<not> reported ?j'" using nri False by simp_all
          have jj: "?j' = ?j" by (rule after_filters_inj [OF af nj, symmetric])
          let ?x = "s\<lparr>blocks := (blocks s)(p \<mapsto> ?j)\<rparr>"
          let ?x' = "s'\<lparr>blocks := (blocks s')(p \<mapsto> ?j)\<rparr>"
          have ed: "eraseDuplicates ?x' (h, a) p agg = eraseDuplicates ?x (h, a) p agg" for agg
          proof (rule eraseDuplicates_cong)
            show "m_heapMap ?x' = m_heapMap ?x" by (simp add: hm)
            show "\<forall>en\<in>set (all_entries (m_heapMap ?x)).
                map_option dup_key (blocks ?x' (en_ptr en)) = map_option dup_key (blocks ?x (en_ptr en))"
              using touch_eq_dup_key [OF te] by simp
            show "map_option dup_key (blocks ?x' p) = map_option dup_key (blocks ?x p)" by simp
          qed
          have lk: "snd (reportLeaks_leak e h (?x', v) (a, p) ?j ad sz)
                = snd (reportLeaks_leak e h (?x, v) (a, p) ?j ad sz) \<and>
              (\<exists>out. reportLog (fst (reportLeaks_leak e h (?x, v) (a, p) ?j ad sz)) = reportLog s @ out \<and>
                 reportLog (fst (reportLeaks_leak e h (?x', v) (a, p) ?j ad sz)) = reportLog s' @ out)"
            for ad sz
            using reportLeaks_leak_cong [of ?x' ?x h "(a, p)" e v ?j ad sz] ed
            by (simp add: o md)
          have nil: "\<exists>out. reportLog s = reportLog s @ out \<and> reportLog s' = reportLog s' @ out"
            by (rule exI [of _ "[]"]) simp
          show ?thesis
            unfolding s1 s2 jj visit_def Let_def
            using lk nil by (simp add: o)
        qed
      qed
    qed
  qed
qed

lemma en_ptr_all_entries: "map en_ptr (all_entries hm) = ptrs_of hm"
  by (induction hm)
     (simp_all add: all_entries_def ptrs_of_def heap_entries_def heap_ptrs_def en_ptr_def comp_def)

lemma touch_eq_refl: "touch_eq e opts ents st st"
  by (simp add: touch_eq_def)

lemma touch_eq_trans:
  "touch_eq e opts ents st st' \<Longrightarrow> touch_eq e opts ents st' st'' \<Longrightarrow> touch_eq e opts ents st st''"
  by (simp add: touch_eq_def)

lemma touch_eq_step:
  assumes d: "distinct (map en_ptr ents)" and en: "(h, a, p) \<in> set ents"
    and y: "st1 = st(p := y)" "map_option (touch e opts a) y = map_option (touch e opts a) (st p)"
    and y': "st1' = st'(p := y')" "map_option (touch e opts a) y' = map_option (touch e opts a) (st' p)"
    and te: "touch_eq e opts ents st st'"
  shows "touch_eq e opts ents st1 st1'"
  unfolding touch_eq_def
proof
  fix en' assume m: "en' \<in> set ents"
  show "map_option (touch e opts (en_addr en')) (st1 (en_ptr en'))
      = map_option (touch e opts (en_addr en')) (st1' (en_ptr en'))"
  proof (cases "en_ptr en' = p")
    case False
    then show ?thesis using te m by (simp add: y(1) y'(1) touch_eq_def)
  next
    case True
    have "inj_on en_ptr (set ents)" using d by (simp add: distinct_map)
    moreover have "en_ptr (h, a, p) = p" by (simp add: en_ptr_def)
    ultimately have "en' = (h, a, p)" using True m en by (auto dest: inj_onD)
    then have a: "en_addr en' = a" by (simp add: en_addr_def)
    from te en have "map_option (touch e opts a) (st p) = map_option (touch e opts a) (st' p)"
      by (force simp: touch_eq_def en_addr_def en_ptr_def)
    then show ?thesis using True by (simp add: a y y')
  qed
qed

lemma report_step_store_touch:
  "\<exists>y. blocks (fst (report_step e (s, v) (h, a, p))) = (blocks s)(p := y) \<and>
       map_option (touch e (m_options s) a) y = map_option (touch e (m_options s) a) (blocks s p)"
proof -
  from report_step_store [of e s v h a p] obtain y where
    b: "blocks (fst (report_step e (s, v) (h, a, p))) = (blocks s)(p := y)"
    and c: "y = blocks s p \<or>
        (\<exists>i. blocks s p = Some i \<and> \<not> reported i \<and> y = Some (touch e (m_options s) a i))"
    by blast
  from c have "map_option (touch e (m_options s) a) y = map_option (touch e (m_options s) a) (blocks s p)"
    by (auto simp: touch_idem)
  with b show ?thesis by blast
qed

lemma step_sim_te:
  assumes d: "distinct (map en_ptr ents)" and en: "(h, a, p) \<in> set ents"
    and o: "m_options s' = m_options s"
    and te: "touch_eq e (m_options s) ents (blocks s) (blocks s')"
  shows "touch_eq e (m_options s) ents (blocks (fst (report_step e (s, v) (h, a, p))))
     (blocks (fst (report_step e (s', v') (h, a, p))))"
proof -
  from report_step_store_touch [of e s v h a p] obtain y where
    y: "blocks (fst (report_step e (s, v) (h, a, p))) = (blocks s)(p := y)"
      "map_option (touch e (m_options s) a) y = map_option (touch e (m_options s) a) (blocks s p)"
    by blast
  from report_step_store_touch [of e s' v' h a p] obtain y' where
    y': "blocks (fst (report_step e (s', v') (h, a, p))) = (blocks s')(p := y')"
      "map_option (touch e (m_options s) a) y' = map_option (touch e (m_options s) a) (blocks s' p)"
    by (auto simp: o)
  show ?thesis by (rule touch_eq_step [OF d en y y' te])
qed

lemma step_self_te:
  assumes d: "distinct (map en_ptr ents)" and en: "(h, a, p) \<in> set ents"
  shows "touch_eq e (m_options s) ents (blocks s) (blocks (fst (report_step e (s, v) (h, a, p))))"
proof -
  from report_step_store_touch [of e s v h a p] obtain y where
    y: "blocks (fst (report_step e (s, v) (h, a, p))) = (blocks s)(p := y)"
      "map_option (touch e (m_options s) a) y = map_option (touch e (m_options s) a) (blocks s p)"
    by blast
  have t: "blocks s = (blocks s)(p := blocks s p)" by simp
  show ?thesis
    by (rule touch_eq_step [OF d en t _ y touch_eq_refl]) simp
qed

lemma run_fields:
  "m_heapMap (fst (foldl (report_step e) st L)) = m_heapMap (fst st)"
  "m_options (fst (foldl (report_step e) st L)) = m_options (fst st)"
  "m_maxDataDump (fst (foldl (report_step e) st L)) = m_maxDataDump (fst st)"
  by (induction L arbitrary: st) (simp_all add: report_step_fields)

lemma run_self_te:
  assumes d: "distinct (map en_ptr ents)" and sub: "set L \<subseteq> set ents"
  shows "touch_eq e (m_options s) ents (blocks s) (blocks (fst (foldl (report_step e) (s, v) L)))"
  using sub
proof (induction L arbitrary: s v)
  case Nil
  then show ?case by (simp add: touch_eq_refl)
next
  case (Cons en L)
  obtain h a p where en: "en = (h, a, p)" by (cases en)
  obtain s1 v1 where r: "report_step e (s, v) en = (s1, v1)" by (cases "report_step e (s, v) en")
  have o1: "m_options s1 = m_options s" using report_step_fields(2) [of e "(s, v)" en] by (simp add: r)
  have m: "(h, a, p) \<in> set ents" using Cons.prems by (simp add: en)
  have "touch_eq e (m_options s) ents (blocks s) (blocks s1)"
    using step_self_te [OF d m, of e s v] by (simp add: en [symmetric] r)
  moreover have "touch_eq e (m_options s) ents (blocks s1) (blocks (fst (foldl (report_step e) (s1, v1) L)))"
    using Cons.IH [of s1 v1] Cons.prems by (simp add: o1)
  ultimately show ?case by (simp add: r) (rule touch_eq_trans)
qed

lemma run_sim:
  assumes d: "distinct (map en_ptr (all_entries hm))"
    and sub: "set L \<subseteq> set (all_entries hm)"
    and hm: "m_heapMap s = hm" "m_heapMap s' = hm" and o: "m_options s' = m_options s"
    and md: "m_maxDataDump s' = m_maxDataDump s"
    and te: "touch_eq e (m_options s) (all_entries hm) (blocks s) (blocks s')"
  shows "snd (foldl (report_step e) (s', v) L) = snd (foldl (report_step e) (s, v) L) \<and>
     (\<exists>out. reportLog (fst (foldl (report_step e) (s, v) L)) = reportLog s @ out \<and>
        reportLog (fst (foldl (report_step e) (s', v) L)) = reportLog s' @ out)"
  using sub hm o md te
proof (induction L arbitrary: s s' v)
  case Nil
  then show ?case by simp
next
  case (Cons en L)
  obtain h a p where en: "en = (h, a, p)" by (cases en)
  obtain s1 v1 where r: "report_step e (s, v) en = (s1, v1)" by (cases "report_step e (s, v) en")
  obtain s1' v1' where r': "report_step e (s', v) en = (s1', v1')" by (cases "report_step e (s', v) en")
  have m: "(h, a, p) \<in> set (all_entries (m_heapMap s))" using Cons.prems by (simp add: en)
  have te0: "touch_eq e (m_options s) (all_entries (m_heapMap s)) (blocks s) (blocks s')"
    using Cons.prems by simp
  have hm0: "m_heapMap s' = m_heapMap s" using Cons.prems by simp
  from step_sim_obs [OF hm0 Cons.prems(4) Cons.prems(5) te0 m, of v]
  obtain out1 where v1: "v1' = v1" and l1: "reportLog s1 = reportLog s @ out1"
    and l1': "reportLog s1' = reportLog s' @ out1"
    by (auto simp: en [symmetric] r r')
  have f1: "m_heapMap s1 = hm" "m_options s1 = m_options s" "m_maxDataDump s1 = m_maxDataDump s"
    using report_step_fields [of e "(s, v)" en] Cons.prems by (simp_all add: r)
  have f1': "m_heapMap s1' = hm" "m_options s1' = m_options s" "m_maxDataDump s1' = m_maxDataDump s"
    using report_step_fields [of e "(s', v)" en] Cons.prems by (simp_all add: r')
  have m': "(h, a, p) \<in> set (all_entries hm)" using Cons.prems by (simp add: en)
  have te1: "touch_eq e (m_options s1) (all_entries hm) (blocks s1) (blocks s1')"
    using step_sim_te [OF d m' Cons.prems(4), of e v v] Cons.prems(6)
    by (simp add: en [symmetric] r r' f1)
  from Cons.IH [of s1 s1' v1] Cons.prems(1) f1 f1' te1
  obtain out2 where v2: "snd (foldl (report_step e) (s1', v1) L) = snd (foldl (report_step e) (s1, v1) L)"
    and l2: "reportLog (fst (foldl (report_step e) (s1, v1) L)) = reportLog s1 @ out2"
    and l2': "reportLog (fst (foldl (report_step e) (s1', v1) L)) = reportLog s1' @ out2"
    by auto
  show ?case
    using v2 l2 l2' by (simp add: r r' v1 l1 l1')
qed

section \<open>The total-allocated counter never wraps\<close>

lemma wf_finite: "wf s \<Longrightarrow> finite (dom (blocks s))"
  by (metis wf_def List.finite_set)

lemma store_nat_insert:
  assumes "finite (dom st)" "p \<notin> dom st"
  shows "store_nat (st(p \<mapsto> x)) = store_nat st + unat (size' x)"
proof -
  let ?g = "\<lambda>q. unat (size_at (st(p \<mapsto> x)) q)"
  have a: "dom (st(p \<mapsto> x)) = insert p (dom st)" by simp
  have b: "?g p = unat (size' x)" by (simp add: size_at_def)
  have c: "sum ?g (dom st) = store_nat st"
    unfolding store_nat_def using assms(2) by (intro sum.cong) (auto simp: size_at_def)
  have "store_nat (st(p \<mapsto> x)) = sum ?g (insert p (dom st))"
    by (simp only: store_nat_def a)
  also have "\<dots> = ?g p + sum ?g (dom st)" by (rule sum.insert [OF assms])
  finally show ?thesis by (simp only: b c add.commute)
qed

lemma store_nat_delete:
  assumes "finite (dom st)" "st p = Some i"
  shows "store_nat st = store_nat (st(p := None)) + unat (size' i)"
proof -
  let ?g = "\<lambda>q. unat (size_at st q)"
  have d: "dom st = insert p (dom (st(p := None)))" using assms(2) by auto
  have f: "finite (dom (st(p := None)))" using assms(1) by simp
  have n: "p \<notin> dom (st(p := None))" by simp
  have b: "?g p = unat (size' i)" using assms(2) by (simp add: size_at_def)
  have c: "sum ?g (dom (st(p := None))) = store_nat (st(p := None))"
    unfolding store_nat_def by (intro sum.cong) (auto simp: size_at_def)
  have "store_nat st = sum ?g (insert p (dom (st(p := None))))"
    unfolding store_nat_def using d by simp
  also have "\<dots> = ?g p + sum ?g (dom (st(p := None)))" by (rule sum.insert [OF f n])
  finally show ?thesis by (simp only: b c add.commute)
qed

lemma store_nat_restrict:
  assumes "finite (dom st)"
  shows "store_nat (\<lambda>p. if p \<in> S then None else st p) \<le> store_nat st"
proof -
  let ?st' = "\<lambda>p. if p \<in> S then None else st p"
  have sub: "dom ?st' \<subseteq> dom st" by (auto split: if_splits)
  have "store_nat ?st' = (\<Sum>q \<in> dom ?st'. unat (size_at st q))"
    unfolding store_nat_def by (intro sum.cong) (auto simp: size_at_def split: if_splits)
  also have "\<dots> \<le> (\<Sum>q \<in> dom st. unat (size_at st q))"
    using sub assms by (intro sum_mono2) auto
  finally show ?thesis by (simp add: store_nat_def)
qed

lemma store_nat_update:
  assumes "finite (dom st)" "st p = Some i"
  shows "store_nat (st(p \<mapsto> x)) + unat (size' i) = store_nat st + unat (size' x)"
proof -
  have f: "finite (dom (st(p := None)))" using assms(1) by simp
  have "store_nat (st(p \<mapsto> x)) = store_nat ((st(p := None))(p \<mapsto> x))" by simp
  also have "\<dots> = store_nat (st(p := None)) + unat (size' x)"
    by (rule store_nat_insert [OF f]) simp
  finally show ?thesis using store_nat_delete [OF assms] by simp
qed

lemma store_nat_member:
  assumes "finite (dom st)" "st p = Some i"
  shows "unat (size' i) \<le> store_nat st"
  using store_nat_delete [OF assms] by simp

lemma wf_unmapBlock: "wf s \<Longrightarrow> wf (unmapBlock e heap mem c s)"
  using unmapBlock_inv [OF wf_ledger_inv] by (simp add: ledger_inv_def)

lemma wf_unmapHeap: "wf s \<Longrightarrow> wf (unmapHeap heap s)"
  using unmapHeap_inv [OF wf_ledger_inv] by (simp add: ledger_inv_def)

lemma wf_mapHeap: "wf s \<Longrightarrow> wf (mapHeap heap s)"
  using mapHeap_inv [OF wf_ledger_inv] by (simp add: ledger_inv_def)

lemma wf_remapBlock: "wf s \<Longrightarrow> wf (fst (remapBlock e heap mem newmem sz d u tid c s))"
  using remapBlock_inv [OF wf_ledger_inv] by (simp add: ledger_inv_def)

lemma mapBlock_effect:
  assumes w: "wf s"
  shows "(tracked s heap mem = None \<and>
      blocks (fst (mapBlock heap mem sz d u tid s)) =
        (blocks s)(nextBlock s \<mapsto> \<lparr>callStack = None, threadId = tid,
           serialNumber = m_requestCurr s, size' = sz, reported = False,
           debugCrtAlloc = d, ucrt = u\<rparr>) \<and>
      m_curAlloc (fst (mapBlock heap mem sz d u tid s)) = m_curAlloc s + sz) \<or>
     (\<exists>old info. tracked s heap mem = Some (old, info) \<and> old \<noteq> nextBlock s \<and>
        blocks (fst (mapBlock heap mem sz d u tid s)) =
          (blocks s)(nextBlock s \<mapsto> \<lparr>callStack = None, threadId = tid,
             serialNumber = m_requestCurr s, size' = sz, reported = False,
             debugCrtAlloc = d, ucrt = u\<rparr>, old := None) \<and>
        m_curAlloc (fst (mapBlock heap mem sz d u tid s)) = m_curAlloc s + sz - size' info)"
proof -
  let ?p = "nextBlock s"
  let ?c = "mapBlock_record sz d u tid s"
  let ?r = "mapBlock_insert heap mem sz ?p ?c"
  let ?new = "\<lparr>callStack = None, threadId = tid, serialNumber = m_requestCurr s,
            size' = sz, reported = False, debugCrtAlloc = d, ucrt = u\<rparr>"
  have res: "fst (mapBlock heap mem sz d u tid s) = ?r" by (simp add: mapBlock_def Let_def)
  have c_hm: "m_heapMap ?c = m_heapMap s" and c_bl: "blocks ?c = (blocks s)(?p \<mapsto> ?new)"
    and c_cur: "m_curAlloc ?c = m_curAlloc s + sz"
    by (simp_all add: mapBlock_record_eq)
  note fresh = wf_fresh [OF w]
  show ?thesis
  proof (cases "heap \<in> fst ` set (m_heapMap s)")
    case False
    then have r: "?r = ?c\<lparr>m_heapMap := m_heapMap s @ [(heap, \<lparr>blockMap = [(mem, ?p)], flags = 0\<rparr>)]\<rparr>"
      using mapBlock_insert_new_heap [of heap ?c mem sz ?p] by (simp add: c_hm)
    from False have "Map_find (m_heapMap s) heap = None" by (simp add: Map_find_None)
    then have "tracked s heap mem = None" by (simp add: tracked_def)
    then show ?thesis unfolding res by (simp add: r c_bl c_cur)
  next
    case True
    then obtain hi where f: "Map_find (m_heapMap s) heap = Some hi"
      using Map_find_None [of "m_heapMap s" heap] by auto
    have dist: "distinct (map fst (m_heapMap s))" using w by (simp add: wf_def)
    from Map_find_split [OF dist f] obtain xs ys where
      hm: "m_heapMap s = xs @ (heap, hi) # ys" and nx: "heap \<notin> fst ` set xs" and ny: "heap \<notin> fst ` set ys"
      by blast
    have chm: "m_heapMap ?c = xs @ (heap, hi) # ys" by (simp add: c_hm hm)
    show ?thesis
    proof (cases "mem \<in> fst ` set (blockMap hi)")
      case False
      have r: "?r = ?c\<lparr>m_heapMap := xs @ (heap, hi\<lparr>blockMap := blockMap hi @ [(mem, ?p)]\<rparr>) # ys\<rparr>"
        by (rule mapBlock_insert_new_block [OF chm nx ny False])
      from False have "Map_find (blockMap hi) mem = None" by (simp add: Map_find_None)
      then have "tracked s heap mem = None" by (simp add: tracked_def f)
      then show ?thesis unfolding res by (simp add: r c_bl c_cur)
    next
      case True
      then obtain old where fo: "Map_find (blockMap hi) mem = Some old"
        using Map_find_None [of "blockMap hi" mem] by auto
      have "old \<in> set (ptrs_of (m_heapMap s))"
        by (rule Map_find_mem_ptrs [of heap hi, OF _ fo]) (simp add: hm)
      then have "old \<in> dom (blocks s)" using w by (simp add: wf_alt)
      then obtain info where oi: "blocks s old = Some info" by auto
      have op: "old \<noteq> ?p" using fresh(1) oi by auto
      have coi: "blocks ?c old = Some info" using op by (simp add: c_bl oi)
      have r: "?r = ?c\<lparr>m_curAlloc := m_curAlloc ?c - size' info,
         reportLog := reportLog ?c @ [R_NewAllocAtAllocated mem (size' info) sz],
         blocks := (blocks ?c)(old := None),
         m_heapMap := xs @ (heap, hi\<lparr>blockMap := Map_erase (blockMap hi) mem @ [(mem, ?p)]\<rparr>) # ys\<rparr>"
        by (rule mapBlock_insert_collide [OF chm nx ny fo coi])
      have t: "tracked s heap mem = Some (old, info)" by (simp add: tracked_def f fo oi)
      have "blocks ?r = (blocks s)(?p \<mapsto> ?new, old := None)" by (simp add: r c_bl)
      moreover have "m_curAlloc ?r = m_curAlloc s + sz - size' info" by (simp add: r c_cur)
      ultimately show ?thesis unfolding res using t op by blast
    qed
  qed
qed

lemma mapBlock_totals:
  "m_totalAlloc (fst (mapBlock heap mem sz d u tid s))
     = (if SIZE_MAX - m_totalAlloc s > sz then m_totalAlloc s + sz else SIZE_MAX)"
  "m_maxAlloc (fst (mapBlock heap mem sz d u tid s))
     = (if m_curAlloc s + sz > m_maxAlloc s then m_curAlloc s + sz else m_maxAlloc s)"
  by (simp_all add: mapBlock_def Let_def mapBlock_insert_counters mapBlock_record_eq)

lemma unat_SIZE_MAX: "unat SIZE_MAX = 2 ^ 64 - 1"
  by (simp add: SIZE_MAX_def unsigned_minus_1_eq_mask mask_eq_exp_minus_1)

lemma SIZE_MAX_top: "unat (x :: SIZE_T) \<le> 2 ^ 64 - 1"
  using unsigned_less [of x, where 'a = nat] by simp

lemma unat_eq_SIZE_MAX: "unat (x :: SIZE_T) = 2 ^ 64 - 1 \<Longrightarrow> x = SIZE_MAX"
  by (metis unat_SIZE_MAX word_unat_eq_iff)

lemma sat_inv:
  fixes t sz :: SIZE_T
  assumes "t = SIZE_MAX \<or> n \<le> unat t" "n' \<le> n + unat sz"
  shows "(if SIZE_MAX - t > sz then t + sz else SIZE_MAX) = SIZE_MAX \<or>
         n' \<le> unat (if SIZE_MAX - t > sz then t + sz else SIZE_MAX)"
proof -
  let ?t' = "if SIZE_MAX - t > sz then t + sz else SIZE_MAX"
  have u: "unat ?t' = min (unat t + unat sz) (2 ^ 64 - 1)" by (rule sat_add_unat)
  show ?thesis
  proof (cases "unat t + unat sz < 2 ^ 64 - 1")
    case False
    then have "unat ?t' = 2 ^ 64 - 1" using u by simp
    then show ?thesis using unat_eq_SIZE_MAX by blast
  next
    case True
    then have "unat t \<noteq> 2 ^ 64 - 1" by simp
    then have "t \<noteq> SIZE_MAX" using unat_SIZE_MAX by auto
    with assms(1) have "n \<le> unat t" by simp
    moreover have "unat ?t' = unat t + unat sz" using u True by simp
    ultimately show ?thesis using assms(2) by simp
  qed
qed

lemma restrict_empty: "\<exists>S. st = (\<lambda>p. if p \<in> S then None else st p)"
  by (rule exI [of _ "{}"]) simp

lemma restrict_single: "\<exists>S. st(p := None) = (\<lambda>q. if q \<in> S then None else st q)"
  by (rule exI [of _ "{p}"]) auto

lemma restrict_twice:
  "\<exists>S. (\<lambda>p. if p \<in> S2 then None else (\<lambda>p. if p \<in> S1 then None else st p) p)
      = (\<lambda>p. if p \<in> S then None else st p)"
  by (rule exI [of _ "S1 \<union> S2"]) auto

lemma total_inv_shrink:
  assumes t: "total_inv s" and w: "wf s'" and eq: "m_totalAlloc s' = m_totalAlloc s"
    and b: "blocks s' = (\<lambda>p. if p \<in> S then None else blocks s p)"
  shows "total_inv s'"
proof -
  from t have f: "finite (dom (blocks s))" by (simp add: total_inv_def wf_finite)
  have "store_nat (blocks s') \<le> store_nat (blocks s)"
    unfolding b by (rule store_nat_restrict [OF f])
  then show ?thesis using t w eq by (auto simp: total_inv_def)
qed

lemma unmapHeap_block_store:
  "m_totalAlloc (unmapHeap_block s e) = m_totalAlloc s \<and>
   (\<exists>S. blocks (unmapHeap_block s e) = (\<lambda>p. if p \<in> S then None else blocks s p))"
proof (cases "blocks s (snd e)")
  case None
  then show ?thesis using restrict_empty [of "blocks s"] by (simp add: unmapHeap_block_def)
next
  case (Some info)
  then show ?thesis using restrict_single [of "blocks s" "snd e"]
    by (simp add: unmapHeap_block_def)
qed

lemma unmapHeap_loop_store:
  "m_totalAlloc (foldl unmapHeap_block s es) = m_totalAlloc s \<and>
   (\<exists>S. blocks (foldl unmapHeap_block s es) = (\<lambda>p. if p \<in> S then None else blocks s p))"
proof (induction es arbitrary: s)
  case Nil
  show ?case using restrict_empty [of "blocks s"] by simp
next
  case (Cons e es)
  let ?s1 = "unmapHeap_block s e"
  from unmapHeap_block_store [of s e] obtain S1 where
    t1: "m_totalAlloc ?s1 = m_totalAlloc s"
    and b1: "blocks ?s1 = (\<lambda>p. if p \<in> S1 then None else blocks s p)" by blast
  from Cons.IH [of ?s1] obtain S2 where
    t2: "m_totalAlloc (foldl unmapHeap_block ?s1 es) = m_totalAlloc ?s1"
    and b2: "blocks (foldl unmapHeap_block ?s1 es) = (\<lambda>p. if p \<in> S2 then None else blocks ?s1 p)"
    by blast
  have "\<exists>S. blocks (foldl unmapHeap_block ?s1 es) = (\<lambda>p. if p \<in> S then None else blocks s p)"
    unfolding b2 b1 by (rule restrict_twice)
  then show ?case using t1 t2 by simp
qed

lemma unmapHeap_store:
  "m_totalAlloc (unmapHeap heap s) = m_totalAlloc s \<and>
   (\<exists>S. blocks (unmapHeap heap s) = (\<lambda>p. if p \<in> S then None else blocks s p))"
proof (cases "Map_find (m_heapMap s) heap")
  case None
  then show ?thesis using restrict_empty [of "blocks s"] by (simp add: unmapHeap_def)
next
  case (Some hi)
  then show ?thesis using unmapHeap_loop_store [of s "blockMap hi"]
    by (simp add: unmapHeap_def Let_def)
qed

lemma total_inv_unmapHeap: "total_inv s \<Longrightarrow> total_inv (unmapHeap heap s)"
proof -
  assume t: "total_inv s"
  then have w: "wf (unmapHeap heap s)" by (simp add: total_inv_def wf_unmapHeap)
  from unmapHeap_store [of heap s] obtain S where
    "m_totalAlloc (unmapHeap heap s) = m_totalAlloc s"
    "blocks (unmapHeap heap s) = (\<lambda>p. if p \<in> S then None else blocks s p)" by blast
  then show ?thesis by (rule total_inv_shrink [OF t w])
qed

lemma mapHeap_store:
  "m_totalAlloc (mapHeap heap s) = m_totalAlloc s \<and>
   (\<exists>S. blocks (mapHeap heap s) = (\<lambda>p. if p \<in> S then None else blocks s p))"
proof (cases "Map_insert (m_heapMap s) heap \<lparr>blockMap = [], flags = 0\<rparr>")
  case (Some hm)
  then show ?thesis using restrict_empty [of "blocks s"] by (simp add: mapHeap_def)
next
  case None
  let ?s1 = "Report (R_DuplicateHeap heap) s"
  have s1: "m_totalAlloc ?s1 = m_totalAlloc s" "blocks ?s1 = blocks s" by (simp_all add: Report_def)
  have a: "m_totalAlloc (unmapHeap heap ?s1) = m_totalAlloc s"
    and b: "\<exists>S. blocks (unmapHeap heap ?s1) = (\<lambda>p. if p \<in> S then None else blocks s p)"
    using unmapHeap_store [of heap ?s1] unfolding s1 by simp_all
  show ?thesis using None a b by (simp add: mapHeap_def Let_def split: option.splits)
qed

lemma total_inv_mapHeap: "total_inv s \<Longrightarrow> total_inv (mapHeap heap s)"
proof -
  assume t: "total_inv s"
  then have w: "wf (mapHeap heap s)" by (simp add: total_inv_def wf_mapHeap)
  from mapHeap_store [of heap s] obtain S where
    "m_totalAlloc (mapHeap heap s) = m_totalAlloc s"
    "blocks (mapHeap heap s) = (\<lambda>p. if p \<in> S then None else blocks s p)" by blast
  then show ?thesis by (rule total_inv_shrink [OF t w])
qed

lemma unmapBlock_store:
  "m_totalAlloc (unmapBlock e heap mem c s) = m_totalAlloc s \<and>
   (\<exists>S. blocks (unmapBlock e heap mem c s) = (\<lambda>p. if p \<in> S then None else blocks s p))"
proof -
  note triv = restrict_empty [of "blocks s"]
  consider (miss) "mem = 0 \<or> Map_find (m_heapMap s) heap = None \<or>
           (\<exists>hi. Map_find (m_heapMap s) heap = Some hi \<and> Map_find (blockMap hi) mem = None)"
    | (hit) hi p where "mem \<noteq> 0" "Map_find (m_heapMap s) heap = Some hi"
        "Map_find (blockMap hi) mem = Some p"
    by (cases "Map_find (m_heapMap s) heap") auto
  then show ?thesis
  proof cases
    case miss
    from unmapBlock_miss [OF miss, of e c] obtain ls where
      "unmapBlock e heap mem c s = s\<lparr>reportLog := reportLog s @ ls\<rparr>" by blast
    then show ?thesis using triv by simp
  next
    case hit
    show ?thesis
    proof (cases "blocks s p")
      case None
      then show ?thesis using hit triv by (simp add: unmapBlock_def)
    next
      case (Some info)
      then show ?thesis using hit restrict_single [of "blocks s" p] by (simp add: unmapBlock_def)
    qed
  qed
qed

lemma total_inv_unmapBlock: "total_inv s \<Longrightarrow> total_inv (unmapBlock e heap mem c s)"
proof -
  assume t: "total_inv s"
  then have w: "wf (unmapBlock e heap mem c s)" by (simp add: total_inv_def wf_unmapBlock)
  from unmapBlock_store [of e heap mem c s] obtain S where
    "m_totalAlloc (unmapBlock e heap mem c s) = m_totalAlloc s"
    "blocks (unmapBlock e heap mem c s) = (\<lambda>p. if p \<in> S then None else blocks s p)" by blast
  then show ?thesis by (rule total_inv_shrink [OF t w])
qed

lemma total_inv_mapBlock:
  assumes t: "total_inv s"
  shows "total_inv (fst (mapBlock heap mem sz d u tid s))"
proof -
  let ?s' = "fst (mapBlock heap mem sz d u tid s)"
  let ?new = "\<lparr>callStack = None, threadId = tid, serialNumber = m_requestCurr s,
            size' = sz, reported = False, debugCrtAlloc = d, ucrt = u\<rparr>"
  from t have w: "wf s" and ti: "m_totalAlloc s = SIZE_MAX \<or> store_nat (blocks s) \<le> unat (m_totalAlloc s)"
    by (simp_all add: total_inv_def)
  have w': "wf ?s'" by (rule wf_mapBlock [OF w])
  have f: "finite (dom (blocks s))" by (rule wf_finite [OF w])
  have fr: "nextBlock s \<notin> dom (blocks s)" by (rule wf_fresh(1) [OF w])
  have ins: "store_nat ((blocks s)(nextBlock s \<mapsto> ?new)) = store_nat (blocks s) + unat sz"
    using store_nat_insert [OF f fr, of ?new] by simp
  have le: "store_nat (blocks ?s') \<le> store_nat (blocks s) + unat sz"
  proof -
    from mapBlock_effect [OF w, of heap mem sz d u tid]
    consider "blocks ?s' = (blocks s)(nextBlock s \<mapsto> ?new)"
      | old info where "tracked s heap mem = Some (old, info)" "old \<noteq> nextBlock s"
          "blocks ?s' = (blocks s)(nextBlock s \<mapsto> ?new, old := None)"
      by blast
    then show ?thesis
    proof cases
      case 1
      then show ?thesis using ins by simp
    next
      case 2
      have f2: "finite (dom ((blocks s)(nextBlock s \<mapsto> ?new)))" using f by simp
      have "store_nat (\<lambda>p. if p \<in> {old} then None else ((blocks s)(nextBlock s \<mapsto> ?new)) p)
              \<le> store_nat ((blocks s)(nextBlock s \<mapsto> ?new))"
        by (rule store_nat_restrict [OF f2])
      moreover have "(\<lambda>p. if p \<in> {old} then None else ((blocks s)(nextBlock s \<mapsto> ?new)) p)
          = (blocks s)(nextBlock s \<mapsto> ?new, old := None)"
        by (simp add: fun_eq_iff)
      ultimately show ?thesis using ins 2(3) by simp
    qed
  qed
  show ?thesis
    unfolding total_inv_def mapBlock_totals(1)
    using w' sat_inv [OF ti le] by blast
qed

lemma total_inv_inplace:
  assumes t: "total_inv s" and oi: "blocks s p = Some info"
    and w': "wf (remapBlock_inplace p info sz tid s)"
  shows "total_inv (remapBlock_inplace p info sz tid s)"
proof -
  let ?r = "remapBlock_inplace p info sz tid s"
  let ?i = "info\<lparr>callStack := None, threadId := tid, size' := sz\<rparr>"
  from t have w: "wf s" and ti: "m_totalAlloc s = SIZE_MAX \<or> store_nat (blocks s) \<le> unat (m_totalAlloc s)"
    by (simp_all add: total_inv_def)
  have f: "finite (dom (blocks s))" by (rule wf_finite [OF w])
  have bl: "blocks ?r = (blocks s)(p \<mapsto> ?i)" by (simp add: remapBlock_inplace_eq)
  have up: "store_nat (blocks ?r) + unat (size' info) = store_nat (blocks s) + unat sz"
    unfolding bl using store_nat_update [OF f oi, of ?i] by simp
  have mem: "unat (size' info) \<le> store_nat (blocks s)" by (rule store_nat_member [OF f oi])
  show ?thesis
  proof (cases "m_totalAlloc s = SIZE_MAX")
    case True
    then have "m_totalAlloc ?r = SIZE_MAX" by (simp add: remapBlock_inplace_eq)
    then show ?thesis using w' by (simp add: total_inv_def)
  next
    case False
    with ti have le: "store_nat (blocks s) \<le> unat (m_totalAlloc s)" by simp
    have lt: "m_totalAlloc s < SIZE_MAX"
      using False by (simp add: SIZE_MAX_def word_order.not_eq_extremum)
    let ?t0 = "m_totalAlloc s - size' info"
    have sle: "size' info \<le> m_totalAlloc s" using mem le by (simp add: word_le_nat_alt)
    have u0: "unat ?t0 = unat (m_totalAlloc s) - unat (size' info)"
      by (rule unat_sub [OF sle])
    have tr: "m_totalAlloc ?r = (if SIZE_MAX - ?t0 > sz then ?t0 + sz else SIZE_MAX)"
      using lt by (simp add: remapBlock_inplace_eq)
    have a1: "?t0 = SIZE_MAX \<or> store_nat (blocks s) - unat (size' info) \<le> unat ?t0"
      using le by (simp only: u0) (rule disjI2, rule diff_le_mono, assumption)
    have a2: "store_nat (blocks ?r) \<le> store_nat (blocks s) - unat (size' info) + unat sz"
      using up mem by simp
    show ?thesis unfolding total_inv_def tr using w' sat_inv [OF a1 a2] by blast
  qed
qed

lemma total_inv_remapBlock:
  assumes t: "total_inv s"
  shows "total_inv (fst (remapBlock e heap mem newmem sz d u tid c s))"
proof -
  have asNew: "total_inv (fst (case mapBlock heap newmem sz d u tid s0 of (s1, p) \<Rightarrow> (s1, Some p)))"
    if "total_inv s0" for s0
    using total_inv_mapBlock [OF that, of heap newmem sz d u tid]
    by (simp add: case_prod_unfold)
  have w': "wf (fst (remapBlock e heap mem newmem sz d u tid c s))"
    using t by (simp add: total_inv_def wf_remapBlock)
  show ?thesis
  proof (cases "newmem \<noteq> mem")
    case True
    then show ?thesis
      using asNew [OF total_inv_unmapBlock [OF t, of e heap mem c]]
      by (simp add: remapBlock_def Let_def)
  next
    case False
    then have eq: "newmem = mem" by simp
    show ?thesis
    proof (cases "Map_find (m_heapMap s) heap")
      case None
      then show ?thesis using asNew [OF t] eq by (simp add: remapBlock_def Let_def)
    next
      case (Some hi)
      note hi = Some
      show ?thesis
      proof (cases "Map_find (blockMap hi) mem")
        case None
        then show ?thesis using asNew [OF t] eq hi by (simp add: remapBlock_def Let_def)
      next
        case (Some p)
        note fp = Some
        show ?thesis
        proof (cases "blocks s p")
          case None
          then show ?thesis using t eq hi fp by (simp add: remapBlock_def Let_def)
        next
          case (Some info)
          have r: "fst (remapBlock e heap mem newmem sz d u tid c s) = remapBlock_inplace p info sz tid s"
            using eq hi fp Some by (simp add: remapBlock_def Let_def)
          show ?thesis unfolding r
            by (rule total_inv_inplace [OF t Some]) (use w' r in simp)
        qed
      qed
    qed
  qed
qed

lemma total_inv_step: "total_inv s \<Longrightarrow> total_inv (ledger_step e s op)"
  by (cases op)
     (simp_all add: total_inv_mapHeap total_inv_mapBlock total_inv_unmapBlock
        total_inv_unmapHeap total_inv_remapBlock)

lemma total_inv_run: "total_inv s \<Longrightarrow> total_inv (ledger_run e s ops)"
  by (induction ops arbitrary: s) (simp_all add: ledger_run_def total_inv_step)

lemma total_inv_init: "total_inv (vld_init opts a b)"
proof -
  have "store_nat (blocks (vld_init opts a b)) = 0" by (simp add: store_nat_def vld_init_def)
  then show ?thesis using wf_init [of opts a b] by (simp add: total_inv_def)
qed

lemma tracked_None_wf:
  assumes w: "wf s" and t: "tracked s heap mem = None"
  shows "Map_find (m_heapMap s) heap = None \<or>
         (\<exists>hi. Map_find (m_heapMap s) heap = Some hi \<and> Map_find (blockMap hi) mem = None)"
proof (cases "Map_find (m_heapMap s) heap")
  case None
  then show ?thesis by simp
next
  case (Some hi)
  note f = Some
  show ?thesis
  proof (cases "Map_find (blockMap hi) mem")
    case None
    then show ?thesis using f by simp
  next
    case (Some p)
    have "p \<in> set (ptrs_of (m_heapMap s))"
      by (rule Map_find_mem_ptrs [of heap hi, OF Map_find_Some_mem [OF f] Some])
    then have "p \<in> dom (blocks s)" using w by (simp add: wf_alt)
    then show ?thesis using t f Some by (auto simp: tracked_def)
  qed
qed

lemma remapBlock_moved:
  "newmem \<noteq> mem \<Longrightarrow>
   fst (remapBlock e heap mem newmem sz d u tid c s)
     = fst (mapBlock heap newmem sz d u tid (unmapBlock e heap mem c s))"
  by (simp add: remapBlock_def Let_def case_prod_unfold)

lemma remapBlock_untracked:
  assumes w: "wf s" and t: "tracked s heap mem = None"
  shows "fst (remapBlock e heap mem mem sz d u tid c s) = fst (mapBlock heap mem sz d u tid s)"
  using tracked_None_wf [OF w t]
  by (auto simp: remapBlock_def Let_def case_prod_unfold)

lemma remapBlock_tracked:
  assumes t: "tracked s heap mem = Some (p, info)"
  shows "fst (remapBlock e heap mem mem sz d u tid c s) = remapBlock_inplace p info sz tid s"
    and "blocks s p = Some info"
  using t by (auto simp: tracked_def remapBlock_def Let_def split: option.splits)

lemma mapBlock_cur:
  assumes w: "wf s"
  shows "m_curAlloc (fst (mapBlock heap mem sz d u tid s))
     = (case tracked s heap mem of
          None \<Rightarrow> m_curAlloc s + sz
        | Some (old, info) \<Rightarrow> m_curAlloc s + sz - size' info)"
  using mapBlock_effect [OF w, of heap mem sz d u tid] by auto

lemma inplace_total:
  assumes t: "total_inv s" and oi: "blocks s p = Some info"
  shows "m_totalAlloc s \<noteq> SIZE_MAX \<longrightarrow> unat (size' info) \<le> unat (m_totalAlloc s)"
    and "unat (m_totalAlloc (remapBlock_inplace p info sz tid s))
     = (if m_totalAlloc s = SIZE_MAX then 2 ^ 64 - 1
        else min (unat (m_totalAlloc s) - unat (size' info) + unat sz) (2 ^ 64 - 1))"
proof -
  from t have w: "wf s" and ti: "m_totalAlloc s = SIZE_MAX \<or> store_nat (blocks s) \<le> unat (m_totalAlloc s)"
    by (simp_all add: total_inv_def)
  have f: "finite (dom (blocks s))" by (rule wf_finite [OF w])
  have mem: "unat (size' info) \<le> store_nat (blocks s)" by (rule store_nat_member [OF f oi])
  show a: "m_totalAlloc s \<noteq> SIZE_MAX \<longrightarrow> unat (size' info) \<le> unat (m_totalAlloc s)"
    using ti mem by auto
  show "unat (m_totalAlloc (remapBlock_inplace p info sz tid s))
     = (if m_totalAlloc s = SIZE_MAX then 2 ^ 64 - 1
        else min (unat (m_totalAlloc s) - unat (size' info) + unat sz) (2 ^ 64 - 1))"
  proof (cases "m_totalAlloc s = SIZE_MAX")
    case True
    then show ?thesis by (simp add: remapBlock_inplace_eq unat_SIZE_MAX)
  next
    case False
    have lt: "m_totalAlloc s < SIZE_MAX"
      using False by (simp add: SIZE_MAX_def word_order.not_eq_extremum)
    let ?t0 = "m_totalAlloc s - size' info"
    have sle: "size' info \<le> m_totalAlloc s" using a False by (simp add: word_le_nat_alt)
    have u0: "unat ?t0 = unat (m_totalAlloc s) - unat (size' info)"
      by (rule unat_sub [OF sle])
    have tr: "m_totalAlloc (remapBlock_inplace p info sz tid s)
                = (if SIZE_MAX - ?t0 > sz then ?t0 + sz else SIZE_MAX)"
      using lt by (simp add: remapBlock_inplace_eq)
    show ?thesis unfolding tr using False sat_add_unat [of sz ?t0] by (simp only: u0 if_False)
  qed
qed

lemma unat_eq_of_nat: "unat (x :: SIZE_T) = n \<Longrightarrow> x = of_nat n"
  by auto

lemma total_inv_ledger0: "total_inv ledger0"
proof -
  have "dom (blocks ledger0) = {0}" by (simp add: ledger0_def)
  then have "store_nat (blocks ledger0) = 64"
    by (simp add: store_nat_def size_at_def ledger0_def info0_def)
  then show ?thesis using wf_ledger0 by (simp add: total_inv_def ledger0_def)
qed

section \<open>What a report leaves in the records\<close>

lemma crt_startup_cong: "callStack j = callStack i \<Longrightarrow> crt_startup e opts j = crt_startup e opts i"
  by (simp add: crt_startup_def)

lemma flag_rel_refl: "flag_rel e opts st st"
  by (auto simp: flag_rel_def split: option.splits)

lemma flag_rel_None: "flag_rel e opts st st' \<Longrightarrow> st p = None \<Longrightarrow> st' p = None"
  unfolding flag_rel_def by (drule spec [of _ p]) simp

lemma flag_rel_Some:
  "flag_rel e opts st st' \<Longrightarrow> st p = Some i \<Longrightarrow>
   \<exists>i1. st' p = Some i1 \<and> callStack i1 = callStack i \<and>
        (reported i1 \<longrightarrow> reported i \<or> crt_startup e opts i)"
  unfolding flag_rel_def by (drule spec [of _ p]) simp

lemma flag_rel_trans:
  assumes a: "flag_rel e opts st st'" and b: "flag_rel e opts st' st''"
  shows "flag_rel e opts st st''"
  unfolding flag_rel_def
proof
  fix p
  show "case st p of None \<Rightarrow> st'' p = None
          | Some i \<Rightarrow> (\<exists>i1. st'' p = Some i1 \<and> callStack i1 = callStack i \<and>
                    (reported i1 \<longrightarrow> reported i \<or> crt_startup e opts i))"
  proof (cases "st p")
    case None
    then have "st' p = None" by (rule flag_rel_None [OF a])
    then have "st'' p = None" by (rule flag_rel_None [OF b])
    then show ?thesis using None by simp
  next
    case (Some i)
    then obtain i1 where 1: "st' p = Some i1" "callStack i1 = callStack i"
      "reported i1 \<longrightarrow> reported i \<or> crt_startup e opts i"
      using flag_rel_Some [OF a] by blast
    then obtain i2 where 2: "st'' p = Some i2" "callStack i2 = callStack i1"
      "reported i2 \<longrightarrow> reported i1 \<or> crt_startup e opts i1"
      using flag_rel_Some [OF b] by blast
    have "crt_startup e opts i1 = crt_startup e opts i" by (rule crt_startup_cong [OF 1(2)])
    then show ?thesis using Some 1 2 by auto
  qed
qed

lemma touch_flag:
  assumes "\<not> reported i"
  shows "reported (touch e opts a i) \<longrightarrow> crt_startup e opts i"
proof -
  let ?j = "snd (isDebugCrtAlloc e a i)"
  have nj: "\<not> reported ?j" using assms by simp
  have "crt_startup e opts ?j = crt_startup e opts i" by (rule crt_startup_cong) simp
  then show ?thesis using assms after_filters_reported [OF nj, of e opts a]
    by (simp add: touch_def)
qed

lemma step_flag:
  "flag_rel e (m_options s) (blocks s) (blocks (fst (report_step e (s, v) (h, a, p))))"
proof -
  from report_step_store [of e s v h a p] obtain y where
    b: "blocks (fst (report_step e (s, v) (h, a, p))) = (blocks s)(p := y)"
    and y: "y = blocks s p \<or>
        (\<exists>i. blocks s p = Some i \<and> \<not> reported i \<and> y = Some (touch e (m_options s) a i))"
    by blast
  from y show ?thesis
  proof
    assume "y = blocks s p"
    then have "(blocks s)(p := y) = blocks s" by auto
    then show ?thesis unfolding b by (simp add: flag_rel_refl)
  next
    assume "\<exists>i. blocks s p = Some i \<and> \<not> reported i \<and> y = Some (touch e (m_options s) a i)"
    then obtain i where i: "blocks s p = Some i" "\<not> reported i"
      "y = Some (touch e (m_options s) a i)" by blast
    show ?thesis unfolding b flag_rel_def
      using i touch_flag [OF i(2), of e "m_options s" a]
      by (auto split: option.splits)
  qed
qed

lemma run_flag:
  "flag_rel e (m_options s) (blocks s) (blocks (fst (foldl (report_step e) (s, v) L)))"
proof (induction L arbitrary: s v)
  case Nil
  show ?case by (simp add: flag_rel_refl)
next
  case (Cons x L)
  obtain h a p where x: "x = (h, a, p)" by (cases x)
  obtain s1 v1 where st: "report_step e (s, v) (h, a, p) = (s1, v1)"
    by (cases "report_step e (s, v) (h, a, p)")
  have o: "m_options s1 = m_options s"
    using report_step_fields(2) [of e "(s, v)" "(h, a, p)"] by (simp add: st)
  have 1: "flag_rel e (m_options s) (blocks s) (blocks s1)"
    using step_flag [of e s v h a p] by (simp add: st)
  have 2: "flag_rel e (m_options s) (blocks s1) (blocks (fst (foldl (report_step e) (s1, v1) L)))"
    using Cons.IH [of s1 v1] by (simp add: o)
  show ?case using flag_rel_trans [OF 1 2] by (simp add: x st)
qed

lemma step_out:
  "\<exists>out. reportLog (fst (report_step e (s, v) (h, a, p))) = reportLog s @ out \<and>
     (\<forall>entry. R_Leak entry \<in> set out \<longrightarrow>
        (\<exists>j. blocks (fst (report_step e (s, v) (h, a, p))) (le_info entry) = Some j \<and>
             \<not> reported j \<and> \<not> crt_startup e (m_options s) j))"
proof -
  have triv: "\<exists>out. reportLog s = reportLog s @ out \<and> (\<forall>entry. R_Leak entry \<in> set out \<longrightarrow> P entry)" for P
    by (rule exI [of _ "[]"]) simp
  from report_step_cases [of e s v h a p] show ?thesis
  proof
    assume "report_step e (s, v) (h, a, p) = (s, v)"
    then show ?thesis using triv by simp
  next
    assume "\<exists>i. blocks s p = Some i \<and> \<not> reported i \<and> p \<notin> aggregatedLeaks v \<and>
        report_step e (s, v) (h, a, p) = visit e h a p (s, v) (snd (isDebugCrtAlloc e a i))"
    then obtain i where i: "blocks s p = Some i" "\<not> reported i"
      and r: "report_step e (s, v) (h, a, p) = visit e h a p (s, v) (snd (isDebugCrtAlloc e a i))"
      by blast
    let ?j = "snd (isDebugCrtAlloc e a i)"
    let ?s1 = "s\<lparr>blocks := (blocks s)(p \<mapsto> ?j)\<rparr>"
    have nj: "\<not> reported ?j" using i(2) by simp
    show ?thesis
    proof (cases "crt_filtered e a ?j \<or> crt_startup e (m_options s) ?j")
      case True
      then have "reportLog (fst (visit e h a p (s, v) ?j)) = reportLog s"
        by (auto simp: visit_def Let_def)
      then show ?thesis unfolding r using triv by simp
    next
      case False
      let ?ad = "if debugCrtAlloc ?j then CRTDBGBLOCKDATA e a else a"
      let ?sz = "if debugCrtAlloc ?j then getCrtBlockSize e a (ucrt ?j) else size' ?j"
      let ?r = "reportLeaks_leak e h (?s1, v) (a, p) ?j ?ad ?sz"
      have vr: "visit e h a p (s, v) ?j = ?r" using False by (simp add: visit_def Let_def)
      from reportLeaks_leak_log [of e h "(?s1, v)" "(a, p)" ?j ?ad ?sz] obtain entry where
        lg: "reportLog (fst ?r) = reportLog s @ (if firstLeak v then [R_LeaksDetected] else []) @ [R_Leak entry]"
        and li: "le_info entry = p"
        by auto
      have bl: "blocks (fst ?r) = (blocks s)(p \<mapsto> ?j)"
        using reportLeaks_leak_fields(1) [of e h "(?s1, v)" "(a, p)" ?j ?ad ?sz] by simp
      show ?thesis unfolding r vr
      proof (intro exI conjI allI impI)
        show "reportLog (fst ?r) = reportLog s @ ((if firstLeak v then [R_LeaksDetected] else []) @ [R_Leak entry])"
          using lg by simp
      next
        fix en assume "R_Leak en \<in> set ((if firstLeak v then [R_LeaksDetected] else []) @ [R_Leak entry])"
        then have "en = entry" by (auto split: if_splits)
        then show "blocks (fst ?r) (le_info en) = Some ?j" by (simp add: bl li)
      next
        show "\<not> reported ?j" by (rule nj)
      next
        show "\<not> crt_startup e (m_options s) ?j" using False by simp
      qed
    qed
  qed
qed

lemma run_out:
  "\<exists>out. reportLog (fst (foldl (report_step e) (s, v) L)) = reportLog s @ out \<and>
     (\<forall>entry. R_Leak entry \<in> set out \<longrightarrow>
        (\<exists>j. blocks (fst (foldl (report_step e) (s, v) L)) (le_info entry) = Some j \<and>
             \<not> reported j \<and> \<not> crt_startup e (m_options s) j))"
proof (induction L arbitrary: s v)
  case Nil
  show ?case by (rule exI [of _ "[]"]) simp
next
  case (Cons x L)
  obtain h a p where x: "x = (h, a, p)" by (cases x)
  obtain s1 v1 where st: "report_step e (s, v) (h, a, p) = (s1, v1)"
    by (cases "report_step e (s, v) (h, a, p)")
  let ?f = "fst (foldl (report_step e) (s1, v1) L)"
  have fin: "foldl (report_step e) (s, v) (x # L) = foldl (report_step e) (s1, v1) L"
    by (simp add: x st)
  have o: "m_options s1 = m_options s"
    using report_step_fields(2) [of e "(s, v)" "(h, a, p)"] by (simp add: st)
  from step_out [of e s v h a p] obtain out1 where
    l1: "reportLog s1 = reportLog s @ out1"
    and e1: "\<forall>entry. R_Leak entry \<in> set out1 \<longrightarrow>
        (\<exists>j. blocks s1 (le_info entry) = Some j \<and> \<not> reported j \<and> \<not> crt_startup e (m_options s) j)"
    by (auto simp: st)
  from Cons.IH [of s1 v1] obtain out2 where
    l2: "reportLog ?f = reportLog s1 @ out2"
    and e2: "\<forall>entry. R_Leak entry \<in> set out2 \<longrightarrow>
        (\<exists>j. blocks ?f (le_info entry) = Some j \<and> \<not> reported j \<and> \<not> crt_startup e (m_options s) j)"
    by (auto simp: o)
  have fr: "flag_rel e (m_options s) (blocks s1) (blocks ?f)"
    using run_flag [of e s1 v1 L] by (simp add: o)
  have e1': "\<exists>j. blocks ?f (le_info entry) = Some j \<and> \<not> reported j \<and> \<not> crt_startup e (m_options s) j"
    if "R_Leak entry \<in> set out1" for entry
  proof -
    from e1 that obtain j where j: "blocks s1 (le_info entry) = Some j" "\<not> reported j"
      "\<not> crt_startup e (m_options s) j" by blast
    obtain j1 where j1: "blocks ?f (le_info entry) = Some j1"
      "callStack j1 = callStack j" "reported j1 \<longrightarrow> reported j \<or> crt_startup e (m_options s) j"
      using flag_rel_Some [OF fr j(1)] by blast
    have "crt_startup e (m_options s) j1 = crt_startup e (m_options s) j"
      by (rule crt_startup_cong [OF j1(2)])
    then show ?thesis using j j1 by auto
  qed
  have a: "reportLog ?f = reportLog s @ (out1 @ out2)" by (simp add: l1 l2)
  have b: "\<forall>entry. R_Leak entry \<in> set (out1 @ out2) \<longrightarrow>
        (\<exists>j. blocks ?f (le_info entry) = Some j \<and> \<not> reported j \<and> \<not> crt_startup e (m_options s) j)"
    using e1' e2 by auto
  show ?case unfolding fin by (rule exI [of _ "out1 @ out2"]) (use a b in blast)
qed

lemma wf_distinct_entries: "wf s \<Longrightarrow> distinct (map en_ptr (all_entries (m_heapMap s)))"
  by (simp add: en_ptr_all_entries wf_alt)

section \<open>What the capture context commits\<close>

lemma unmapHeap_block_frames [simp]:
  "m_maxTraceFrames (unmapHeap_block s b) = m_maxTraceFrames s"
  "m_options (unmapHeap_block s b) = m_options s"
  by (simp_all add: unmapHeap_block_def split: option.splits)

lemma unmapHeap_loop_frames [simp]:
  "m_maxTraceFrames (foldl unmapHeap_block s bs) = m_maxTraceFrames s"
  "m_options (foldl unmapHeap_block s bs) = m_options s"
  by (induction bs arbitrary: s) simp_all

lemma unmapHeap_frames [simp]:
  "m_maxTraceFrames (unmapHeap heap s) = m_maxTraceFrames s"
  "m_options (unmapHeap heap s) = m_options s"
  by (simp_all add: unmapHeap_def Let_def split: option.splits)

lemma mapHeap_frames [simp]:
  "m_maxTraceFrames (mapHeap heap s) = m_maxTraceFrames s"
  "m_options (mapHeap heap s) = m_options s"
  by (simp_all add: mapHeap_def Let_def Report_def split: option.splits)

lemma mapBlock_record_frames [simp]:
  "m_maxTraceFrames (mapBlock_record sz d u tid s) = m_maxTraceFrames s"
  "m_options (mapBlock_record sz d u tid s) = m_options s"
  by (simp_all add: mapBlock_record_eq)

lemma mapBlock_insert_frames [simp]:
  "m_maxTraceFrames (mapBlock_insert heap mem sz p s) = m_maxTraceFrames s"
  "m_options (mapBlock_insert heap mem sz p s) = m_options s"
  by (simp_all add: mapBlock_insert_def Let_def Report_def split: option.splits)

lemma mapBlock_frames [simp]:
  "m_maxTraceFrames (fst (mapBlock heap mem sz d u tid s)) = m_maxTraceFrames s"
  "m_options (fst (mapBlock heap mem sz d u tid s)) = m_options s"
  by (simp_all add: mapBlock_def Let_def)

lemma unmapBlock_frames [simp]:
  "m_maxTraceFrames (unmapBlock e heap mem c s) = m_maxTraceFrames s"
  "m_options (unmapBlock e heap mem c s) = m_options s"
proof -
  consider (miss) "mem = 0 \<or> Map_find (m_heapMap s) heap = None \<or>
           (\<exists>hi. Map_find (m_heapMap s) heap = Some hi \<and> Map_find (blockMap hi) mem = None)"
    | (hit) hi p where "mem \<noteq> 0" "Map_find (m_heapMap s) heap = Some hi"
        "Map_find (blockMap hi) mem = Some p"
    by (cases "Map_find (m_heapMap s) heap") auto
  then have "m_maxTraceFrames (unmapBlock e heap mem c s) = m_maxTraceFrames s \<and>
    m_options (unmapBlock e heap mem c s) = m_options s"
  proof cases
    case miss
    from unmapBlock_miss [OF miss, of e c] obtain ls where
      "unmapBlock e heap mem c s = s\<lparr>reportLog := reportLog s @ ls\<rparr>" by blast
    then show ?thesis by simp
  next
    case hit
    then show ?thesis by (cases "blocks s p") (simp_all add: unmapBlock_def)
  qed
  then show "m_maxTraceFrames (unmapBlock e heap mem c s) = m_maxTraceFrames s"
    "m_options (unmapBlock e heap mem c s) = m_options s" by simp_all
qed

lemma remapBlock_frames [simp]:
  "m_maxTraceFrames (fst (remapBlock e heap mem newmem sz d u tid c s)) = m_maxTraceFrames s"
  "m_options (fst (remapBlock e heap mem newmem sz d u tid c s)) = m_options s"
  by (simp_all add: remapBlock_def remapBlock_inplace_eq Let_def case_prod_unfold
      split: option.splits)



lemma tracked_wf_Some:
  assumes w: "wf s" and f: "Map_find (m_heapMap s) heap = Some hi"
    and g: "Map_find (blockMap hi) mem = Some p"
  shows "\<exists>info. blocks s p = Some info \<and> tracked s heap mem = Some (p, info)"
proof -
  have "p \<in> set (ptrs_of (m_heapMap s))"
    by (rule Map_find_mem_ptrs [of heap hi, OF Map_find_Some_mem [OF f] g])
  then have "p \<in> dom (blocks s)" using w by (simp add: wf_alt)
  then show ?thesis by (auto simp: tracked_def f g)
qed






section \<open>The loader hook: patch and restore\<close>

lemma sint_succ:
  assumes "sint (d :: 64 word) < 0x20"
  shows "sint (d + 1) = sint d + 1"
proof -
  have lo: "- (2 ^ 63) \<le> sint d" using sint_ge [of d] by simp
  have "sint (d + 1) = signed_take_bit 63 (sint d + 1)" by (simp add: sint_word_add)
  also have "\<dots> = sint d + 1"
    by (rule signed_take_bit_int_eq_self) (use lo assms in simp_all)
  finally show ?thesis .
qed

lemma sint_nonneg_unat:
  fixes d :: "64 word"
  assumes "0 \<le> sint d"
  shows "int (unat d) = sint d"
proof -
  have lt: "sint d < 2 ^ 64" using sint_lt [of d] by simp
  have "uint d = uint (word_of_int (sint d) :: 64 word)" by simp
  also have "\<dots> = take_bit 64 (sint d)" by (simp only: uint_word_of_int_eq) simp
  also have "\<dots> = sint d" by (rule take_bit_int_eq_self [OF assms lt])
  finally show ?thesis by simp
qed

lemma NtDllFindParamAddress_loop_range:
  "0 \<le> sint (pAddress - ptr) \<Longrightarrow> sint (pAddress - ptr) < 0x20 \<Longrightarrow>
   NtDllFindParamAddress_loop m pAddress ptr \<noteq> 0 \<Longrightarrow>
   0 < sint (pAddress - NtDllFindParamAddress_loop m pAddress ptr) \<and>
   sint (pAddress - NtDllFindParamAddress_loop m pAddress ptr) < 0x20"
proof (induction m pAddress ptr rule: NtDllFindParamAddress_loop.induct)
  case (1 m pAddress ptr)
  let ?ptr1 = "ptr - 1"
  have e: "pAddress - ?ptr1 = (pAddress - ptr) + 1" by simp
  have s1: "sint (pAddress - ?ptr1) = sint (pAddress - ptr) + 1"
    by (simp only: e sint_succ [OF "1.prems"(2)])
  show ?case
  proof (cases "pAddress - ?ptr1 <s 0x20")
    case False
    then have "NtDllFindParamAddress_loop m pAddress ptr = 0"
      by (subst NtDllFindParamAddress_loop.simps) (simp add: Let_def)
    with "1.prems"(3) show ?thesis by simp
  next
    case True
    then have lt: "sint (pAddress - ?ptr1) < 0x20" by (simp add: word_sless_alt)
    show ?thesis
    proof (cases "param_pattern m ?ptr1")
      case pt: True
      have r: "NtDllFindParamAddress_loop m pAddress ptr = ?ptr1"
        using True pt by (subst NtDllFindParamAddress_loop.simps) (simp add: Let_def)
      show ?thesis unfolding r using s1 lt "1.prems"(1) by simp
    next
      case pf: False
      have r: "NtDllFindParamAddress_loop m pAddress ptr = NtDllFindParamAddress_loop m pAddress ?ptr1"
        using True pf by (subst NtDllFindParamAddress_loop.simps) (simp add: Let_def)
      have ge: "0 \<le> sint (pAddress - ?ptr1)" using s1 "1.prems"(1) by simp
      from "1.IH" [OF refl True pf ge lt] "1.prems"(3) show ?thesis unfolding r by simp
    qed
  qed
qed

lemma NtDllFindParamAddress_range:
  assumes "NtDllFindParamAddress m pAddress \<noteq> 0"
  shows "0 < unat (pAddress - NtDllFindParamAddress m pAddress)"
    and "unat (pAddress - NtDllFindParamAddress m pAddress) \<le> 0x1F"
proof -
  let ?r = "NtDllFindParamAddress m pAddress"
  have "0 < sint (pAddress - ?r) \<and> sint (pAddress - ?r) < 0x20"
    using NtDllFindParamAddress_loop_range [of pAddress pAddress m] assms
    by (simp add: NtDllFindParamAddress_def)
  moreover from this have "int (unat (pAddress - ?r)) = sint (pAddress - ?r)"
    by (intro sint_nonneg_unat) simp
  ultimately show "0 < unat (pAddress - ?r)" "unat (pAddress - ?r) \<le> 0x1F" by linarith+
qed

lemma NtDllPatch_set: "bState p \<Longrightarrow> NtDllPatch E ret (m, p) = ((m, p), True)"
  by (simp add: NtDllPatch_def)

lemma NtDllPatch_result: "snd (NtDllPatch E ret st) = bState (snd (fst (NtDllPatch E ret st)))"
  by (simp add: NtDllPatch_def Let_def)


lemma of_nat_less_word:
  fixes w :: "64 word"
  assumes "i < unat w"
  shows "of_nat i < w"
proof -
  have "unat w < 2 ^ 64" using unsigned_less [of w, where 'a = nat] by simp
  then have "i < 2 ^ 64" using assms by simp
  then have "unat (of_nat i :: 64 word) = i" by (simp add: unsigned_of_nat take_bit_nat_eq_self)
  then show ?thesis using assms by (simp add: word_less_nat_alt)
qed

lemma write_patch_bytes:
  "write_patch ret p m (ret - 2) = 0xFF"
  "write_patch ret p m (ret - 1) = 0xD0"
  "write_patch ret p m (ret - 7) = 0xE9"
  by (simp_all add: write_patch_def store_bytes_def Let_def)

lemma backup_bytes_nth:
  "i < length old \<Longrightarrow> of_nat i < n \<Longrightarrow> backup_bytes m src n old ! i = m (src + of_nat i)"
  by (simp add: backup_bytes_def)

lemma backup_bytes_length [simp]: "length (backup_bytes m src n old) = length old"
  by (simp add: backup_bytes_def)

lemma NtDllPatch_success:
  assumes nb: "\<not> bState p" and ok: "snd (NtDllPatch E ret (m, p))"
  shows "pPatchAddress (snd (fst (NtDllPatch E ret (m, p)))) = NtDllFindParamAddress m ret"
    and "NtDllFindParamAddress m ret \<noteq> 0"
    and "nPatchSize (snd (fst (NtDllPatch E ret (m, p)))) = ret - NtDllFindParamAddress m ret"
    and "7 \<le> ret - NtDllFindParamAddress m ret"
    and "pDetourAddress (snd (fst (NtDllPatch E ret (m, p)))) \<noteq> 0"
    and "pBackup (snd (fst (NtDllPatch E ret (m, p))))
           = backup_bytes m (NtDllFindParamAddress m ret) (ret - NtDllFindParamAddress m ret) (pBackup p)"
    and "fst (fst (NtDllPatch E ret (m, p))) (ret - 2) = 0xFF"
    and "fst (fst (NtDllPatch E ret (m, p))) (ret - 1) = 0xD0"
    and "fst (fst (NtDllPatch E ret (m, p))) (ret - 7) = 0xE9"
    and "bState (snd (fst (NtDllPatch E ret (m, p))))"
  using nb ok by (simp_all add: NtDllPatch_def Let_def write_patch_bytes split: if_splits)

lemma find0:
  "NtDllFindParamAddress mem0 0x1000 = 0xFF4"
  "NtDllFindCallAddress mem0 0x1000 = 0xFFE"
  "NtDllFindDetourAddress os0 mem0 0x1000 28 = 0x1FE4"
  by code_simp+

lemma patch0_ok: "snd (NtDllPatch os0 0x1000 (mem0, patch0))"
  by (simp add: NtDllPatch_def Let_def find0 patch0_def) (simp add: os0_def)


lemma NtDllRestore_unset: "\<not> bState p \<Longrightarrow> NtDllRestore E (m, p) = Some ((m, p), False)"
  by (simp add: NtDllRestore_def)

lemma NtDllRestore_Some:
  assumes "NtDllRestore E (m, p) = Some (st, r)"
  shows "snd st = p"
    and "r \<or> fst st \<noteq> m \<Longrightarrow>
         bState p \<and> nPatchSize p \<noteq> 0 \<and> VirtualProtect E (pPatchAddress p) (nPatchSize p)"
    and "r \<Longrightarrow> fst st = memset (store_bytes m (pPatchAddress p)
                              (take (unat (nPatchSize p)) (pBackup p)))
                          (pDetourAddress p) 0 (nDetourSize p)"
  using assms by (auto simp: NtDllRestore_def Let_def split: if_splits)

lemma NtDllRestore_defined:
  "unat (nPatchSize p) \<le> length (pBackup p) \<Longrightarrow> NtDllRestore E (m, p) \<noteq> None"
  by (auto simp: NtDllRestore_def Let_def)

lemma patched0:
  "bState (snd (fst (NtDllPatch os0 0x1000 (mem0, patch0))))"
  "nPatchSize (snd (fst (NtDllPatch os0 0x1000 (mem0, patch0)))) = 12"
  "pPatchAddress (snd (fst (NtDllPatch os0 0x1000 (mem0, patch0)))) = 0xFF4"
  "length (pBackup (snd (fst (NtDllPatch os0 0x1000 (mem0, patch0))))) = 32"
  "pDetourAddress (snd (fst (NtDllPatch os0 0x1000 (mem0, patch0)))) = 0x1FE4"
  "nDetourSize (snd (fst (NtDllPatch os0 0x1000 (mem0, patch0)))) = 28"
  by (simp_all add: NtDllPatch_def Let_def find0 patch0_def) (simp_all add: os0_def)

section \<open>Duplicates and their aggregation\<close>

lemma erase_step_eq:
  "erase_step st el ei ecs acc (h, a, q) =
     (if (h, a) \<noteq> el \<and> has_key st (size' ei) ecs q \<and> q \<notin> snd acc
      then (fst acc + 1, insert q (snd acc)) else acc)"
  by (auto simp: erase_step_def eraseDuplicates_block_def has_key_def split: option.splits)

lemma erase_heap_flat:
  "foldl (eraseDuplicates_block st el ei ecs (fst heapit)) acc (blockMap (snd heapit))
     = foldl (erase_step st el ei ecs) acc (heap_entries heapit)"
  by (simp add: heap_entries_def foldl_map erase_step_def)

lemma erase_heaps_flat:
  "foldl (\<lambda>acc heapit. foldl (eraseDuplicates_block st el ei ecs (fst heapit)) acc
                          (blockMap (snd heapit))) acc hm
     = foldl (erase_step st el ei ecs) acc (all_entries hm)"
proof (induction hm arbitrary: acc)
  case Nil
  show ?case by (simp add: all_entries_def)
next
  case (Cons it hm)
  have "all_entries (it # hm) = heap_entries it @ all_entries hm" by (simp add: all_entries_def)
  then show ?case using Cons.IH by (simp add: erase_heap_flat)
qed

lemma eraseDuplicates_flat:
  assumes "blocks s p = Some ei" "callStack ei = Some ecs"
  shows "eraseDuplicates s el p agg
     = foldl (erase_step (blocks s) el ei ecs) (0, agg) (all_entries (m_heapMap s))"
  using assms by (simp add: eraseDuplicates_def erase_heaps_flat)

lemma erase_fold:
  assumes "distinct (map en_ptr L)"
  shows "foldl (erase_step st el ei ecs) (n, agg) L =
     (n + of_nat (length (filter (\<lambda>en. (fst en, en_addr en) \<noteq> el \<and>
                      has_key st (size' ei) ecs (en_ptr en) \<and> en_ptr en \<notin> agg) L)),
      agg \<union> en_ptr ` set (filter (\<lambda>en. (fst en, en_addr en) \<noteq> el \<and>
                      has_key st (size' ei) ecs (en_ptr en) \<and> en_ptr en \<notin> agg) L))"
  using assms
proof (induction L arbitrary: n agg)
  case Nil
  show ?case by simp
next
  case (Cons en L)
  obtain h a q where en: "en = (h, a, q)" by (cases en)
  let ?c = "\<lambda>agg en. (fst en, en_addr en) \<noteq> el \<and> has_key st (size' ei) ecs (en_ptr en) \<and> en_ptr en \<notin> agg"
  have q: "en_ptr en = q" by (simp add: en en_ptr_def)
  have d: "distinct (map en_ptr L)" and nq: "q \<notin> en_ptr ` set L"
    using Cons.prems unfolding q [symmetric] by simp_all
  show ?case
  proof (cases "?c agg en")
    case False
    then have st: "erase_step st el ei ecs (n, agg) en = (n, agg)"
      by (auto simp: en erase_step_eq en_ptr_def en_addr_def)
    show ?thesis using Cons.IH [OF d, of n agg] False by (simp add: st)
  next
    case True
    then have st: "erase_step st el ei ecs (n, agg) en = (n + 1, insert q agg)"
      by (auto simp: en erase_step_eq en_ptr_def en_addr_def)
    have f: "filter (?c (insert q agg)) L = filter (?c agg) L"
      using nq by (intro filter_cong) auto
    note IH = Cons.IH [OF d, of "n + 1" "insert q agg", unfolded f]
    show ?thesis using IH True by (simp add: st q)
  qed
qed

lemma leak_entries_append: "leak_entries (xs @ ys) = leak_entries xs @ leak_entries ys"
  by (induction xs rule: leak_entries.induct) simp_all

lemma has_key_cong:
  "map_option dup_key (st' q) = map_option dup_key (st q) \<Longrightarrow> has_key st' sz cs q = has_key st sz cs q"
  by (auto simp: has_key_def dup_key_def split: option.splits)

lemma step_keys:
  "map_option dup_key (blocks (fst (report_step e (s, v) (h, a, p))) q) = map_option dup_key (blocks s q)"
proof -
  from report_step_store [of e s v h a p] obtain y where
    b: "blocks (fst (report_step e (s, v) (h, a, p))) = (blocks s)(p := y)"
    and y: "y = blocks s p \<or>
        (\<exists>i. blocks s p = Some i \<and> \<not> reported i \<and> y = Some (touch e (m_options s) a i))"
    by blast
  from y show ?thesis unfolding b by auto
qed

lemma step_other:
  "q \<noteq> p \<Longrightarrow> blocks (fst (report_step e (s, v) (h, a, p))) q = blocks s q"
  using report_step_store [of e s v h a p] by auto

lemma erase_fold_mono: "snd acc \<subseteq> snd (foldl (erase_step st el ei ecs) acc L)"
proof (induction L arbitrary: acc)
  case Nil
  show ?case by simp
next
  case (Cons en L)
  obtain h a q where en: "en = (h, a, q)" by (cases en)
  have "snd acc \<subseteq> snd (erase_step st el ei ecs acc en)" by (auto simp: en erase_step_eq)
  also have "\<dots> \<subseteq> snd (foldl (erase_step st el ei ecs) (erase_step st el ei ecs acc en) L)"
    by (rule Cons.IH)
  finally show ?case by simp
qed

lemma eraseDuplicates_mono: "agg \<subseteq> snd (eraseDuplicates s el p agg)"
  using erase_fold_mono [of "(0, agg)"]
  by (auto simp: eraseDuplicates_def erase_heaps_flat split: option.splits)

text \<open>What one step of the report does, as far as leak entries and the aggregation set go.\<close>

lemma step_summary:
  "\<exists>out. reportLog (fst (report_step e (s, v) (h, a, p))) = reportLog s @ out \<and>
     ((leak_entries out = [] \<and>
       aggregatedLeaks (snd (report_step e (s, v) (h, a, p))) = aggregatedLeaks v) \<or>
      (\<exists>i le. blocks s p = Some i \<and> \<not> reported i \<and> p \<notin> aggregatedLeaks v \<and>
         leak_entries out = [le] \<and> le_info le = p \<and> le_total le = le_size le * le_count le \<and>
         le_count le = 1 +
           fst (if VLD_OPT_AGGREGATE_DUPLICATES \<in> m_options s
                then eraseDuplicates
                       (s\<lparr>blocks := (blocks s)(p \<mapsto> snd (isDebugCrtAlloc e a i))\<rparr>) (h, a) p
                       (aggregatedLeaks v)
                else (0, aggregatedLeaks v)) \<and>
         aggregatedLeaks (snd (report_step e (s, v) (h, a, p))) =
           snd (if VLD_OPT_AGGREGATE_DUPLICATES \<in> m_options s
                then eraseDuplicates
                       (s\<lparr>blocks := (blocks s)(p \<mapsto> snd (isDebugCrtAlloc e a i))\<rparr>) (h, a) p
                       (aggregatedLeaks v)
                else (0, aggregatedLeaks v))))"
proof -
  from report_step_cases [of e s v h a p] show ?thesis
  proof
    assume r: "report_step e (s, v) (h, a, p) = (s, v)"
    show ?thesis unfolding r by (rule exI [of _ "[]"]) simp
  next
    assume "\<exists>i. blocks s p = Some i \<and> \<not> reported i \<and> p \<notin> aggregatedLeaks v \<and>
        report_step e (s, v) (h, a, p) = visit e h a p (s, v) (snd (isDebugCrtAlloc e a i))"
    then obtain i where i: "blocks s p = Some i" "\<not> reported i" "p \<notin> aggregatedLeaks v"
      and r: "report_step e (s, v) (h, a, p) = visit e h a p (s, v) (snd (isDebugCrtAlloc e a i))"
      by blast
    let ?j = "snd (isDebugCrtAlloc e a i)"
    let ?s1 = "s\<lparr>blocks := (blocks s)(p \<mapsto> ?j)\<rparr>"
    show ?thesis
    proof (cases "crt_filtered e a ?j \<or> crt_startup e (m_options s) ?j")
      case True
      then have "reportLog (fst (visit e h a p (s, v) ?j)) = reportLog s"
        "snd (visit e h a p (s, v) ?j) = v"
        by (auto simp: visit_def Let_def)
      then show ?thesis unfolding r by (intro exI [of _ "[]"]) simp
    next
      case False
      let ?ad = "if debugCrtAlloc ?j then CRTDBGBLOCKDATA e a else a"
      let ?sz = "if debugCrtAlloc ?j then getCrtBlockSize e a (ucrt ?j) else size' ?j"
      let ?r = "reportLeaks_leak e h (?s1, v) (a, p) ?j ?ad ?sz"
      have vr: "visit e h a p (s, v) ?j = ?r" using False by (simp add: visit_def Let_def)
      from reportLeaks_leak_log [of e h "(?s1, v)" "(a, p)" ?j ?ad ?sz] obtain le where
        lg: "reportLog (fst ?r) = reportLog s @ (if firstLeak v then [R_LeaksDetected] else []) @ [R_Leak le]"
        and li: "le_info le = p" and ls: "le_size le = ?sz" and lt: "le_total le = ?sz * le_count le"
        and lc: "le_count le = 1 +
           fst (if VLD_OPT_AGGREGATE_DUPLICATES \<in> m_options s
                then eraseDuplicates ?s1 (h, a) p (aggregatedLeaks v)
                else (0, aggregatedLeaks v))"
        and la: "aggregatedLeaks (snd ?r) =
           snd (if VLD_OPT_AGGREGATE_DUPLICATES \<in> m_options s
                then eraseDuplicates ?s1 (h, a) p (aggregatedLeaks v)
                else (0, aggregatedLeaks v))"
        by auto
      let ?out = "(if firstLeak v then [R_LeaksDetected] else []) @ [R_Leak le]"
      have le: "leak_entries ?out = [le]" by simp
      have "reportLog (fst ?r) = reportLog s @ ?out \<and>
        (\<exists>i le'. blocks s p = Some i \<and> \<not> reported i \<and> p \<notin> aggregatedLeaks v \<and>
         leak_entries ?out = [le'] \<and> le_info le' = p \<and> le_total le' = le_size le' * le_count le' \<and>
         le_count le' = 1 +
           fst (if VLD_OPT_AGGREGATE_DUPLICATES \<in> m_options s
                then eraseDuplicates
                       (s\<lparr>blocks := (blocks s)(p \<mapsto> snd (isDebugCrtAlloc e a i))\<rparr>) (h, a) p
                       (aggregatedLeaks v)
                else (0, aggregatedLeaks v)) \<and>
         aggregatedLeaks (snd ?r) =
           snd (if VLD_OPT_AGGREGATE_DUPLICATES \<in> m_options s
                then eraseDuplicates
                       (s\<lparr>blocks := (blocks s)(p \<mapsto> snd (isDebugCrtAlloc e a i))\<rparr>) (h, a) p
                       (aggregatedLeaks v)
                else (0, aggregatedLeaks v)))"
        using lg i le li ls lt lc la by (intro conjI exI [of _ i] exI [of _ le]) simp_all
      then show ?thesis unfolding r vr by blast
    qed
  qed
qed

lemma step_leader:
  assumes i: "blocks s p = Some i" "\<not> reported i" "p \<notin> aggregatedLeaks v"
    and g: "genuine e (m_options s) a i"
  shows "\<exists>le. leak_entries (drop (length (reportLog s))
                  (reportLog (fst (report_step e (s, v) (h, a, p))))) = [le] \<and>
     (\<exists>out. reportLog (fst (report_step e (s, v) (h, a, p))) = reportLog s @ out) \<and>
     le_info le = p \<and> le_total le = le_size le * le_count le \<and>
     le_count le = 1 +
       fst (if VLD_OPT_AGGREGATE_DUPLICATES \<in> m_options s
            then eraseDuplicates
                   (s\<lparr>blocks := (blocks s)(p \<mapsto> snd (isDebugCrtAlloc e a i))\<rparr>) (h, a) p
                   (aggregatedLeaks v)
            else (0, aggregatedLeaks v)) \<and>
     aggregatedLeaks (snd (report_step e (s, v) (h, a, p))) =
       snd (if VLD_OPT_AGGREGATE_DUPLICATES \<in> m_options s
            then eraseDuplicates
                   (s\<lparr>blocks := (blocks s)(p \<mapsto> snd (isDebugCrtAlloc e a i))\<rparr>) (h, a) p
                   (aggregatedLeaks v)
            else (0, aggregatedLeaks v))"
proof -
  let ?j = "snd (isDebugCrtAlloc e a i)"
  let ?s1 = "s\<lparr>blocks := (blocks s)(p \<mapsto> ?j)\<rparr>"
  let ?ad = "if fst (isDebugCrtAlloc e a i) then CRTDBGBLOCKDATA e a else a"
  let ?sz = "if fst (isDebugCrtAlloc e a i) then getCrtBlockSize e a (ucrt ?j) else size' i"
  let ?r = "reportLeaks_leak e h (?s1, v) (a, p) ?j ?ad ?sz"
  have r: "report_step e (s, v) (h, a, p) = ?r"
    unfolding report_step_def using reportLeaks_block_leader [OF i(1,2) _ i(3) g, of "- 1" h]
    by simp
  from reportLeaks_leak_log [of e h "(?s1, v)" "(a, p)" ?j ?ad ?sz] obtain le where
    lg: "reportLog (fst ?r) = reportLog s @ (if firstLeak v then [R_LeaksDetected] else []) @ [R_Leak le]"
    and li: "le_info le = p" and ls: "le_size le = ?sz" and lt: "le_total le = ?sz * le_count le"
    and lc: "le_count le = 1 +
       fst (if VLD_OPT_AGGREGATE_DUPLICATES \<in> m_options s
            then eraseDuplicates ?s1 (h, a) p (aggregatedLeaks v)
            else (0, aggregatedLeaks v))"
    and la: "aggregatedLeaks (snd ?r) =
       snd (if VLD_OPT_AGGREGATE_DUPLICATES \<in> m_options s
            then eraseDuplicates ?s1 (h, a) p (aggregatedLeaks v)
            else (0, aggregatedLeaks v))"
    by auto
  have dr: "leak_entries (drop (length (reportLog s)) (reportLog (fst ?r))) = [le]"
    unfolding lg by simp
  show ?thesis unfolding r
    using dr lg li ls lt lc la by (intro exI [of _ le] conjI) auto
qed

lemma entries_mem:
  "en \<in> set (all_entries hm) \<longleftrightarrow> (\<exists>it \<in> set hm. fst en = fst it \<and> snd en \<in> set (blockMap (snd it)))"
  by (cases en) (force simp: all_entries_def heap_entries_def)

lemma entries_key_unique:
  assumes k: "keys_ok hm" and a: "en \<in> set (all_entries hm)" and b: "en' \<in> set (all_entries hm)"
    and eq: "fst en = fst en'" "en_addr en = en_addr en'"
  shows "en = en'"
proof -
  from a obtain it where it: "it \<in> set hm" "fst en = fst it" "snd en \<in> set (blockMap (snd it))"
    by (auto simp: entries_mem)
  from b obtain it' where it': "it' \<in> set hm" "fst en' = fst it'" "snd en' \<in> set (blockMap (snd it'))"
    by (auto simp: entries_mem)
  have d: "distinct (map fst hm)" using k by (simp add: keys_ok_def)
  have "fst it = fst it'" using eq(1) it(2) it'(2) by simp
  then have "it = it'" using d it(1) it'(1) by (meson distinct_map inj_onD)
  then have b2: "snd en' \<in> set (blockMap (snd it))" using it'(3) by simp
  have db: "distinct (map fst (blockMap (snd it)))" using k it(1) by (auto simp: keys_ok_def)
  have "fst (snd en) = fst (snd en')" using eq(2) by (simp add: en_addr_def)
  then have "snd en = snd en'" using db it(3) b2 by (meson distinct_map inj_onD)
  then show ?thesis using eq(1) by (simp add: prod_eq_iff)
qed

lemma filter_remove1_length:
  assumes "distinct xs" "x \<in> set xs" "P x"
  shows "Suc (length (filter (\<lambda>q. q \<noteq> x \<and> P q) xs)) = length (filter P xs)"
  using assms
proof (induction xs)
  case Nil
  then show ?case by simp
next
  case (Cons y xs)
  show ?case
  proof (cases "y = x")
    case True
    then have "x \<notin> set xs" using Cons.prems(1) by simp
    then have "filter (\<lambda>q. q \<noteq> x \<and> P q) xs = filter P xs" by (intro filter_cong) auto
    then show ?thesis using True Cons.prems(3) by simp
  next
    case False
    then have "x \<in> set xs" using Cons.prems(2) by simp
    from Cons.IH [OF _ this Cons.prems(3)] Cons.prems(1) False show ?thesis by simp
  qed
qed

section \<open>The live-bytes counter\<close>

text \<open>
  Claim C1. After every sequence of \<^verbatim>\<open>mapHeap\<close>, \<^verbatim>\<open>mapBlock\<close>, \<^verbatim>\<open>unmapBlock\<close>,
  \<^verbatim>\<open>unmapHeap\<close> and \<^verbatim>\<open>remapBlock\<close> calls on the ledger the constructor creates,
  \<^verbatim>\<open>m_curAlloc\<close> equals the sum, in \<^verbatim>\<open>SIZE_T\<close> arithmetic, of the size fields of all
  records present across the heap map; when every operation is on one heap, that is the
  sum over this heap's block map.
\<close>

theorem curAlloc_is_sum_of_live_sizes:
  "m_curAlloc (ledger_run e (vld_init opts mtf mdd) ops)
     = live_bytes (ledger_run e (vld_init opts mtf mdd) ops) \<and>
   ((\<forall>op \<in> set ops. op_heap op = heap) \<longrightarrow>
      m_curAlloc (ledger_run e (vld_init opts mtf mdd) ops)
        = heap_bytes (ledger_run e (vld_init opts mtf mdd) ops) heap)"
proof -
  let ?s = "ledger_run e (vld_init opts mtf mdd) ops"
  have inv: "ledger_inv 0 ?s" by (rule ledger_run_inv [OF ledger_inv_init])
  then have c: "m_curAlloc ?s = live_bytes ?s" and w: "wf ?s" by (simp_all add: ledger_inv_def)
  have "live_bytes ?s = heap_bytes ?s heap" if "\<forall>op \<in> set ops. op_heap op = heap"
    by (rule single_heap_live [OF w ledger_run_keys [OF that]]) (simp add: vld_init_def)
  with c show ?thesis by simp
qed

theorem curAlloc_is_sum_of_live_sizes_witness:
  "m_curAlloc (ledger_run env0 (vld_init {} 64 256) ops0)
     = heap_bytes (ledger_run env0 (vld_init {} 64 256) ops0) 0x10 \<and>
   m_curAlloc (ledger_run env0 (vld_init {} 64 256) ops0) = 160"
proof -
  have h: "\<forall>op \<in> set ops0. op_heap op = 0x10" by (simp add: ops0_def)
  have "m_curAlloc (ledger_run env0 (vld_init {} 64 256) ops0) = 160"
    by (simp add: ops0_def ledger_run_def vld_init_def mapBlock_def mapBlock_record_def
        mapBlock_insert_def mapHeap_def unmapBlock_def Map_find_def Map_insert_def Map_update_def
        Map_erase_def Let_def SIZE_MAX_def ctx0_def)
  with curAlloc_is_sum_of_live_sizes [of env0 "{}" 64 256 ops0 "0x10"] h
  show ?thesis by simp
qed

section \<open>Reporting twice\<close>

text \<open>
  Claim C10. On a well-formed ledger, two consecutive calls of \<^verbatim>\<open>ReportLeaks\<close> return
  the same leak count, and the second call appends to the report exactly the lines that
  the first call appended. The record of every leak entry that the first call prints is
  still unreported after the call. A record whose \<^verbatim>\<open>reported\<close> flag the call has newly set
  is a CRT-startup allocation, and the option to skip these is enabled. The heap map is
  left as it was. (The aggregation set and the first-leak flag are local to each call:
  \<^verbatim>\<open>ReportLeaks\<close> starts each call with the empty set.)
\<close>

theorem ReportLeaks_twice:
  assumes w: "wf s"
  shows "snd (ReportLeaks e (fst (ReportLeaks e s))) = snd (ReportLeaks e s) \<and>
     (\<exists>out. reportLog (fst (ReportLeaks e s)) = reportLog s @ out \<and>
        reportLog (fst (ReportLeaks e (fst (ReportLeaks e s))))
          = reportLog (fst (ReportLeaks e s)) @ out \<and>
        (\<forall>entry. R_Leak entry \<in> set out \<longrightarrow>
           (\<exists>j. blocks (fst (ReportLeaks e s)) (le_info entry) = Some j \<and> \<not> reported j))) \<and>
     (\<forall>p i j. blocks s p = Some i \<and> blocks (fst (ReportLeaks e s)) p = Some j \<and>
          reported j \<and> \<not> reported i
        \<longrightarrow> VLD_OPT_SKIP_CRTSTARTUP_LEAKS \<in> m_options s \<and>
            (\<exists>cs. callStack i = Some cs \<and> isCrtStartupAlloc e cs)) \<and>
     m_heapMap (fst (ReportLeaks e s)) = m_heapMap s"
proof (cases "VLD_OPT_VLDOFF \<in> m_options s")
  case True
  then have r: "ReportLeaks e s = (s, 0)" by (simp add: ReportLeaks_def)
  have "\<exists>out. reportLog s = reportLog s @ out \<and> reportLog s = reportLog s @ out \<and>
        (\<forall>entry. R_Leak entry \<in> set out \<longrightarrow>
           (\<exists>j. blocks s (le_info entry) = Some j \<and> \<not> reported j))"
    by (rule exI [of _ "[]"]) simp
  then show ?thesis by (auto simp: r)
next
  case False
  let ?v0 = "\<lparr>firstLeak = True, aggregatedLeaks = {}, leaksFound = 0\<rparr>"
  let ?L = "all_entries (m_heapMap s)"
  let ?R1 = "foldl (report_step e) (s, ?v0) ?L"
  let ?s1 = "fst ?R1"
  let ?R2 = "foldl (report_step e) (?s1, ?v0) ?L"
  have r1: "ReportLeaks e s = (?s1, leaksFound (snd ?R1))" by (rule ReportLeaks_flat [OF False])
  have hm1: "m_heapMap ?s1 = m_heapMap s" and o1: "m_options ?s1 = m_options s"
    and md1: "m_maxDataDump ?s1 = m_maxDataDump s"
    using run_fields [of e "(s, ?v0)" ?L] by simp_all
  have off1: "VLD_OPT_VLDOFF \<notin> m_options ?s1" using False by (simp add: o1)
  have r2: "ReportLeaks e ?s1 = (fst ?R2, leaksFound (snd ?R2))"
    using ReportLeaks_flat [OF off1, of e] by (simp add: hm1)
  have d: "distinct (map en_ptr ?L)" by (rule wf_distinct_entries [OF w])
  have te: "touch_eq e (m_options s) ?L (blocks s) (blocks ?s1)"
    by (rule run_self_te [OF d subset_refl])
  from run_sim [OF d subset_refl refl hm1 o1 md1 te, of ?v0]
  obtain out where v: "snd ?R2 = snd ?R1" and l1: "reportLog ?s1 = reportLog s @ out"
    and l2: "reportLog (fst ?R2) = reportLog ?s1 @ out"
    by blast
  from run_out [of e s ?v0 ?L] obtain out' where
    l1': "reportLog ?s1 = reportLog s @ out'"
    and un: "\<forall>entry. R_Leak entry \<in> set out' \<longrightarrow>
        (\<exists>j. blocks ?s1 (le_info entry) = Some j \<and> \<not> reported j \<and> \<not> crt_startup e (m_options s) j)"
    by blast
  have oo: "out' = out" using l1 l1' by simp
  have c1: "snd (ReportLeaks e (fst (ReportLeaks e s))) = snd (ReportLeaks e s)"
    by (simp add: r1 r2 v)
  have c2: "\<exists>out. reportLog (fst (ReportLeaks e s)) = reportLog s @ out \<and>
        reportLog (fst (ReportLeaks e (fst (ReportLeaks e s))))
          = reportLog (fst (ReportLeaks e s)) @ out \<and>
        (\<forall>entry. R_Leak entry \<in> set out \<longrightarrow>
           (\<exists>j. blocks (fst (ReportLeaks e s)) (le_info entry) = Some j \<and> \<not> reported j))"
    unfolding r1 fst_conv unfolding r2 fst_conv
    by (rule exI [of _ out]) (use l1 l2 un oo in blast)
  have fr: "flag_rel e (m_options s) (blocks s) (blocks ?s1)" by (rule run_flag)
  have c3: "\<forall>p i j. blocks s p = Some i \<and> blocks (fst (ReportLeaks e s)) p = Some j \<and>
          reported j \<and> \<not> reported i
        \<longrightarrow> VLD_OPT_SKIP_CRTSTARTUP_LEAKS \<in> m_options s \<and>
            (\<exists>cs. callStack i = Some cs \<and> isCrtStartupAlloc e cs)"
  proof (intro allI impI)
    fix p i j
    assume a: "blocks s p = Some i \<and> blocks (fst (ReportLeaks e s)) p = Some j \<and>
          reported j \<and> \<not> reported i"
    then have bi: "blocks s p = Some i" and bj: "blocks ?s1 p = Some j" and rj: "reported j"
      and ni: "\<not> reported i" by (simp_all add: r1)
    from flag_rel_Some [OF fr bi] bj rj ni have "crt_startup e (m_options s) i" by auto
    then show "VLD_OPT_SKIP_CRTSTARTUP_LEAKS \<in> m_options s \<and>
            (\<exists>cs. callStack i = Some cs \<and> isCrtStartupAlloc e cs)"
      by (auto simp: crt_startup_def split: option.splits)
  qed
  have c4: "m_heapMap (fst (ReportLeaks e s)) = m_heapMap s" by (simp add: r1 hm1)
  from c1 c2 c3 c4 show ?thesis by blast
qed

text \<open>
  The example ledger: each of the two calls counts the one leak, and the record is left
  as it was.
\<close>

theorem ReportLeaks_twice_witness:
  "snd (ReportLeaks env0 ledger0) = 1 \<and>
   snd (ReportLeaks env0 (fst (ReportLeaks env0 ledger0))) = 1 \<and>
   blocks (fst (ReportLeaks env0 ledger0)) 0 = Some info0"
proof -
  have a: "snd (ReportLeaks env0 ledger0) = 1"
    by (simp add: ReportLeaks_def ReportLeaks_heap_def reportLeaks_def reportLeaks_block_def
        reportLeaks_leak_def isDebugCrtAlloc_def env0_def ledger0_def info0_def Report_def Let_def)
  have b: "blocks (fst (ReportLeaks env0 ledger0)) 0 = Some info0"
    by (simp add: ReportLeaks_def ReportLeaks_heap_def reportLeaks_def reportLeaks_block_def
        reportLeaks_leak_def isDebugCrtAlloc_def env0_def ledger0_def info0_def Report_def Let_def)
  from ReportLeaks_twice [OF wf_ledger0, of env0] a b show ?thesis by simp
qed

section \<open>Reallocation in place\<close>

lemma remapBlock_inplace_blocks:
  "blocks (remapBlock_inplace p info sz tid s) =
     (blocks s)(p \<mapsto> info\<lparr>callStack := None, threadId := tid, size' := sz\<rparr>)"
  by (simp add: remapBlock_inplace_def Let_def)

text \<open>
  Claim C3, as the code has it. For a tracked block, \<^verbatim>\<open>remapBlock\<close> with identical old and
  new addresses keeps the record where it is and keeps its serial number, replaces its
  size with the new size and resets its call stack; the thread id is not kept: it is
  overwritten with the thread id of the reallocating call
  (\<^verbatim>\<open>info->threadId = threadId\<close>).
\<close>

theorem remapBlock_same_address:
  assumes "Map_find (m_heapMap s) heap = Some heapinfo"
    and "Map_find (blockMap heapinfo) mem = Some p"
    and "blocks s p = Some info"
  shows "\<exists>s'. remapBlock e heap mem mem sz d u tid context s = (s', Some p) \<and>
           m_heapMap s' = m_heapMap s \<and>
           blocks s' = (blocks s)(p \<mapsto> info\<lparr>callStack := None, threadId := tid, size' := sz\<rparr>) \<and>
           map_option serialNumber (blocks s' p) = Some (serialNumber info) \<and>
           map_option size' (blocks s' p) = Some sz \<and>
           map_option callStack (blocks s' p) = Some None \<and>
           map_option threadId (blocks s' p) = Some tid"
  using assms
  by (simp add: remapBlock_def remapBlock_inplace_blocks)
     (simp add: remapBlock_inplace_def Let_def)

theorem remapBlock_same_address_witness:
  "\<exists>s'. remapBlock env0 0x10 0x1000 0x1000 128 False False 2 ctx0 ledger0 = (s', Some 0) \<and>
        blocks s' 0 = Some (info0\<lparr>callStack := None, threadId := 2, size' := 128\<rparr>)"
proof -
  have a: "Map_find (m_heapMap ledger0) 0x10 = Some \<lparr>blockMap = [(0x1000, 0)], flags = 0\<rparr>"
    by (simp add: ledger0_def Map_find_def)
  have b: "Map_find (blockMap \<lparr>blockMap = [(0x1000, 0)], flags = 0\<rparr>) 0x1000 = Some 0"
    by (simp add: Map_find_def)
  have c: "blocks ledger0 0 = Some info0" by (simp add: ledger0_def)
  from remapBlock_same_address [OF a b c, of env0 128 False False 2 ctx0]
  show ?thesis by auto
qed

text \<open>
  The claim as the spec words it (thread id unchanged) fails: thread 2 reallocating, in
  place, the block that thread 1 allocated leaves the record with thread id 2.
\<close>

theorem remapBlock_thread_id_counterexample:
  "map_option threadId (blocks ledger0 0) = Some 1 \<and>
   map_option threadId
     (blocks (fst (remapBlock env0 0x10 0x1000 0x1000 128 False False 2 ctx0 ledger0)) 0) = Some 2"
  by (simp add: remapBlock_def remapBlock_inplace_def ledger0_def info0_def Map_find_def Let_def
      SIZE_MAX_def)

section \<open>Marking all leaks as reported\<close>

text \<open>
  Claim C4. \<^verbatim>\<open>ReportLeaks\<close> right after \<^verbatim>\<open>MarkAllLeaksAsReported\<close> prints nothing, changes
  nothing and returns 0. A block mapped after the mark gets a record with the reported
  flag cleared, and (detection being on, the ledger well formed, and the block passing
  the reporter's CRT filters) a later \<^verbatim>\<open>ReportLeaks\<close> prints exactly one leak entry, for
  that record, and returns that entry's count; the count is 1 when the record has no
  call stack yet or duplicates are not aggregated. \<open>cso\<close> is the call stack the capture
  context has attached to the new record in the meantime, if any.
\<close>

theorem mark_then_report:
  assumes w: "wf s" and on: "VLD_OPT_VLDOFF \<notin> m_options s"
    and mb: "mapBlock heap mem sz d u tid (MarkAllLeaksAsReported s) = (s', p)"
    and bi: "blocks s' p = Some info"
    and s3: "s3 = s'\<lparr>blocks := (blocks s')(p \<mapsto> info\<lparr>callStack := cso\<rparr>)\<rparr>"
    and gen: "genuine e (m_options s) mem (info\<lparr>callStack := cso\<rparr>)"
  shows "ReportLeaks e (MarkAllLeaksAsReported s) = (MarkAllLeaksAsReported s, 0) \<and>
     \<not> reported info \<and>
     (\<exists>entry. reportLog (fst (ReportLeaks e s3)) = reportLog s3 @ [R_LeaksDetected, R_Leak entry] \<and>
        le_info entry = p \<and> le_serialNumber entry = m_requestCurr s \<and>
        snd (ReportLeaks e s3) = le_count entry \<and>
        (cso = None \<or> VLD_OPT_AGGREGATE_DUPLICATES \<notin> m_options s \<longrightarrow> le_count entry = 1))"
proof -
  let ?s1 = "MarkAllLeaksAsReported s"
  have w1: "wf ?s1" by (rule wf_MarkAll [OF w])
  have sk1: "skipped ?s1 q" for q by (rule MarkAll_all_skipped [OF w on])
  from mapBlock_shape [OF w1, of heap mem sz d u tid] mb
  obtain xs hi ys us where p: "p = nextBlock ?s1"
    and hm: "m_heapMap s' = xs @ (heap, hi) # ys" and bm: "blockMap hi = us @ [(mem, p)]"
    and new: "blocks s' p = Some \<lparr>callStack = None, threadId = tid,
         serialNumber = m_requestCurr ?s1, size' = sz, reported = False,
         debugCrtAlloc = d, ucrt = u\<rparr>"
    and oth: "\<forall>q. q \<noteq> p \<longrightarrow> blocks s' q = blocks ?s1 q \<or> blocks s' q = None"
    and opts: "m_options s' = m_options s" and w': "wf s'"
    by auto
  have rc: "m_requestCurr ?s1 = m_requestCurr s"
  proof -
    have a: "m_requestCurr (markAllLeaksAsReported_block t x b) = m_requestCurr x" for t x b
      by (simp add: markAllLeaksAsReported_block_def split: option.splits)
    have b: "m_requestCurr (foldl (markAllLeaksAsReported_block t) x bs) = m_requestCurr x" for t x bs
      by (induction bs arbitrary: x) (simp_all add: a)
    have c: "m_requestCurr (foldl (markAllLeaksAsReported t) x h) = m_requestCurr x" for t x h
      by (induction h arbitrary: x) (simp_all add: markAllLeaksAsReported_def b)
    show ?thesis by (simp add: MarkAllLeaksAsReported_def c)
  qed
  from bi new have info: "info = \<lparr>callStack = None, threadId = tid,
         serialNumber = m_requestCurr s, size' = sz, reported = False,
         debugCrtAlloc = d, ucrt = u\<rparr>" by (simp add: rc)
  let ?i = "info\<lparr>callStack := cso\<rparr>"
  have nr: "\<not> reported info" by (simp add: info)
  have sk': "skipped s' q" if "q \<noteq> p" for q
    using oth that sk1 [of q] by (auto simp: skipped_def)
  have dp: "distinct (ptrs_of (m_heapMap s'))" using w' by (simp add: wf_alt)
  have px: "p \<notin> set (ptrs_of xs)" and py: "p \<notin> set (ptrs_of ys)" and pu: "p \<notin> snd ` set us"
    using dp by (auto simp: hm heap_ptrs_def bm)
  have hm3: "m_heapMap s3 = xs @ (heap, hi) # ys" and o3: "m_options s3 = m_options s"
    and b3: "blocks s3 p = Some ?i" by (simp_all add: s3 hm opts)
  have sk3: "skipped s3 q" if "q \<noteq> p" for q
    using sk' [OF that] that by (simp add: skipped_def s3)
  have skx: "\<forall>it \<in> set xs. \<forall>b \<in> set (blockMap (snd it)). skipped s3 (snd b)"
  proof (intro ballI)
    fix it b assume "it \<in> set xs" "b \<in> set (blockMap (snd it))"
    then have "snd b \<in> set (ptrs_of xs)" by (force simp: ptrs_of_def heap_ptrs_def)
    with px have "snd b \<noteq> p" by auto
    then show "skipped s3 (snd b)" by (rule sk3)
  qed
  have sku: "\<forall>b \<in> set us. skipped s3 (snd b)"
  proof
    fix b assume "b \<in> set us"
    with pu have "snd b \<noteq> p" by auto
    then show "skipped s3 (snd b)" by (rule sk3)
  qed
  let ?crt = "isDebugCrtAlloc e mem ?i"
  let ?st1 = "(s3\<lparr>blocks := (blocks s3)(p \<mapsto> snd ?crt)\<rparr>,
               \<lparr>firstLeak = True, aggregatedLeaks = {}, leaksFound = 0\<rparr>)"
  let ?lk = "reportLeaks_leak e heap ?st1 (mem, p) (snd ?crt)
       (if fst ?crt then CRTDBGBLOCKDATA e mem else mem)
       (if fst ?crt then getCrtBlockSize e mem (ucrt (snd ?crt)) else size' ?i)"
  have lead: "reportLeaks_block e (- 1) heap
       (s3, \<lparr>firstLeak = True, aggregatedLeaks = {}, leaksFound = 0\<rparr>) (mem, p) = ?lk"
    by (rule reportLeaks_block_leader [OF b3]) (use nr gen in \<open>simp_all add: o3\<close>)
  from reportLeaks_leak_log [of e heap ?st1 "(mem, p)" "snd ?crt"
      "if fst ?crt then CRTDBGBLOCKDATA e mem else mem"
      "if fst ?crt then getCrtBlockSize e mem (ucrt (snd ?crt)) else size' ?i"]
  obtain entry where lg: "reportLog (fst ?lk) = reportLog s3 @ [R_LeaksDetected, R_Leak entry]"
    and li: "le_info entry = p" and lf: "leaksFound (snd ?lk) = le_count entry"
    and ls0: "le_serialNumber entry = serialNumber (snd ?crt)"
    and lc: "le_count entry = 1 +
         fst (if VLD_OPT_AGGREGATE_DUPLICATES \<in> m_options s
              then eraseDuplicates (fst ?st1) (heap, mem) p {}
              else (0, {}))"
    by (auto simp: o3)
  have ls: "le_serialNumber entry = m_requestCurr s" by (simp add: ls0 info)
  have e1: "le_count entry = 1" if "cso = None \<or> VLD_OPT_AGGREGATE_DUPLICATES \<notin> m_options s"
  proof (cases "VLD_OPT_AGGREGATE_DUPLICATES \<in> m_options s")
    case False
    then show ?thesis by (simp add: lc)
  next
    case True
    with that have "cso = None" by simp
    then have "eraseDuplicates (fst ?st1) (heap, mem) p {} = (0, {})"
      by (intro eraseDuplicates_no_stack [where info = "snd ?crt"]) simp_all
    then show ?thesis by (simp add: lc)
  qed
  have sk4: "skipped (fst ?lk) q" if "q \<noteq> p" for q
    using sk3 [OF that] that by (simp add: skipped_def reportLeaks_leak_fields)
  have sky: "\<forall>it \<in> set ys. \<forall>b \<in> set (blockMap (snd it)). skipped (fst ?lk) (snd b)"
  proof (intro ballI)
    fix it b assume "it \<in> set ys" "b \<in> set (blockMap (snd it))"
    then have "snd b \<in> set (ptrs_of ys)" by (force simp: ptrs_of_def heap_ptrs_def)
    with py have "snd b \<noteq> p" by auto
    then show "skipped (fst ?lk) (snd b)" by (rule sk4)
  qed
  have heap: "reportLeaks e (- 1) (heap, hi) (s3, True, {})
      = ((fst ?lk, firstLeak (snd ?lk), aggregatedLeaks (snd ?lk)), leaksFound (snd ?lk))"
    using reportLeaks_loop_skip [of us "(s3, \<lparr>firstLeak = True, aggregatedLeaks = {}, leaksFound = 0\<rparr>)" e "- 1" heap] sku
    by (simp add: reportLeaks_def bm lead case_prod_beta)
  have run: "foldl (ReportLeaks_heap e) ((s3, True, {}), 0) (xs @ (heap, hi) # ys)
      = ((fst ?lk, firstLeak (snd ?lk), aggregatedLeaks (snd ?lk)), leaksFound (snd ?lk))"
    using ReportLeaks_loop_skip [OF skx, of e True "{}" 0]
      ReportLeaks_loop_skip [OF sky, of e "firstLeak (snd ?lk)" "aggregatedLeaks (snd ?lk)" "leaksFound (snd ?lk)"]
    by (simp add: ReportLeaks_heap_def heap)
  have R: "ReportLeaks e s3 = (fst ?lk, le_count entry)"
    unfolding ReportLeaks_def hm3 run using on by (simp add: o3 lf)
  have g1: "ReportLeaks e ?s1 = (?s1, 0)" by (rule ReportLeaks_after_mark)
  have g3: "reportLog (fst (ReportLeaks e s3)) = reportLog s3 @ [R_LeaksDetected, R_Leak entry] \<and>
        le_info entry = p \<and> le_serialNumber entry = m_requestCurr s \<and>
        snd (ReportLeaks e s3) = le_count entry \<and>
        (cso = None \<or> VLD_OPT_AGGREGATE_DUPLICATES \<notin> m_options s \<longrightarrow> le_count entry = 1)"
    using lg li ls e1 by (simp add: R)
  from g1 nr g3 show ?thesis by blast
qed

theorem mark_then_report_witness:
  "ReportLeaks env0 (MarkAllLeaksAsReported ledger0) = (MarkAllLeaksAsReported ledger0, 0) \<and>
   (\<exists>entry. reportLog (fst (ReportLeaks env0 ledger_stacked))
        = reportLog ledger_stacked @ [R_LeaksDetected, R_Leak entry] \<and>
      le_info entry = 1 \<and> le_serialNumber entry = 2 \<and>
      snd (ReportLeaks env0 ledger_stacked) = le_count entry \<and> le_count entry = 1)"
proof -
  have on: "VLD_OPT_VLDOFF \<notin> m_options ledger0" and o: "m_options ledger0 = {}"
    and rc: "m_requestCurr ledger0 = 2"
    by (simp_all add: ledger0_def)
  have mb: "mapBlock 0x10 0x2000 32 False False 2 (MarkAllLeaksAsReported ledger0)
      = (ledger_marked, 1)"
    by (simp add: ledger_marked_def mapBlock_def Let_def) (simp add: ledger0_def)
  have bi: "blocks ledger_marked 1 = Some info_new"
    by (simp add: ledger_marked_def info_new_def mapBlock_def mapBlock_record_def
        mapBlock_insert_def MarkAllLeaksAsReported_def markAllLeaksAsReported_def
        markAllLeaksAsReported_block_def ledger0_def Map_find_def Map_insert_def Map_update_def
        Let_def)
  have gen: "genuine env0 (m_options ledger0) 0x2000 (info_new\<lparr>callStack := Some (CallStack [7])\<rparr>)"
    by (simp add: genuine_def isDebugCrtAlloc_def env0_def info_new_def Let_def)
  from mark_then_report [OF wf_ledger0 on mb bi ledger_stacked_def gen]
  show ?thesis by (simp add: o rc)
qed

section \<open>Unmapping an address that is not tracked\<close>

text \<open>
  Claim C5, as the code has it. In any ledger, let the address not be tracked in the
  heap's block map: the address is \<^verbatim>\<open>NULL\<close>, or the heap has no block map, or the
  heap's block map does not hold the address. Then \<^verbatim>\<open>unmapBlock\<close> changes nothing in
  the ledger (only report lines can be added). It is silent, and returns the state as it
  is, when the address is \<^verbatim>\<open>NULL\<close>, when the heap has no block map, when the
  cross-heap-validation option is off, or when no heap holds the address. In a
  well-formed ledger with the option on, the address not \<^verbatim>\<open>NULL\<close>, the heap having a
  block map and the address held by some heap, \<^verbatim>\<open>findAllocedBlock\<close> returns the first
  such heap, which is a different heap, and the critical diagnostic with the allocation
  call stack and the deallocation call stack is printed provided the record found has a
  call stack; without one nothing is printed.
\<close>

theorem unmapBlock_untracked:
  assumes miss: "mem = 0 \<or> Map_find (m_heapMap s) heap = None \<or>
       (\<exists>heapinfo. Map_find (m_heapMap s) heap = Some heapinfo \<and>
          Map_find (blockMap heapinfo) mem = None)"
  shows "unmapBlock e heap mem c s = s\<lparr>reportLog := reportLog (unmapBlock e heap mem c s)\<rparr> \<and>
     (mem = 0 \<or> Map_find (m_heapMap s) heap = None \<or>
        VLD_OPT_VALIDATE_HEAPFREE \<notin> m_options s \<or>
        (\<forall>it \<in> set (m_heapMap s). Map_find (blockMap (snd it)) mem = None)
      \<longrightarrow> unmapBlock e heap mem c s = s) \<and>
     (wf s \<and> VLD_OPT_VALIDATE_HEAPFREE \<in> m_options s \<and> mem \<noteq> 0 \<and>
        Map_find (m_heapMap s) heap \<noteq> None \<and>
        (\<exists>it \<in> set (m_heapMap s). Map_find (blockMap (snd it)) mem \<noteq> None)
      \<longrightarrow> (\<exists>p other_heap otherinfo info.
             findAllocedBlock s mem = (Some p, other_heap) \<and> other_heap \<noteq> heap \<and>
             Map_find (m_heapMap s) other_heap = Some otherinfo \<and>
             Map_find (blockMap otherinfo) mem = Some p \<and>
             blocks s p = Some info \<and>
             unmapBlock e heap mem c s =
               (case callStack info of
                  None \<Rightarrow> s
                | Some cs \<Rightarrow> reportCrossHeapFree e mem c info cs s))) \<and>
     (\<forall>info cs. set [R_CrossHeapFree, R_Dump cs (VLD_OPT_TRACE_INTERNAL_FRAMES \<in> m_options s),
                     R_Dump (getStackTrace e (m_maxTraceFrames s) c) False]
          \<subseteq> set (reportLog (reportCrossHeapFree e mem c info cs s)))"
proof -
  let ?r = "unmapBlock e heap mem c s"
  have "\<exists>ls. ?r = s\<lparr>reportLog := reportLog s @ ls\<rparr>"
    by (rule unmapBlock_miss [OF miss])
  then obtain ls where "?r = s\<lparr>reportLog := reportLog s @ ls\<rparr>" ..
  then have "reportLog ?r = reportLog s @ ls" "?r = s\<lparr>reportLog := reportLog s @ ls\<rparr>"
    by simp_all
  then have g1: "?r = s\<lparr>reportLog := reportLog ?r\<rparr>" by simp
  have g2: "?r = s" if "mem = 0 \<or> Map_find (m_heapMap s) heap = None \<or>
        VLD_OPT_VALIDATE_HEAPFREE \<notin> m_options s \<or>
        (\<forall>it \<in> set (m_heapMap s). Map_find (blockMap (snd it)) mem = None)"
  proof (cases "mem = 0 \<or> Map_find (m_heapMap s) heap = None")
    case True
    then show ?thesis by (auto simp: unmapBlock_def)
  next
    case False
    with miss obtain heapinfo where f: "Map_find (m_heapMap s) heap = Some heapinfo"
      and n: "Map_find (blockMap heapinfo) mem = None" by auto
    from that False consider "VLD_OPT_VALIDATE_HEAPFREE \<notin> m_options s"
      | "\<forall>it \<in> set (m_heapMap s). Map_find (blockMap (snd it)) mem = None" by blast
    then show ?thesis
    proof cases
      case 1
      then show ?thesis by (simp add: unmapBlock_def f n)
    next
      case 2
      then have "findAllocedBlock s mem = (None, 0)"
        by (simp add: findAllocedBlock_def findAllocedBlock_loop_untracked)
      then show ?thesis by (simp add: unmapBlock_def f n)
    qed
  qed
  have g3: "\<exists>p other_heap otherinfo info.
             findAllocedBlock s mem = (Some p, other_heap) \<and> other_heap \<noteq> heap \<and>
             Map_find (m_heapMap s) other_heap = Some otherinfo \<and>
             Map_find (blockMap otherinfo) mem = Some p \<and>
             blocks s p = Some info \<and>
             ?r = (case callStack info of
                  None \<Rightarrow> s
                | Some cs \<Rightarrow> reportCrossHeapFree e mem c info cs s)"
    if w: "wf s" and v: "VLD_OPT_VALIDATE_HEAPFREE \<in> m_options s" and m0: "mem \<noteq> 0"
      and hs: "Map_find (m_heapMap s) heap \<noteq> None"
      and ex: "\<exists>it \<in> set (m_heapMap s). Map_find (blockMap (snd it)) mem \<noteq> None"
  proof -
    have dist: "distinct (map fst (m_heapMap s))" and dom: "set (block_ptrs s) = dom (blocks s)"
      using w by (simp_all add: wf_def)
    from miss m0 hs obtain heapinfo where f: "Map_find (m_heapMap s) heap = Some heapinfo"
      and n: "Map_find (blockMap heapinfo) mem = None" by auto
    obtain ab oh where fa: "findAllocedBlock s mem = (ab, oh)" by (cases "findAllocedBlock s mem")
    have "ab \<noteq> None"
    proof
      assume "ab = None"
      with fa have "\<forall>it \<in> set (m_heapMap s). Map_find (blockMap (snd it)) mem = None"
        using findAllocedBlock_loop_None [of "m_heapMap s" mem oh] by (simp add: findAllocedBlock_def)
      with ex show False by auto
    qed
    then obtain p where abp: "ab = Some p" by auto
    from findAllocedBlock_loop_Some [of "m_heapMap s" mem p oh] fa abp
    obtain hi where hi: "(oh, hi) \<in> set (m_heapMap s)" and fp: "Map_find (blockMap hi) mem = Some p"
      by (auto simp: findAllocedBlock_def)
    have fo: "Map_find (m_heapMap s) oh = Some hi" by (rule Map_find_distinct [OF dist hi])
    have ne: "oh \<noteq> heap" using fo f fp n by auto
    have "p \<in> set (block_ptrs s)"
      using Map_find_mem_ptrs [OF hi fp] by (simp add: block_ptrs_ptrs_of)
    then obtain info where bi: "blocks s p = Some info" using dom by auto
    have "?r = (case callStack info of None \<Rightarrow> s
                | Some cs \<Rightarrow> reportCrossHeapFree e mem c info cs s)"
      using v m0 ne by (simp add: unmapBlock_def f n fa abp bi split: option.splits)
    with fa abp ne fo fp bi show ?thesis by blast
  qed
  have g4: "\<forall>info cs. set [R_CrossHeapFree, R_Dump cs (VLD_OPT_TRACE_INTERNAL_FRAMES \<in> m_options s),
                     R_Dump (getStackTrace e (m_maxTraceFrames s) c) False]
          \<subseteq> set (reportLog (reportCrossHeapFree e mem c info cs s))"
    by (simp add: reportCrossHeapFree_def Let_def)
  from g1 g2 g3 g4 show ?thesis by blast
qed

theorem unmapBlock_untracked_witness:
  "unmapBlock env0 0x20 0x1000 ctx0 ledger_two
     = reportCrossHeapFree env0 0x1000 ctx0 info0 (CallStack [1, 2, 3]) ledger_two \<and>
   reportLog (unmapBlock env0 0x20 0x1000 ctx0 ledger_two)
     = [R_CrossHeapFree, R_BlockHeader 1 0x1000 64, R_TID 1, R_CallStackHeading,
        R_Dump (CallStack [1, 2, 3]) False, R_DeallocationHeading, R_BlockHeader 1 0x1000 64,
        R_CallStackHeading, R_Dump (CallStack [0]) False] \<and>
   unmapBlock env0 0x30 0x1000 ctx0 ledger_two = ledger_two \<and>
   unmapBlock env0 0x10 0 ctx0 ledger_two = ledger_two"
proof -
  have f: "Map_find (m_heapMap ledger_two) 0x20 = Some \<lparr>blockMap = [], flags = 0\<rparr>"
    by (simp add: ledger_two_def ledger0_def Map_find_def)
  have n: "Map_find (blockMap \<lparr>blockMap = [], flags = 0\<rparr>) 0x1000 = None"
    by (simp add: Map_find_def)
  have miss: "(0x1000 :: LPCVOID) = 0 \<or> Map_find (m_heapMap ledger_two) 0x20 = None \<or>
       (\<exists>heapinfo. Map_find (m_heapMap ledger_two) 0x20 = Some heapinfo \<and>
          Map_find (blockMap heapinfo) 0x1000 = None)"
    using f n by simp
  have v: "VLD_OPT_VALIDATE_HEAPFREE \<in> m_options ledger_two \<and> (0x1000 :: LPCVOID) \<noteq> 0 \<and>
      Map_find (m_heapMap ledger_two) 0x20 \<noteq> None \<and>
      (\<exists>it \<in> set (m_heapMap ledger_two). Map_find (blockMap (snd it)) 0x1000 \<noteq> None)"
    by (simp add: ledger_two_def ledger0_def Map_find_def)
  have fa: "findAllocedBlock ledger_two 0x1000 = (Some 0, 0x10)"
    by (simp add: findAllocedBlock_def ledger_two_def ledger0_def Map_find_def)
  have bi: "blocks ledger_two 0 = Some info0" by (simp add: ledger_two_def ledger0_def)
  from unmapBlock_untracked [OF miss, where e = env0 and c = ctx0] wf_ledger_two v fa bi
  have a: "unmapBlock env0 0x20 0x1000 ctx0 ledger_two
     = reportCrossHeapFree env0 0x1000 ctx0 info0 (CallStack [1, 2, 3]) ledger_two"
    by (auto simp: info0_def)
  have n30: "Map_find (m_heapMap ledger_two) 0x30 = None"
    by (simp add: ledger_two_def ledger0_def Map_find_def)
  have miss30: "(0x1000 :: LPCVOID) = 0 \<or> Map_find (m_heapMap ledger_two) 0x30 = None \<or>
       (\<exists>heapinfo. Map_find (m_heapMap ledger_two) 0x30 = Some heapinfo \<and>
          Map_find (blockMap heapinfo) 0x1000 = None)"
    using n30 by simp
  from unmapBlock_untracked [OF miss30, where e = env0 and c = ctx0] n30
  have b: "unmapBlock env0 0x30 0x1000 ctx0 ledger_two = ledger_two" by blast
  have miss0: "(0 :: LPCVOID) = 0 \<or> Map_find (m_heapMap ledger_two) 0x10 = None \<or>
       (\<exists>heapinfo. Map_find (m_heapMap ledger_two) 0x10 = Some heapinfo \<and>
          Map_find (blockMap heapinfo) 0 = None)"
    by simp
  from unmapBlock_untracked [OF miss0, where e = env0 and c = ctx0]
  have c: "unmapBlock env0 0x10 0 ctx0 ledger_two = ledger_two" by blast
  from a b c show ?thesis
    by (simp add: reportCrossHeapFree_def Let_def env0_def ledger_two_def ledger0_def info0_def ctx0_def)
qed

text \<open>
  The claim as the spec words it (with the option on, a diagnostic whenever the address
  is live on a different heap) fails in two ways: when the heap being freed to has no
  block map at all, \<^verbatim>\<open>unmapBlock\<close> returns before the scan; and when the record found has
  no call stack yet, the guard \<^verbatim>\<open>alloc_block->callStack\<close> suppresses the diagnostic.
\<close>

theorem unmapBlock_no_diagnostic_counterexample:
  "VLD_OPT_VALIDATE_HEAPFREE \<in> m_options ledger_validate \<and>
   Map_find (m_heapMap ledger_validate) 0x20 = None \<and>
   findAllocedBlock ledger_validate 0x1000 = (Some 0, 0x10) \<and>
   unmapBlock env0 0x20 0x1000 ctx0 ledger_validate = ledger_validate \<and>
   reportLog ledger_validate = [] \<and>
   VLD_OPT_VALIDATE_HEAPFREE \<in> m_options ledger_two_nostack \<and>
   Map_find (m_heapMap ledger_two_nostack) 0x20 = Some \<lparr>blockMap = [], flags = 0\<rparr> \<and>
   findAllocedBlock ledger_two_nostack 0x1000 = (Some 0, 0x10) \<and>
   unmapBlock env0 0x20 0x1000 ctx0 ledger_two_nostack = ledger_two_nostack \<and>
   reportLog ledger_two_nostack = []"
  by (simp add: ledger_validate_def ledger_two_nostack_def ledger_two_def ledger0_def
      unmapBlock_def findAllocedBlock_def Map_find_def info0_def)

section \<open>Mapping a block at an address that is already tracked\<close>

text \<open>
  Claim C6. In a well-formed ledger, \<^verbatim>\<open>mapBlock\<close> at an address that already has an entry
  in the heap's block map replaces it: afterwards the block map has exactly one entry at
  that address, pointing to the new record (new size, thread id and serial number, no call
  stack, not reported); the old record is deleted from the free store; the old size is
  taken off \<^verbatim>\<open>m_curAlloc\<close>; the discrepancy is reported. The ledger stays well formed
  and the numbers of block-map entries and of records in the free store do not change, so
  the theorem applies again to the result and repeated cycles accumulate nothing.
\<close>

theorem mapBlock_collision_replaces:
  assumes w: "wf s"
    and f: "Map_find (m_heapMap s) heap = Some heapinfo"
    and fo: "Map_find (blockMap heapinfo) mem = Some old"
    and oi: "blocks s old = Some info"
  shows "\<exists>s' heapinfo'.
     mapBlock heap mem sz d u tid s = (s', nextBlock s) \<and>
     Map_find (m_heapMap s') heap = Some heapinfo' \<and>
     Map_find (blockMap heapinfo') mem = Some (nextBlock s) \<and>
     length (filter (\<lambda>it. fst it = mem) (blockMap heapinfo')) = 1 \<and>
     length (blockMap heapinfo') = length (blockMap heapinfo) \<and>
     blocks s' (nextBlock s) =
       Some \<lparr>callStack = None, threadId = tid, serialNumber = m_requestCurr s, size' = sz,
             reported = False, debugCrtAlloc = d, ucrt = u\<rparr> \<and>
     blocks s' old = None \<and>
     m_curAlloc s' = m_curAlloc s + sz - size' info \<and>
     reportLog s' = reportLog s @ [R_NewAllocAtAllocated mem (size' info) sz] \<and>
     wf s' \<and>
     length (block_ptrs s') = length (block_ptrs s) \<and>
     card (dom (blocks s')) = card (dom (blocks s))"
proof -
  let ?p = "nextBlock s"
  let ?new = "\<lparr>callStack = None, threadId = tid, serialNumber = m_requestCurr s,
            size' = sz, reported = False, debugCrtAlloc = d, ucrt = u\<rparr>"
  let ?c = "mapBlock_record sz d u tid s"
  let ?r = "mapBlock_insert heap mem sz ?p ?c"
  note fresh = wf_fresh [OF w]
  have c_hm: "m_heapMap ?c = m_heapMap s" and c_bl: "blocks ?c = (blocks s)(?p \<mapsto> ?new)"
    and c_cur: "m_curAlloc ?c = m_curAlloc s + sz" and c_log: "reportLog ?c = reportLog s"
    by (simp_all add: mapBlock_record_eq)
  have res: "mapBlock heap mem sz d u tid s = (?r, ?p)"
    by (simp add: mapBlock_def Let_def)
  have ko: "keys_ok (m_heapMap s)" and dp: "distinct (ptrs_of (m_heapMap s))"
    using w by (simp_all add: wf_alt)
  from ko have dist: "distinct (map fst (m_heapMap s))" by (simp add: keys_ok_def)
  from Map_find_split [OF dist f] obtain xs ys where
    hm: "m_heapMap s = xs @ (heap, heapinfo) # ys" and nx: "heap \<notin> fst ` set xs"
    and ny: "heap \<notin> fst ` set ys"
    by blast
  have ko': "keys_ok (xs @ (heap, heapinfo) # ys)" using ko by (simp add: hm)
  have dhi: "distinct (map fst (blockMap heapinfo))" by (rule keys_ok_split(3) [OF ko'])
  have chm: "m_heapMap ?c = xs @ (heap, heapinfo) # ys" by (simp add: c_hm hm)
  from Map_find_split [OF dhi fo] obtain us vs where
    bm: "blockMap heapinfo = us @ (mem, old) # vs" and nu: "mem \<notin> fst ` set us"
    and nv: "mem \<notin> fst ` set vs"
    by blast
  have er: "Map_erase (blockMap heapinfo) mem = us @ vs"
    by (simp add: bm Map_erase_split [OF nu nv])
  have op: "old \<noteq> ?p" using fresh(1) oi by auto
  have coi: "blocks ?c old = Some info" using op by (simp add: c_bl oi)
  have r: "?r = ?c\<lparr>m_curAlloc := m_curAlloc ?c - size' info,
     reportLog := reportLog ?c @ [R_NewAllocAtAllocated mem (size' info) sz],
     blocks := (blocks ?c)(old := None),
     m_heapMap := xs @ (heap, heapinfo\<lparr>blockMap := Map_erase (blockMap heapinfo) mem @ [(mem, ?p)]\<rparr>) # ys\<rparr>"
    by (rule mapBlock_insert_collide [OF chm nx ny fo coi])
  let ?hi' = "heapinfo\<lparr>blockMap := us @ vs @ [(mem, ?p)]\<rparr>"
  have hm': "m_heapMap ?r = xs @ (heap, ?hi') # ys" by (simp add: r er)
  have g1: "Map_find (m_heapMap ?r) heap = Some ?hi'"
    unfolding hm' by (rule Map_find_append_new [OF nx])
  have "mem \<notin> fst ` set (us @ vs)" using nu nv by auto
  from Map_find_append_new [OF this, of ?p "[]"]
  have g2: "Map_find (blockMap ?hi') mem = Some ?p" by simp
  have fu: "filter (\<lambda>it. fst it = mem) us = []" "filter (\<lambda>it. fst it = mem) vs = []"
    using nu nv by (auto simp: filter_empty_conv)
  have g3: "length (filter (\<lambda>it. fst it = mem) (blockMap ?hi')) = 1"
    by (simp add: fu)
  have g4: "length (blockMap ?hi') = length (blockMap heapinfo)" by (simp add: bm)
  have g5: "blocks ?r ?p = Some ?new" using op by (simp add: r c_bl)
  have g6: "blocks ?r old = None" by (simp add: r)
  have g7: "m_curAlloc ?r = m_curAlloc s + sz - size' info" by (simp add: r c_cur)
  have g8: "reportLog ?r = reportLog s @ [R_NewAllocAtAllocated mem (size' info) sz]"
    by (simp add: r c_log)
  have g9: "wf ?r" using wf_mapBlock [OF w, of heap mem sz d u tid] by (simp add: res)
  have g10: "length (block_ptrs ?r) = length (block_ptrs s)"
    by (simp add: block_ptrs_ptrs_of hm' hm heap_ptrs_def bm)
  have "distinct (block_ptrs ?r)" "set (block_ptrs ?r) = dom (blocks ?r)"
    "distinct (block_ptrs s)" "set (block_ptrs s) = dom (blocks s)"
    using g9 w by (simp_all add: wf_def)
  then have g11: "card (dom (blocks ?r)) = card (dom (blocks s))"
    using g10 by (metis distinct_card)
  show ?thesis
    unfolding res using g1 g2 g3 g4 g5 g6 g7 g8 g9 g10 g11 by blast
qed

theorem mapBlock_collision_replaces_witness:
  "\<exists>s' heapinfo'.
     mapBlock 0x10 0x1000 128 False False 2 ledger0 = (s', 1) \<and>
     Map_find (m_heapMap s') 0x10 = Some heapinfo' \<and>
     Map_find (blockMap heapinfo') 0x1000 = Some 1 \<and>
     length (blockMap heapinfo') = 1 \<and>
     blocks s' 0 = None \<and>
     m_curAlloc s' = 128 \<and>
     reportLog s' = [R_NewAllocAtAllocated 0x1000 64 128] \<and>
     card (dom (blocks s')) = 1"
proof -
  have a: "Map_find (m_heapMap ledger0) 0x10 = Some \<lparr>blockMap = [(0x1000, 0)], flags = 0\<rparr>"
    by (simp add: ledger0_def Map_find_def)
  have b: "Map_find (blockMap \<lparr>blockMap = [(0x1000, 0)], flags = 0\<rparr>) 0x1000 = Some 0"
    by (simp add: Map_find_def)
  have c: "blocks ledger0 0 = Some info0" by (simp add: ledger0_def)
  have d: "nextBlock ledger0 = 1" "m_curAlloc ledger0 = 64" "reportLog ledger0 = []"
    "size' info0 = 64" "dom (blocks ledger0) = {0}"
    by (simp_all add: ledger0_def info0_def)
  from mapBlock_collision_replaces [OF wf_ledger0 a b c, of 128 False False 2]
  show ?thesis unfolding d by auto
qed

section \<open>The byte counters\<close>

text \<open>
  Claim C7, as the code has it. The constructor's ledger satisfies \<open>total_inv\<close> (the
  total-allocated counter is saturated at \<^verbatim>\<open>SIZE_MAX\<close>, or at least the exact sum of
  the sizes of the live records), and so does every ledger \<open>s\<close> that the ledger operations
  reach from a ledger that satisfies it. On such a ledger:

    \<^item> \<^verbatim>\<open>mapBlock\<close> adds the size to the total-allocated counter with a saturating
      addition: the result is the exact sum, capped at \<open>2 ^ 64 - 1\<close>;
    \<^item> \<^verbatim>\<open>mapBlock\<close> adds the size to the current-live counter with the machine addition,
      which wraps modulo \<open>2 ^ 64\<close>, and, when the address already held a record, subtracts
      that record's size afterwards;
    \<^item> the peak counter after \<^verbatim>\<open>mapBlock\<close> is the maximum of its old value and the
      current-live counter as it stands right after the addition, before any stale
      record's size is subtracted;
    \<^item> \<^verbatim>\<open>remapBlock\<close> to another address is \<^verbatim>\<open>unmapBlock\<close> (which leaves the total
      alone and yields a ledger reached by the operations) followed by \<^verbatim>\<open>mapBlock\<close>, and
      \<^verbatim>\<open>remapBlock\<close> on an untracked address is \<^verbatim>\<open>mapBlock\<close>;
    \<^item> \<^verbatim>\<open>remapBlock\<close> in place on a tracked record leaves a saturated total saturated;
      otherwise the record's old size is at most the total, so the subtraction does not
      wrap, and the total becomes the exact value total - old size + new size, capped at
      \<open>2 ^ 64 - 1\<close>. The current-live counter becomes current - old size + new size in
      wrapping arithmetic, and the peak counter the maximum of its old value and that.
\<close>

theorem byte_counters_update:
  assumes s0: "total_inv s0" and s: "s = ledger_run e s0 ops"
  shows "total_inv (vld_init opts mtf mdd) \<and> total_inv s \<and>
   unat (m_totalAlloc (fst (mapBlock heap mem sz d u tid s)))
     = min (unat (m_totalAlloc s) + unat sz) (2 ^ 64 - 1) \<and>
   m_curAlloc (fst (mapBlock heap mem sz d u tid s))
     = (case tracked s heap mem of
          None \<Rightarrow> m_curAlloc s + sz
        | Some (old, info) \<Rightarrow> m_curAlloc s + sz - size' info) \<and>
   m_maxAlloc (fst (mapBlock heap mem sz d u tid s)) = max (m_maxAlloc s) (m_curAlloc s + sz) \<and>
   (newmem \<noteq> mem \<longrightarrow>
      fst (remapBlock e heap mem newmem sz d u tid c s)
        = fst (mapBlock heap newmem sz d u tid (unmapBlock e heap mem c s)) \<and>
      unmapBlock e heap mem c s = ledger_run e s0 (ops @ [UnmapBlock heap mem c]) \<and>
      m_totalAlloc (unmapBlock e heap mem c s) = m_totalAlloc s) \<and>
   (tracked s heap mem = None \<longrightarrow>
      fst (remapBlock e heap mem mem sz d u tid c s) = fst (mapBlock heap mem sz d u tid s)) \<and>
   (\<forall>p info. tracked s heap mem = Some (p, info) \<longrightarrow>
      (m_totalAlloc s \<noteq> SIZE_MAX \<longrightarrow> unat (size' info) \<le> unat (m_totalAlloc s)) \<and>
      unat (m_totalAlloc (fst (remapBlock e heap mem mem sz d u tid c s)))
        = (if m_totalAlloc s = SIZE_MAX then 2 ^ 64 - 1
           else min (unat (m_totalAlloc s) - unat (size' info) + unat sz) (2 ^ 64 - 1)) \<and>
      m_curAlloc (fst (remapBlock e heap mem mem sz d u tid c s))
        = m_curAlloc s - size' info + sz \<and>
      m_maxAlloc (fst (remapBlock e heap mem mem sz d u tid c s))
        = max (m_maxAlloc s) (m_curAlloc s - size' info + sz))"
proof -
  have t: "total_inv s" unfolding s by (rule total_inv_run [OF s0])
  then have w: "wf s" by (simp add: total_inv_def)
  have c0: "total_inv (vld_init opts mtf mdd)" by (rule total_inv_init)
  have c1: "unat (m_totalAlloc (fst (mapBlock heap mem sz d u tid s)))
     = min (unat (m_totalAlloc s) + unat sz) (2 ^ 64 - 1)"
    unfolding mapBlock_totals(1) by (rule sat_add_unat)
  note c2 = mapBlock_cur [OF w, of heap mem sz d u tid]
  have c3: "m_maxAlloc (fst (mapBlock heap mem sz d u tid s)) = max (m_maxAlloc s) (m_curAlloc s + sz)"
    unfolding mapBlock_totals(2) by (auto simp: max_def)
  have c4: "newmem \<noteq> mem \<longrightarrow>
      fst (remapBlock e heap mem newmem sz d u tid c s)
        = fst (mapBlock heap newmem sz d u tid (unmapBlock e heap mem c s)) \<and>
      unmapBlock e heap mem c s = ledger_run e s0 (ops @ [UnmapBlock heap mem c]) \<and>
      m_totalAlloc (unmapBlock e heap mem c s) = m_totalAlloc s"
    using remapBlock_moved [of newmem mem e heap sz d u tid c s] unmapBlock_store [of e heap mem c s]
    by (simp add: s ledger_run_def)
  have c5: "tracked s heap mem = None \<longrightarrow>
      fst (remapBlock e heap mem mem sz d u tid c s) = fst (mapBlock heap mem sz d u tid s)"
    using remapBlock_untracked [OF w] by blast
  have c6: "\<forall>p info. tracked s heap mem = Some (p, info) \<longrightarrow>
      (m_totalAlloc s \<noteq> SIZE_MAX \<longrightarrow> unat (size' info) \<le> unat (m_totalAlloc s)) \<and>
      unat (m_totalAlloc (fst (remapBlock e heap mem mem sz d u tid c s)))
        = (if m_totalAlloc s = SIZE_MAX then 2 ^ 64 - 1
           else min (unat (m_totalAlloc s) - unat (size' info) + unat sz) (2 ^ 64 - 1)) \<and>
      m_curAlloc (fst (remapBlock e heap mem mem sz d u tid c s))
        = m_curAlloc s - size' info + sz \<and>
      m_maxAlloc (fst (remapBlock e heap mem mem sz d u tid c s))
        = max (m_maxAlloc s) (m_curAlloc s - size' info + sz)"
  proof (intro allI impI)
    fix p info assume tr: "tracked s heap mem = Some (p, info)"
    note r = remapBlock_tracked(1) [OF tr, of e sz d u tid c]
    note it = inplace_total(1) [OF t remapBlock_tracked(2) [OF tr]]
      inplace_total(2) [OF t remapBlock_tracked(2) [OF tr], of sz tid]
    have cur: "m_curAlloc (remapBlock_inplace p info sz tid s) = m_curAlloc s - size' info + sz"
      by (simp add: remapBlock_inplace_eq)
    have mx: "m_maxAlloc (remapBlock_inplace p info sz tid s)
        = max (m_maxAlloc s) (m_curAlloc s - size' info + sz)"
      by (auto simp: remapBlock_inplace_eq max_def)
    show "(m_totalAlloc s \<noteq> SIZE_MAX \<longrightarrow> unat (size' info) \<le> unat (m_totalAlloc s)) \<and>
      unat (m_totalAlloc (fst (remapBlock e heap mem mem sz d u tid c s)))
        = (if m_totalAlloc s = SIZE_MAX then 2 ^ 64 - 1
           else min (unat (m_totalAlloc s) - unat (size' info) + unat sz) (2 ^ 64 - 1)) \<and>
      m_curAlloc (fst (remapBlock e heap mem mem sz d u tid c s))
        = m_curAlloc s - size' info + sz \<and>
      m_maxAlloc (fst (remapBlock e heap mem mem sz d u tid c s))
        = max (m_maxAlloc s) (m_curAlloc s - size' info + sz)"
      unfolding r using it cur mx by blast
  qed
  from c0 t c1 c2 c3 c4 c5 c6 show ?thesis by blast
qed

text \<open>
  The example ledger (64 bytes live at 0x1000): mapping 128 bytes at the same address
  leaves 128 bytes current, a peak of 192 and a total of 192; resizing the block in
  place to 32 bytes leaves total, current and peak at 32, 32 and 64; moving it to 0x3000
  with 32 bytes leaves them at 96, 32 and 64.
\<close>

theorem byte_counters_update_witness:
  "total_inv ledger0 \<and>
   m_totalAlloc (fst (mapBlock 0x10 0x1000 128 False False 1 ledger0)) = 192 \<and>
   m_curAlloc (fst (mapBlock 0x10 0x1000 128 False False 1 ledger0)) = 128 \<and>
   m_maxAlloc (fst (mapBlock 0x10 0x1000 128 False False 1 ledger0)) = 192 \<and>
   m_totalAlloc (fst (remapBlock env0 0x10 0x1000 0x1000 32 False False 2 ctx0 ledger0)) = 32 \<and>
   m_curAlloc (fst (remapBlock env0 0x10 0x1000 0x1000 32 False False 2 ctx0 ledger0)) = 32 \<and>
   m_maxAlloc (fst (remapBlock env0 0x10 0x1000 0x1000 32 False False 2 ctx0 ledger0)) = 64 \<and>
   m_totalAlloc (fst (remapBlock env0 0x10 0x1000 0x3000 32 False False 2 ctx0 ledger0)) = 96 \<and>
   m_curAlloc (fst (remapBlock env0 0x10 0x1000 0x3000 32 False False 2 ctx0 ledger0)) = 32 \<and>
   m_maxAlloc (fst (remapBlock env0 0x10 0x1000 0x3000 32 False False 2 ctx0 ledger0)) = 64"
proof -
  have run: "ledger0 = ledger_run env0 ledger0 []" by (simp add: ledger_run_def)
  have tr: "tracked ledger0 0x10 0x1000 = Some (0, info0)"
    by (simp add: tracked_def ledger0_def Map_find_def)
  have c: "m_totalAlloc ledger0 = 64" "m_curAlloc ledger0 = 64" "m_maxAlloc ledger0 = 64"
    "size' info0 = 64"
    by (simp_all add: ledger0_def info0_def)
  have ne: "(64 :: SIZE_T) \<noteq> SIZE_MAX" by (simp add: SIZE_MAX_def)
  note a = byte_counters_update [OF total_inv_ledger0 run,
      where opts = "{}" and mtf = 64 and mdd = 256 and heap = "0x10" and mem = "0x1000"
        and sz = 128 and d = False and u = False and tid = 1 and newmem = "0x1000" and c = ctx0]
  note b = byte_counters_update [OF total_inv_ledger0 run,
      where opts = "{}" and mtf = 64 and mdd = 256 and heap = "0x10" and mem = "0x1000"
        and sz = 32 and d = False and u = False and tid = 2 and newmem = "0x1000" and c = ctx0]
  have a1: "unat (m_totalAlloc (fst (mapBlock 0x10 0x1000 128 False False 1 ledger0))) = 192"
    using a by (simp add: c)
  have a1': "m_totalAlloc (fst (mapBlock 0x10 0x1000 128 False False 1 ledger0)) = 192"
    using unat_eq_of_nat [OF a1] by simp
  have a2: "m_curAlloc (fst (mapBlock 0x10 0x1000 128 False False 1 ledger0)) = 128"
    using a by (simp add: tr c)
  have a3: "m_maxAlloc (fst (mapBlock 0x10 0x1000 128 False False 1 ledger0)) = 192"
    using a by (simp add: c)
  from b have b': "unat (m_totalAlloc (fst (remapBlock env0 0x10 0x1000 0x1000 32 False False 2 ctx0 ledger0)))
        = 32 \<and>
      m_curAlloc (fst (remapBlock env0 0x10 0x1000 0x1000 32 False False 2 ctx0 ledger0)) = 32 \<and>
      m_maxAlloc (fst (remapBlock env0 0x10 0x1000 0x1000 32 False False 2 ctx0 ledger0)) = 64"
    by (simp add: tr c ne)
  then have "unat (m_totalAlloc (fst (remapBlock env0 0x10 0x1000 0x1000 32 False False 2 ctx0 ledger0)))
        = 32" by simp
  from unat_eq_of_nat [OF this]
  have b1: "m_totalAlloc (fst (remapBlock env0 0x10 0x1000 0x1000 32 False False 2 ctx0 ledger0)) = 32"
    by simp
  note m = byte_counters_update [OF total_inv_ledger0 run,
      where opts = "{}" and mtf = 64 and mdd = 256 and heap = "0x10" and mem = "0x1000"
        and sz = 32 and d = False and u = False and tid = 2 and newmem = "0x3000" and c = ctx0]
  have ne2: "(0x3000 :: LPCVOID) \<noteq> 0x1000" by simp
  from m ne2 have m1: "fst (remapBlock env0 0x10 0x1000 0x3000 32 False False 2 ctx0 ledger0)
        = fst (mapBlock 0x10 0x3000 32 False False 2 (unmapBlock env0 0x10 0x1000 ctx0 ledger0))"
    by blast
  have m2: "m_totalAlloc (fst (remapBlock env0 0x10 0x1000 0x3000 32 False False 2 ctx0 ledger0)) = 96 \<and>
   m_curAlloc (fst (remapBlock env0 0x10 0x1000 0x3000 32 False False 2 ctx0 ledger0)) = 32 \<and>
   m_maxAlloc (fst (remapBlock env0 0x10 0x1000 0x3000 32 False False 2 ctx0 ledger0)) = 64"
    unfolding m1
    by (simp add: ledger0_def info0_def unmapBlock_def mapBlock_def mapBlock_record_def
        mapBlock_insert_def Map_find_def Map_insert_def Map_update_def Map_erase_def Let_def
        SIZE_MAX_def)
  from a have "total_inv ledger0" by simp
  with a1' a2 a3 b' b1 m2 show ?thesis by simp
qed

text \<open>
  The claim as the spec words it (all three counters saturate) fails for the current-live
  and the peak counter: with 64 bytes live, mapping a block of \<^verbatim>\<open>SIZE_MAX\<close> bytes leaves
  the current-live counter at 63 and the peak at 64, while the total saturates.
\<close>

theorem curAlloc_wraps_counterexample:
  "m_curAlloc ledger0 = 64 \<and> m_curAlloc ledger_big = 63 \<and> m_maxAlloc ledger_big = 64 \<and>
   m_totalAlloc ledger_big = SIZE_MAX"
  by (simp add: ledger_big_def ledger0_def mapBlock_def mapBlock_record_def mapBlock_insert_def
      Map_find_def Map_insert_def Map_update_def Let_def SIZE_MAX_def)

section \<open>Only the outermost capture commits\<close>




section \<open>The loader-hook patch is applied once\<close>

text \<open>
  Claim C9. \<^verbatim>\<open>NtDllPatch\<close> on a record whose state flag is set returns \<^verbatim>\<open>TRUE\<close> and
  changes neither the memory nor the record. It returns the state flag as it leaves it,
  so after a call that returned \<^verbatim>\<open>TRUE\<close> any further call is such a no-op. A call that
  finds the flag unset and returns \<^verbatim>\<open>TRUE\<close> has found a patch address between 7 and 31
  bytes below the return address, has saved the bytes from there up to the return
  address in \<^verbatim>\<open>pBackup\<close>, and has written the jump \<^verbatim>\<open>E9\<close> and the call \<^verbatim>\<open>FF D0\<close> in front
  of the return address; the saved bytes fit the array, so that \<^verbatim>\<open>NtDllRestore\<close> is
  defined on the result. \<^verbatim>\<open>NtDllRestore\<close> on a record whose flag is unset returns
  \<^verbatim>\<open>FALSE\<close> and changes nothing. It never changes the record; if it returns \<^verbatim>\<open>TRUE\<close> or
  has changed the memory, the flag was set (and the patch size is not zero), and if it
  returns \<^verbatim>\<open>TRUE\<close> the memory is the old one with the saved bytes written back at the
  patch address and the detour zeroed.
\<close>

theorem NtDllPatch_idempotent:
  "(bState p \<longrightarrow> NtDllPatch E ret (m, p) = ((m, p), True)) \<and>
   snd (NtDllPatch E ret (m, p)) = bState (snd (fst (NtDllPatch E ret (m, p)))) \<and>
   (snd (NtDllPatch E ret (m, p)) \<longrightarrow>
      NtDllPatch E ret' (fst (NtDllPatch E ret (m, p))) = (fst (NtDllPatch E ret (m, p)), True)) \<and>
   (\<not> bState p \<and> snd (NtDllPatch E ret (m, p)) \<longrightarrow>
      pPatchAddress (snd (fst (NtDllPatch E ret (m, p)))) \<noteq> 0 \<and>
      nPatchSize (snd (fst (NtDllPatch E ret (m, p))))
        = ret - pPatchAddress (snd (fst (NtDllPatch E ret (m, p)))) \<and>
      7 \<le> unat (nPatchSize (snd (fst (NtDllPatch E ret (m, p))))) \<and>
      unat (nPatchSize (snd (fst (NtDllPatch E ret (m, p))))) \<le> 0x1F \<and>
      (\<forall>i < unat (nPatchSize (snd (fst (NtDllPatch E ret (m, p))))). i < length (pBackup p) \<longrightarrow>
         pBackup (snd (fst (NtDllPatch E ret (m, p)))) ! i
           = m (pPatchAddress (snd (fst (NtDllPatch E ret (m, p)))) + of_nat i)) \<and>
      fst (fst (NtDllPatch E ret (m, p))) (ret - 7) = 0xE9 \<and>
      fst (fst (NtDllPatch E ret (m, p))) (ret - 2) = 0xFF \<and>
      fst (fst (NtDllPatch E ret (m, p))) (ret - 1) = 0xD0 \<and>
      (length (pBackup p) = 0x20 \<longrightarrow> NtDllRestore E (fst (NtDllPatch E ret (m, p))) \<noteq> None)) \<and>
   (\<not> bState p \<longrightarrow> NtDllRestore E (m, p) = Some ((m, p), False)) \<and>
   (\<forall>st r. NtDllRestore E (m, p) = Some (st, r) \<longrightarrow>
      snd st = p \<and>
      (r \<or> fst st \<noteq> m \<longrightarrow>
         bState p \<and> nPatchSize p \<noteq> 0 \<and> VirtualProtect E (pPatchAddress p) (nPatchSize p)) \<and>
      (r \<longrightarrow> fst st = memset (store_bytes m (pPatchAddress p)
                                (take (unat (nPatchSize p)) (pBackup p)))
                            (pDetourAddress p) 0 (nDetourSize p)))"
proof -
  let ?R = "NtDllPatch E ret (m, p)"
  let ?p' = "snd (fst ?R)"
  let ?m' = "fst (fst ?R)"
  have c1: "bState p \<longrightarrow> ?R = ((m, p), True)" by (simp add: NtDllPatch_set)
  have c2: "snd ?R = bState ?p'" by (rule NtDllPatch_result)
  have c3: "snd ?R \<longrightarrow> NtDllPatch E ret' (fst ?R) = (fst ?R, True)"
  proof
    assume "snd ?R"
    then have "bState ?p'" using c2 by simp
    from NtDllPatch_set [OF this, of E ret' ?m'] show "NtDllPatch E ret' (fst ?R) = (fst ?R, True)"
      by simp
  qed
  have c4: "pPatchAddress ?p' \<noteq> 0 \<and> nPatchSize ?p' = ret - pPatchAddress ?p' \<and>
      7 \<le> unat (nPatchSize ?p') \<and> unat (nPatchSize ?p') \<le> 0x1F \<and>
      (\<forall>i < unat (nPatchSize ?p'). i < length (pBackup p) \<longrightarrow>
         pBackup ?p' ! i = m (pPatchAddress ?p' + of_nat i)) \<and>
      ?m' (ret - 7) = 0xE9 \<and> ?m' (ret - 2) = 0xFF \<and> ?m' (ret - 1) = 0xD0 \<and>
      (length (pBackup p) = 0x20 \<longrightarrow> NtDllRestore E (fst ?R) \<noteq> None)"
    if nb: "\<not> bState p" and ok: "snd ?R"
  proof -
    note s = NtDllPatch_success [OF nb ok]
    let ?a = "NtDllFindParamAddress m ret"
    have n: "nPatchSize ?p' = ret - ?a" and a: "pPatchAddress ?p' = ?a" by (rule s)+
    have r1: "unat (ret - ?a) \<le> 0x1F" by (rule NtDllFindParamAddress_range(2) [OF s(2)])
    have r0: "7 \<le> unat (ret - ?a)" using s(4) by (simp add: word_le_nat_alt)
    have bk: "pBackup ?p' ! i = m (?a + of_nat i)" if "i < unat (ret - ?a)" "i < length (pBackup p)" for i
    proof -
      have "of_nat i < ret - ?a" using that(1) by (rule of_nat_less_word)
      then show ?thesis unfolding s(6) using that(2) by (simp add: backup_bytes_nth)
    qed
    have df: "NtDllRestore E (fst ?R) \<noteq> None" if "length (pBackup p) = 0x20"
    proof -
      have "unat (nPatchSize ?p') \<le> length (pBackup ?p')" using r1 that by (simp add: n s(6))
      from NtDllRestore_defined [OF this, of E ?m'] show ?thesis by simp
    qed
    show ?thesis using s(2) r0 r1 bk s(7,8,9) df by (simp add: n a)
  qed
  have c5: "\<not> bState p \<longrightarrow> NtDllRestore E (m, p) = Some ((m, p), False)"
    by (simp add: NtDllRestore_unset)
  have c6: "\<forall>st r. NtDllRestore E (m, p) = Some (st, r) \<longrightarrow>
      snd st = p \<and>
      (r \<or> fst st \<noteq> m \<longrightarrow>
         bState p \<and> nPatchSize p \<noteq> 0 \<and> VirtualProtect E (pPatchAddress p) (nPatchSize p)) \<and>
      (r \<longrightarrow> fst st = memset (store_bytes m (pPatchAddress p)
                                (take (unat (nPatchSize p)) (pBackup p)))
                            (pDetourAddress p) 0 (nDetourSize p))"
    using NtDllRestore_Some [of E m p] by blast
  from c1 c2 c3 c4 c5 c6 show ?thesis by blast
qed

text \<open>
  The example memory: the first call patches and returns \<^verbatim>\<open>TRUE\<close>, a second call is a
  no-op, \<^verbatim>\<open>NtDllRestore\<close> on the initial record fails and changes nothing, and on the
  patched state it succeeds and puts the original bytes back.
\<close>

theorem NtDllPatch_idempotent_witness:
  "snd (NtDllPatch os0 0x1000 (mem0, patch0)) \<and>
   NtDllPatch os0 0x1000 (fst (NtDllPatch os0 0x1000 (mem0, patch0)))
     = (fst (NtDllPatch os0 0x1000 (mem0, patch0)), True) \<and>
   map (fst (fst (NtDllPatch os0 0x1000 (mem0, patch0)))) [0xFF9, 0xFFE, 0xFFF] = [0xE9, 0xFF, 0xD0] \<and>
   pBackup (snd (fst (NtDllPatch os0 0x1000 (mem0, patch0)))) ! 0 = 0x4C \<and>
   pBackup (snd (fst (NtDllPatch os0 0x1000 (mem0, patch0)))) ! 1 = 0x8B \<and>
   pBackup (snd (fst (NtDllPatch os0 0x1000 (mem0, patch0)))) ! 10 = 0xFF \<and>
   NtDllRestore os0 (mem0, patch0) = Some ((mem0, patch0), False) \<and>
   (\<exists>m'. NtDllRestore os0 (fst (NtDllPatch os0 0x1000 (mem0, patch0)))
            = Some ((m', snd (fst (NtDllPatch os0 0x1000 (mem0, patch0)))), True) \<and>
         m' 0xFF4 = 0x4C \<and> m' 0xFF5 = 0x8B \<and> m' 0xFFE = 0xFF)"
proof -
  let ?R = "NtDllPatch os0 0x1000 (mem0, patch0)"
  let ?m = "fst (fst ?R)"
  let ?p = "snd (fst ?R)"
  have nb: "\<not> bState patch0" and len: "length (pBackup patch0) = 0x20" by (simp_all add: patch0_def)
  note t = NtDllPatch_idempotent [of patch0 os0 "0x1000" mem0 "0x1000"]
  have a: "snd ?R" by (rule patch0_ok)
  have b: "NtDllPatch os0 0x1000 (fst ?R) = (fst ?R, True)" using t a by blast
  have c: "map ?m [0xFF9, 0xFFE, 0xFFF] = [0xE9, 0xFF, 0xD0]"
    using t nb a by simp
  have bk: "pBackup ?p ! i = mem0 (0xFF4 + of_nat i)" if "i < 12" for i
    using t nb a that by (simp add: patched0 len)
  have d: "pBackup ?p ! 0 = 0x4C" "pBackup ?p ! 1 = 0x8B" "pBackup ?p ! 10 = 0xFF"
    using bk [of 0] bk [of 1] bk [of 10] by (simp_all add: mem0_def)
  have e: "NtDllRestore os0 (mem0, patch0) = Some ((mem0, patch0), False)" using t nb by blast
  let ?M = "memset (store_bytes ?m 0xFF4 (take 12 (pBackup ?p))) 0x1FE4 0 28"
  have rs: "NtDllRestore os0 (fst ?R) = Some ((?M, ?p), True)"
    by (simp add: NtDllRestore_def Let_def patched0) (simp add: os0_def)
  have f: "?M 0xFF4 = 0x4C" "?M 0xFF5 = 0x8B" "?M 0xFFE = 0xFF"
    using d by (simp_all add: memset_def store_bytes_def patched0)
  from a b c d e rs f show ?thesis by blast
qed

end
